(* ===== verification/Prelude.thy ===== *)
theory Prelude
  imports Main "HOL-Library.Word" "HOL-Library.Multiset"
begin

unbundle bit_operations_syntax

text \<open>
  Shared vocabulary of the development: the machine types of the C++ code as words, results
  that carry an error, and the generic facts on words, lists and results that the component
  theories rely on. Facts that only serve as rewrite rules for a family of proofs are put in
  the collections declared here.
\<close>

named_theorems word_nat \<open>reading word operations as operations on natural numbers\<close>
named_theorems codec_simps \<open>unfolding of readers and writers\<close>

section \<open>Machine types\<close>

type_synonym byte = "8 word"
type_synonym u16 = "16 word"
type_synonym u32 = "32 word"
type_synonym u64 = "64 word"
type_synonym i64 = "64 word"
type_synonym bytes = "byte list"

text \<open>A \<^verbatim>\<open>std::string\<close> is a sequence of bytes; a literal of the source is written as a
  HOL string and converted.\<close>

definition bytes_of :: "string \<Rightarrow> bytes" where
  "bytes_of s = map of_char s"

lemma length_bytes_of [simp]: "length (bytes_of s) = length s"
  by (simp add: bytes_of_def)

section \<open>Results with an error\<close>

text \<open>An exception or a failed return of the source is \<^term>\<open>Inl e\<close>; \<open>bindE\<close> runs
  the rest of the function only when the call returned.\<close>

definition bindE :: "'e + 'a \<Rightarrow> ('a \<Rightarrow> 'e + 'b) \<Rightarrow> 'e + 'b" where
  "bindE r f = (case r of Inl e \<Rightarrow> Inl e | Inr x \<Rightarrow> f x)"

lemma bindE_simps [simp]:
  "bindE (Inl e) f = Inl e"
  "bindE (Inr x) f = f x"
  by (simp_all add: bindE_def)

lemma bindE_Inr [simp]: "bindE r Inr = r"
  by (cases r) auto

lemma bindE_eq_Inr:
  "bindE r f = Inr y \<longleftrightarrow> (\<exists>x. r = Inr x \<and> f x = Inr y)"
  by (cases r) auto

lemma bindE_InrE [elim!]:
  assumes "bindE r f = Inr y"
  obtains x where "r = Inr x" "f x = Inr y"
  using assms by (auto simp: bindE_eq_Inr)

text \<open>\<^verbatim>\<open>if (!cond) throw e;\<close>\<close>

definition guardE :: "bool \<Rightarrow> 'e \<Rightarrow> 'e + unit" where
  "guardE b e = (if b then Inr () else Inl e)"

lemma guardE_simps [simp]:
  "guardE True e = Inr ()"
  "guardE False e = Inl e"
  "guardE b e = Inr u \<longleftrightarrow> b"
  by (simp_all add: guardE_def)

section \<open>Words as natural numbers\<close>

lemma unat_lt_64: "unat (x :: u64) < 18446744073709551616"
  using unsigned_less [of x] by simp

lemma unat_lt_32: "unat (x :: u32) < 4294967296"
  using unsigned_less [of x] by simp

lemma unat_lt_16: "unat (x :: u16) < 65536"
  using unsigned_less [of x] by simp

lemma unat_lt_8: "unat (x :: byte) < 256"
  using unsigned_less [of x] by simp

lemma unat_add64: "unat (x + y :: u64) = (unat x + unat y) mod 18446744073709551616"
  by (simp add: unat_word_ariths)

lemma unat_mult64: "unat (x * y :: u64) = (unat x * unat y) mod 18446744073709551616"
  by (simp add: unat_word_ariths)

lemma unat_plus_small [word_nat]:
  "unat x + unat y < 2 ^ LENGTH('a) \<Longrightarrow> unat (x + y :: 'a::len word) = unat x + unat y"
  by (simp add: unat_word_ariths)

lemma unat_times_small [word_nat]:
  "unat x * unat y < 2 ^ LENGTH('a) \<Longrightarrow> unat (x * y :: 'a::len word) = unat x * unat y"
  by (simp add: unat_word_ariths)

lemma unat_minus_small [word_nat]:
  "y \<le> x \<Longrightarrow> unat (x - y :: 'a::len word) = unat x - unat y"
  by (simp add: unat_sub)

lemma unat_of_nat_small [word_nat]:
  "n < 2 ^ LENGTH('a) \<Longrightarrow> unat (of_nat n :: 'a::len word) = n"
  by (simp add: unat_of_nat)

lemma unat_drop_bit [word_nat]: "unat (drop_bit n (x :: 'a::len word)) = unat x div 2 ^ n"
  using unat_drop_bit_eq [of n x] drop_bit_eq_div [of n "unat x"] by (rule trans)

lemma unat_push_bit_mod [word_nat]:
  "unat (push_bit n (x :: 'a::len word)) = (unat x * 2 ^ n) mod 2 ^ LENGTH('a)"
proof -
  have "unat (push_bit n x) = take_bit LENGTH('a) (push_bit n (unat x))"
    by (rule unsigned_push_bit_eq)
  then show ?thesis
    unfolding push_bit_eq_mult [of n "unat x"] take_bit_eq_mod .
qed

lemma unat_ucast_mod:
  "unat (ucast (x :: 'a::len word) :: 'b::len word) = unat x mod 2 ^ LENGTH('b)"
  by (simp add: unsigned_ucast_eq take_bit_eq_mod)

lemma unat_ucast_up:
  assumes "LENGTH('a) \<le> LENGTH('b)"
  shows "unat (ucast (x :: 'a::len word) :: 'b::len word) = unat x"
proof -
  have "unat x < 2 ^ LENGTH('a)" by (rule unsigned_less)
  also have "\<dots> \<le> (2::nat) ^ LENGTH('b)" using assms by (rule power_increasing) simp
  finally show ?thesis by (simp add: unat_ucast_mod)
qed

lemma word_less_unat: "(x :: 'a::len word) < y \<longleftrightarrow> unat x < unat y"
  by (rule word_less_nat_alt)

lemma word_le_unat: "(x :: 'a::len word) \<le> y \<longleftrightarrow> unat x \<le> unat y"
  by (rule word_le_nat_alt)

lemma word_eq_unat: "(x :: 'a::len word) = y \<longleftrightarrow> unat x = unat y"
  by (metis word_unat_eq_iff)

lemma word_of_unat: "unat (w :: 'a::len word) = k \<Longrightarrow> w = of_nat k"
  by auto

lemma quotient_remainder_nat:
  "q * d + r = n \<Longrightarrow> r < d \<Longrightarrow> q = n div d \<and> r = n mod (d :: nat)"
  by auto

lemma two_64: "(2 :: nat) ^ 64 = 18446744073709551616"
  by simp

lemma unat_or_push_bit:
  assumes "unat (x :: 'a::len word) < 2 ^ n" "unat x + unat y * 2 ^ n < 2 ^ LENGTH('a)"
  shows "unat (x OR push_bit n y) = unat x + unat y * 2 ^ n"
proof -
  have "x AND push_bit n y = 0"
  proof (rule bit_word_eqI)
    fix k assume "k < LENGTH('a)"
    have "\<not> bit x k" if "n \<le> k"
    proof -
      have "unat (take_bit n x) = unat x"
        using assms(1) by (simp only: unsigned_take_bit_eq take_bit_nat_eq_self)
      then have "take_bit n x = x" by (simp add: word_eq_unat)
      then have "bit x k = bit (take_bit n x) k" by simp
      with that show ?thesis by (simp add: bit_take_bit_iff)
    qed
    then show "bit (x AND push_bit n y) k = bit (0 :: 'a word) k"
      by (auto simp: bit_and_iff bit_push_bit_iff)
  qed
  then have "x OR push_bit n y = x + push_bit n y"
    by (simp add: disjunctive_add_eq_or)
  moreover have "unat (push_bit n y) = unat y * 2 ^ n"
    using assms(2) by (simp add: unat_push_bit_mod)
  ultimately show ?thesis
    using assms(2) by (simp add: unat_plus_small)
qed

lemma list_update_Cons_numeral [simp]:
  "(x # xs)[numeral n := v] = x # xs[pred_numeral n := v]"
  by (simp add: numeral_eq_Suc)

text \<open>Rotation by two shifts.\<close>

lemma rotl_shifts:
  assumes "0 < k" "k < LENGTH('a)"
  shows "push_bit k x OR drop_bit (LENGTH('a) - k) x = word_rotl k (x :: 'a::len word)"
proof (rule bit_word_eqI)
  fix n assume n: "n < LENGTH('a)"
  have "(n + (LENGTH('a) - k)) mod LENGTH('a) = (if k \<le> n then n - k else n + (LENGTH('a) - k))"
    using n assms by (auto simp: mod_if)
  moreover have "\<not> bit x (LENGTH('a) - k + n)" if "k \<le> n"
    using that assms by (intro notI) (auto dest!: bit_imp_le_length)
  ultimately show "bit (push_bit k x OR drop_bit (LENGTH('a) - k) x) n = bit (word_rotl k x) n"
    using n assms by (auto simp: bit_simps bit_word_rotl_iff add.commute)
qed

lemma rotl_zero: "word_rotl 0 x = (x :: 'a::len word)"
  by (rule bit_word_eqI) (simp add: bit_word_rotl_iff)

text \<open>Equality of words bit by bit, the positions written out so that the simplifier can
  evaluate the masks.\<close>

lemma u32_bit_eqI:
  assumes "list_all (\<lambda>n. bit (x :: u32) n = bit y n)
    [0, 1, 2, 3, 4, 5, 6, 7, 8, 9, 10, 11, 12, 13, 14, 15, 16, 17, 18, 19, 20, 21, 22, 23, 24,
    25, 26, 27, 28, 29, 30, 31]"
  shows "x = y"
proof (rule bit_word_eqI)
  fix n assume "n < LENGTH(32)"
  then have "n \<in> set [0..<32]" by simp
  also have "[0..<32] =
      [0, 1, 2, 3, 4, 5, 6, 7, 8, 9, 10, 11, 12, 13, 14, 15, 16, 17, 18, 19, 20, 21, 22, 23,
      24, 25, 26, 27, 28, 29, 30, 31]"
    by code_simp
  finally show "bit x n = bit y n"
    using assms unfolding list_all_iff by blast
qed

lemma u64_bit_eqI:
  assumes "list_all (\<lambda>n. bit (x :: u64) n = bit y n)
    [0, 1, 2, 3, 4, 5, 6, 7, 8, 9, 10, 11, 12, 13, 14, 15, 16, 17, 18, 19, 20, 21, 22, 23, 24,
    25, 26, 27, 28, 29, 30, 31, 32, 33, 34, 35, 36, 37, 38, 39, 40, 41, 42, 43, 44, 45, 46,
    47, 48, 49, 50, 51, 52, 53, 54, 55, 56, 57, 58, 59, 60, 61, 62, 63]"
  shows "x = y"
proof (rule bit_word_eqI)
  fix n assume "n < LENGTH(64)"
  then have "n \<in> set [0..<64]" by simp
  also have "[0..<64] =
      [0, 1, 2, 3, 4, 5, 6, 7, 8, 9, 10, 11, 12, 13, 14, 15, 16, 17, 18, 19, 20, 21, 22, 23,
      24, 25, 26, 27, 28, 29, 30, 31, 32, 33, 34, 35, 36, 37, 38, 39, 40, 41, 42, 43, 44, 45,
      46, 47, 48, 49, 50, 51, 52, 53, 54, 55, 56, 57, 58, 59, 60, 61, 62, 63]"
    by code_simp
  finally show "bit x n = bit y n"
    using assms unfolding list_all_iff by blast
qed

end
