(* ===== verification/IntUtil.thy ===== *)
theory IntUtil
  imports Prelude
begin

unbundle bit_operations_syntax

text \<open>
  \<^verbatim>\<open>src/common/int_util.h\<close>: double-word multiplication and division, rotations and
  byte swapping. A pointer argument the C code writes through is a further component of the
  result. Division by zero traps in C and is \<^term>\<open>None\<close> here.
\<close>

section \<open>Definitions\<close>

definition rol32 :: "u32 \<Rightarrow> int \<Rightarrow> u32" where
  "rol32 x r = push_bit (nat (r AND 31)) x OR drop_bit (nat ((- r) AND 31)) x"

definition rol64 :: "u64 \<Rightarrow> int \<Rightarrow> u64" where
  "rol64 x r = push_bit (nat (r AND 63)) x OR drop_bit (nat ((- r) AND 63)) x"

definition hi_dword :: "u64 \<Rightarrow> u64" where
  "hi_dword val = drop_bit 32 val"

definition lo_dword :: "u64 \<Rightarrow> u64" where
  "lo_dword val = val AND 0xFFFFFFFF"

text \<open>The result is the returned low word and the high word stored through \<open>product_hi\<close>.\<close>

definition mul128 :: "u64 \<Rightarrow> u64 \<Rightarrow> u64 \<times> u64" where
  "mul128 multiplier multiplicand =
    (let a = hi_dword multiplier;
         b = lo_dword multiplier;
         c = hi_dword multiplicand;
         d = lo_dword multiplicand;
         ac = a * c;
         ad = a * d;
         bc = b * c;
         bd = b * d;
         adbc = ad + bc;
         adbc_carry = (if adbc < ad then 1 else 0);
         product_lo = bd + push_bit 32 adbc;
         product_lo_carry = (if product_lo < bd then 1 else 0);
         product_hi = ac + drop_bit 32 adbc + push_bit 32 adbc_carry + product_lo_carry
     in (product_lo, product_hi))"

text \<open>The quotient and the new remainder.\<close>

definition div_with_reminder :: "u64 \<Rightarrow> u32 \<Rightarrow> u32 \<Rightarrow> (u64 \<times> u32) option" where
  "div_with_reminder dividend divisor remainder =
    (if divisor = 0 then None
     else let dividend = dividend OR push_bit 32 (ucast remainder)
          in Some (dividend div ucast divisor, ucast (dividend mod ucast divisor)))"

text \<open>\<open>(quotient_hi, quotient_lo, remainder)\<close>; the four digits are taken from the most
  significant one down, each step carrying the remainder of the one before.\<close>

definition div128_32 :: "u64 \<Rightarrow> u64 \<Rightarrow> u32 \<Rightarrow> (u64 \<times> u64 \<times> u32) option" where
  "div128_32 dividend_hi dividend_lo divisor =
    (case div_with_reminder (hi_dword dividend_hi) divisor 0 of None \<Rightarrow> None
     | Some (q3, r3) \<Rightarrow>
    (case div_with_reminder (lo_dword dividend_hi) divisor r3 of None \<Rightarrow> None
     | Some (q2, r2) \<Rightarrow>
    (case div_with_reminder (hi_dword dividend_lo) divisor r2 of None \<Rightarrow> None
     | Some (q1, r1) \<Rightarrow>
    (case div_with_reminder (lo_dword dividend_lo) divisor r1 of None \<Rightarrow> None
     | Some (q0, r0) \<Rightarrow>
       Some (push_bit 32 q3 OR q2, push_bit 32 q1 OR q0, r0)))))"

definition ident32 :: "u32 \<Rightarrow> u32" where
  "ident32 x = x"

definition ident64 :: "u64 \<Rightarrow> u64" where
  "ident64 x = x"

text \<open>The macros \<^verbatim>\<open>SWAP32\<close> and \<^verbatim>\<open>SWAP64\<close> pick each byte separately, the
  functions \<open>swap32\<close> and \<open>swap64\<close> exchange groups of growing width.\<close>

definition SWAP32 :: "u32 \<Rightarrow> u32" where
  "SWAP32 x = push_bit 24 (x AND 0x000000ff) OR push_bit 8 (x AND 0x0000ff00) OR
              drop_bit 8 (x AND 0x00ff0000) OR drop_bit 24 (x AND 0xff000000)"

definition SWAP64 :: "u64 \<Rightarrow> u64" where
  "SWAP64 x = push_bit 56 (x AND 0x00000000000000ff) OR push_bit 40 (x AND 0x000000000000ff00) OR
              push_bit 24 (x AND 0x0000000000ff0000) OR push_bit 8 (x AND 0x00000000ff000000) OR
              drop_bit 8 (x AND 0x000000ff00000000) OR drop_bit 24 (x AND 0x0000ff0000000000) OR
              drop_bit 40 (x AND 0x00ff000000000000) OR drop_bit 56 (x AND 0xff00000000000000)"

definition swap32 :: "u32 \<Rightarrow> u32" where
  "swap32 x =
    (let x = push_bit 8 (x AND 0x00ff00ff) OR drop_bit 8 (x AND 0xff00ff00)
     in push_bit 16 x OR drop_bit 16 x)"

definition swap64 :: "u64 \<Rightarrow> u64" where
  "swap64 x =
    (let x = push_bit 8 (x AND 0x00ff00ff00ff00ff) OR drop_bit 8 (x AND 0xff00ff00ff00ff00);
         x = push_bit 16 (x AND 0x0000ffff0000ffff) OR drop_bit 16 (x AND 0xffff0000ffff0000)
     in push_bit 32 x OR drop_bit 32 x)"

text \<open>The loops over an array of words: \<open>n\<close> is the number of elements, and an access past
  the end of the array is \<^term>\<open>None\<close>.\<close>

fun mem_inplace_loop :: "('a \<Rightarrow> 'a) \<Rightarrow> 'a list \<Rightarrow> nat \<Rightarrow> nat \<Rightarrow> 'a list option" where
  "mem_inplace_loop f mem i 0 = Some mem"
| "mem_inplace_loop f mem i (Suc k) =
    (if i < length mem then mem_inplace_loop f (mem[i := f (mem ! i)]) (Suc i) k else None)"

definition mem_inplace_swap32 :: "u32 list \<Rightarrow> nat \<Rightarrow> u32 list option" where
  "mem_inplace_swap32 mem n = mem_inplace_loop swap32 mem 0 n"

definition mem_inplace_swap64 :: "u64 list \<Rightarrow> nat \<Rightarrow> u64 list option" where
  "mem_inplace_swap64 mem n = mem_inplace_loop swap64 mem 0 n"

fun memcpy_loop :: "('a \<Rightarrow> 'a) \<Rightarrow> 'a list \<Rightarrow> 'a list \<Rightarrow> nat \<Rightarrow> nat \<Rightarrow> 'a list option" where
  "memcpy_loop f dst src i 0 = Some dst"
| "memcpy_loop f dst src i (Suc k) =
    (if i < length dst \<and> i < length src
     then memcpy_loop f (dst[i := f (src ! i)]) src (Suc i) k else None)"

definition memcpy_swap32 :: "u32 list \<Rightarrow> u32 list \<Rightarrow> nat \<Rightarrow> u32 list option" where
  "memcpy_swap32 dst src n = memcpy_loop swap32 dst src 0 n"

definition memcpy_swap64 :: "u64 list \<Rightarrow> u64 list \<Rightarrow> nat \<Rightarrow> u64 list option" where
  "memcpy_swap64 dst src n = memcpy_loop swap64 dst src 0 n"

section \<open>Double-word multiplication\<close>

lemma unat_hi_dword [word_nat]: "unat (hi_dword v) = unat v div 4294967296"
  by (simp add: hi_dword_def unat_drop_bit)

lemma lo_dword_take: "lo_dword v = take_bit 32 v"
proof -
  have "(0xFFFFFFFF :: u64) = mask 32"
    by (simp add: mask_eq_exp_minus_1)
  then show ?thesis by (simp add: lo_dword_def take_bit_eq_mask)
qed

lemma unat_lo_dword [word_nat]: "unat (lo_dword v) = unat v mod 4294967296"
  by (simp add: lo_dword_take take_bit_eq_mod unat_mod_distrib)

lemma dword_split:
  "unat v = unat (hi_dword v) * 4294967296 + unat (lo_dword v)"
  by (simp add: unat_hi_dword unat_lo_dword)

lemma hi_dword_lt [simp]: "unat (hi_dword v) < 4294967296"
  using unat_lt_64 [of v] by (simp add: unat_hi_dword less_mult_imp_div_less)

lemma lo_dword_lt [simp]: "unat (lo_dword v) < 4294967296"
  by (simp add: unat_lo_dword)

lemma dword_product_lt:
  assumes "a < (4294967296::nat)" "b < 4294967296"
  shows "a * b \<le> 18446744065119617025"
proof -
  have "a * b \<le> 4294967295 * 4294967295"
    using assms by (intro mult_le_mono) auto
  then show ?thesis by simp
qed

lemma unat_dword_times:
  assumes "unat a < 4294967296" "unat b < 4294967296"
  shows "unat (a * b :: u64) = unat a * unat b"
proof (rule unat_times_small)
  show "unat a * unat b < 2 ^ LENGTH(64)"
    using dword_product_lt [OF assms] by simp
qed

text \<open>The schoolbook identity on natural numbers, with the carries as quotients.\<close>

lemma schoolbook_sum:
  fixes a b c d :: nat
  assumes "k * 18446744073709551616 + s = a * d + b * c"
    and "u * 18446744073709551616 + t = s * 4294967296"
    and "q * 18446744073709551616 + r = b * d + t"
  shows "(a * c + u + k * 4294967296 + q) * 18446744073709551616 + r
         = (a * 4294967296 + b) * (c * 4294967296 + d)"
proof -
  have "(a * 4294967296 + b) * (c * 4294967296 + d)
          = a * c * 18446744073709551616 + (a * d + b * c) * 4294967296 + b * d"
    by (simp add: algebra_simps)
  then show ?thesis
    using assms by (simp add: algebra_simps)
qed

lemma schoolbook_mul:
  fixes a b c d :: nat
  defines "m \<equiv> a * d + b * c"
  defines "s \<equiv> m mod 18446744073709551616" and "k \<equiv> m div 18446744073709551616"
  defines "p \<equiv> b * d + s * 4294967296 mod 18446744073709551616"
  shows "(a * c + s div 4294967296 + k * 4294967296 + p div 18446744073709551616)
            * 18446744073709551616 + p mod 18446744073709551616
         = (a * 4294967296 + b) * (c * 4294967296 + d)"
proof (rule schoolbook_sum)
  show "k * 18446744073709551616 + s = a * d + b * c"
    by (simp add: k_def s_def m_def)
  have "s * 4294967296 mod (4294967296 * 4294967296) = (s mod 4294967296) * 4294967296"
    by (rule mod_mult_mult2)
  then have "s * 4294967296 mod 18446744073709551616 = (s mod 4294967296) * 4294967296"
    by simp
  moreover have "s div 4294967296 * 4294967296 + s mod 4294967296 = s"
    by simp
  ultimately show "s div 4294967296 * 18446744073709551616
      + s * 4294967296 mod 18446744073709551616 = s * 4294967296"
    by linarith
  show "p div 18446744073709551616 * 18446744073709551616 + p mod 18446744073709551616
      = b * d + s * 4294967296 mod 18446744073709551616"
    by (simp add: p_def)
qed

lemma carry_div:
  fixes x y :: u64
  shows "(if x + y < x then 1 else 0) = (unat x + unat y) div 18446744073709551616"
proof -
  have "unat x + unat y < 2 * 18446744073709551616"
    using unat_lt_64 [of x] unat_lt_64 [of y] by linarith
  then have "(unat x + unat y) div 18446744073709551616
      = (if unat x + unat y < 18446744073709551616 then 0 else 1)"
    by (simp add: div_nat_eqI)
  moreover have "unat (x + y) = (if unat x + unat y < 18446744073709551616
      then unat x + unat y else unat x + unat y - 18446744073709551616)"
    using \<open>unat x + unat y < 2 * 18446744073709551616\<close>
    by (simp add: unat_word_ariths mod_if)
  ultimately show ?thesis
    using unat_lt_64 [of y] by (auto simp: word_less_unat)
qed

lemma mul128_nat:
  assumes "mul128 x y = (lo, hi)"
  shows "unat hi * 18446744073709551616 + unat lo = unat x * unat y"
proof -
  define a b c d where
    "a = hi_dword x" and "b = lo_dword x" and "c = hi_dword y" and "d = lo_dword y"
  note defs = a_def b_def c_def d_def
  have lt: "unat a < 4294967296" "unat b < 4294967296" "unat c < 4294967296" "unat d < 4294967296"
    by (simp_all add: defs)
  have ac: "unat (a * c) = unat a * unat c" and ad: "unat (a * d) = unat a * unat d"
    and bc: "unat (b * c) = unat b * unat c" and bd: "unat (b * d) = unat b * unat d"
    using lt by (simp_all add: unat_dword_times)
  define m where "m = unat a * unat d + unat b * unat c"
  define s where "s = a * d + b * c"
  have s: "unat s = m mod 18446744073709551616"
    by (simp add: s_def m_def unat_add64 ad bc)
  define p where "p = unat b * unat d + unat s * 4294967296 mod 18446744073709551616"
  have sh: "unat (push_bit 32 s) = unat s * 4294967296 mod 18446744073709551616"
    by (simp add: unat_push_bit_mod)
  have lo: "unat (b * d + push_bit 32 s) = p mod 18446744073709551616"
    by (simp add: unat_add64 bd sh p_def)
  define k where "k = m div 18446744073709551616"
  define l where "l = p div 18446744073709551616"
  have k: "(if s < a * d then 1 else 0 :: nat) = k"
    using carry_div [of "a * d" "b * c"] by (simp add: s_def k_def m_def ad bc)
  have l: "(if b * d + push_bit 32 s < b * d then 1 else 0 :: nat) = l"
    using carry_div [of "b * d" "push_bit 32 s"] by (simp add: l_def p_def bd sh)
  define h where "h = unat a * unat c + unat s div 4294967296 + k * 4294967296 + l"
  have total: "h * 18446744073709551616 + p mod 18446744073709551616 = unat x * unat y"
    unfolding h_def p_def l_def k_def s m_def
    unfolding schoolbook_mul dword_split [of x] dword_split [of y] defs ..
  have "unat x * unat y < 18446744073709551616 * 18446744073709551616"
    using unat_lt_64 [of x] unat_lt_64 [of y] by (intro mult_strict_mono) auto
  then have h: "h < 18446744073709551616"
    unfolding total [symmetric]
    by (rule contrapos_pp) (simp add: not_less add_increasing2 flip: mult_le_cancel2)
  define kw lw :: u64 where
    "kw = (if s < a * d then 1 else 0)" and
    "lw = (if b * d + push_bit 32 s < b * d then 1 else 0)"
  have kw: "unat (push_bit 32 kw) = k * 4294967296"
    unfolding kw_def k [symmetric] by (simp add: unat_push_bit_mod)
  have lw: "unat lw = l"
    unfolding lw_def l [symmetric] by simp
  have "unat (a * c + drop_bit 32 s + push_bit 32 kw + lw) = h mod 18446744073709551616"
    by (simp add: unat_add64 ac kw lw unat_drop_bit h_def mod_add_left_eq)
  then have hi: "unat (a * c + drop_bit 32 s + push_bit 32 kw + lw) = h"
    using h by simp
  have "lo = b * d + push_bit 32 s" "hi = a * c + drop_bit 32 s + push_bit 32 kw + lw"
    using assms unfolding mul128_def Let_def defs s_def kw_def lw_def by auto
  then show ?thesis
    by (simp only: hi lo total)
qed

section \<open>Long division\<close>

lemma or_shifted:
  assumes "unat (x :: u64) < 4294967296" "unat y < 4294967296"
  shows "unat (x OR push_bit 32 y) = unat y * 4294967296 + unat x"
proof -
  have p: "(2::nat) ^ 32 = 4294967296" "(2::nat) ^ LENGTH(64) = 18446744073709551616"
    by (simp_all add: len_num1 len_num0)
  have "unat x + unat y * 4294967296 < 18446744073709551616"
    using assms by linarith
  from unat_or_push_bit [of x 32 y, unfolded p, OF assms(1) this] show ?thesis
    by linarith
qed

lemma div_with_reminder_nat:
  assumes "divisor \<noteq> 0" "unat digit < 4294967296" "unat r < unat divisor"
  obtains q r' where "div_with_reminder digit divisor r = Some (q, r')"
    "unat q * unat divisor + unat r' = unat r * 4294967296 + unat digit"
    "unat r' < unat divisor" "unat q < 4294967296"
proof -
  let ?n = "unat r * 4294967296 + unat digit"
  have u: "unat (ucast r :: u64) = unat r" "unat (ucast divisor :: u64) = unat divisor"
    by (simp_all add: unat_ucast_up)
  define w where "w = digit OR push_bit 32 (ucast r :: u64)"
  have w: "unat w = ?n"
    unfolding w_def using assms u unat_lt_32 [of r] by (simp add: or_shifted)
  define q where "q = w div ucast divisor"
  define r' :: u32 where "r' = ucast (w mod ucast divisor)"
  have q: "unat q = ?n div unat divisor"
    by (simp add: q_def unat_div_distrib w u)
  have pos: "0 < unat divisor"
    using assms(1) by (simp add: unat_gt_0)
  have "unat (w mod ucast divisor) < unat divisor"
    using pos by (simp add: unat_mod_distrib w u)
  then have r': "unat r' = ?n mod unat divisor"
    using unat_lt_32 [of divisor]
    by (simp add: r'_def unat_ucast_mod unat_mod_distrib w u)
  have "?n < Suc (unat r) * 4294967296"
    using assms(2) by simp
  also have "\<dots> \<le> unat divisor * 4294967296"
    using assms(3) by (intro mult_le_mono1) simp
  finally have bound: "?n div unat divisor < 4294967296"
    by (simp add: less_mult_imp_div_less mult.commute)
  show ?thesis
  proof
    show "div_with_reminder digit divisor r = Some (q, r')"
      using assms(1) by (simp add: div_with_reminder_def q_def r'_def w_def Let_def)
    show "unat q * unat divisor + unat r' = ?n"
      by (simp add: q r')
    show "unat r' < unat divisor" using pos by (simp add: r')
    show "unat q < 4294967296" using bound by (simp add: q)
  qed
qed

lemma pack_dwords:
  assumes "unat h < 4294967296" "unat l < 4294967296"
  shows "unat (push_bit 32 h OR l :: u64) = unat h * 4294967296 + unat l"
  using or_shifted [OF assms(2,1)] by (simp add: or.commute)

lemma div128_32_nat:
  assumes "divisor \<noteq> 0"
  obtains qh ql r where "div128_32 hi lo divisor = Some (qh, ql, r)"
    "(unat qh * 18446744073709551616 + unat ql) * unat divisor + unat r
       = unat hi * 18446744073709551616 + unat lo"
    "unat r < unat divisor"
proof -
  have pos: "unat (0 :: u32) < unat divisor"
    using assms by (simp add: unat_gt_0)
  obtain q3 r3 where d3: "div_with_reminder (hi_dword hi) divisor 0 = Some (q3, r3)"
    "unat q3 * unat divisor + unat r3 = unat (hi_dword hi)" "unat r3 < unat divisor"
    "unat q3 < 4294967296"
    using div_with_reminder_nat [OF assms hi_dword_lt pos] by (metis add_0 mult_0 unat_0)
  obtain q2 r2 where d2: "div_with_reminder (lo_dword hi) divisor r3 = Some (q2, r2)"
    "unat q2 * unat divisor + unat r2 = unat r3 * 4294967296 + unat (lo_dword hi)"
    "unat r2 < unat divisor" "unat q2 < 4294967296"
    using div_with_reminder_nat [OF assms lo_dword_lt d3(3)] by metis
  obtain q1 r1 where d1: "div_with_reminder (hi_dword lo) divisor r2 = Some (q1, r1)"
    "unat q1 * unat divisor + unat r1 = unat r2 * 4294967296 + unat (hi_dword lo)"
    "unat r1 < unat divisor" "unat q1 < 4294967296"
    using div_with_reminder_nat [OF assms hi_dword_lt d2(3)] by metis
  obtain q0 r0 where d0: "div_with_reminder (lo_dword lo) divisor r1 = Some (q0, r0)"
    "unat q0 * unat divisor + unat r0 = unat r1 * 4294967296 + unat (lo_dword lo)"
    "unat r0 < unat divisor" "unat q0 < 4294967296"
    using div_with_reminder_nat [OF assms lo_dword_lt d1(3)] by metis
  show ?thesis
  proof
    show "div128_32 hi lo divisor = Some (push_bit 32 q3 OR q2, push_bit 32 q1 OR q0, r0)"
      by (simp add: div128_32_def d3(1) d2(1) d1(1) d0(1))
    have "unat hi = unat (hi_dword hi) * 4294967296 + unat (lo_dword hi)"
      "unat lo = unat (hi_dword lo) * 4294967296 + unat (lo_dword lo)"
      by (rule dword_split)+
    then show "(unat (push_bit 32 q3 OR q2) * 18446744073709551616 + unat (push_bit 32 q1 OR q0))
        * unat divisor + unat r0 = unat hi * 18446744073709551616 + unat lo"
      using d3(2) d2(2) d1(2) d0(2) d3(4) d2(4) d1(4) d0(4)
      by (simp add: pack_dwords algebra_simps)
    show "unat r0 < unat divisor" by (rule d0(3))
  qed
qed

section \<open>Rotation and byte swapping\<close>

lemma rol_masks:
  assumes "m = 2 ^ b" 
  shows "nat (r AND (int m - 1)) = nat (r mod int m)"
    "nat ((- r) AND (int m - 1)) = (if r mod int m = 0 then 0 else m - nat (r mod int m))"
proof -
  have m: "int m - 1 = mask b" using assms by (simp add: mask_eq_exp_minus_1)
  have *: "k AND (int m - 1) = k mod int m" for k
    unfolding m by (simp add: take_bit_eq_mod assms flip: take_bit_eq_mask)
  show "nat (r AND (int m - 1)) = nat (r mod int m)" by (simp only: *)
  have "(- r) mod int m = (if r mod int m = 0 then 0 else int m - r mod int m)"
    by (rule zmod_zminus1_eq_if)
  then show "nat ((- r) AND (int m - 1)) = (if r mod int m = 0 then 0 else m - nat (r mod int m))"
    unfolding * using assms by (auto simp: nat_diff_distrib' nat_power_eq)
qed

lemma rol64_rotl: "rol64 x r = word_rotl (nat (r mod 64)) x"
proof (cases "r mod 64 = 0")
  case True
  then show ?thesis using rol_masks [of 64 6 r] by (simp add: rol64_def rotl_zero)
next
  case False
  then have "0 < nat (r mod 64)" "nat (r mod 64) < LENGTH(64)"
    by (auto intro: order.strict_trans1 simp: order.order_iff_strict)
  then show ?thesis
    using rol_masks [of 64 6 r] rotl_shifts [of "nat (r mod 64)" x] False by (simp add: rol64_def)
qed

lemma rol32_rotl: "rol32 x r = word_rotl (nat (r mod 32)) x"
proof (cases "r mod 32 = 0")
  case True
  then show ?thesis using rol_masks [of 32 5 r] by (simp add: rol32_def rotl_zero)
next
  case False
  then have "0 < nat (r mod 32)" "nat (r mod 32) < LENGTH(32)"
    by (auto intro: order.strict_trans1 simp: order.order_iff_strict)
  then show ?thesis
    using rol_masks [of 32 5 r] rotl_shifts [of "nat (r mod 32)" x] False by (simp add: rol32_def)
qed

lemma SWAP32_swap32: "SWAP32 x = swap32 x"
  unfolding SWAP32_def swap32_def Let_def
  by (rule u32_bit_eqI) (simp add: bit_simps)

lemma SWAP64_swap64: "SWAP64 x = swap64 x"
  unfolding SWAP64_def swap64_def Let_def
  by (rule u64_bit_eqI) (simp add: bit_simps)

lemma swap32_swap32: "swap32 (swap32 x) = x"
  unfolding swap32_def Let_def
  by (rule u32_bit_eqI) (simp add: bit_simps)

lemma swap64_swap64: "swap64 (swap64 x) = x"
  unfolding swap64_def Let_def
  by (rule u64_bit_eqI) (simp add: bit_simps)

section \<open>Array loops\<close>

lemma mem_inplace_loop_eq:
  "i + k \<le> length mem \<Longrightarrow>
   mem_inplace_loop f mem i k = Some (take i mem @ map f (take k (drop i mem)) @ drop (i + k) mem)"
proof (induction k arbitrary: mem i)
  case 0
  then show ?case by simp
next
  case (Suc k)
  then have "i < length mem" by simp
  have "take (Suc k) (drop i mem) = mem ! i # take k (drop (Suc i) mem)"
    using \<open>i < length mem\<close> by (simp add: Cons_nth_drop_Suc [symmetric])
  with Suc \<open>i < length mem\<close> show ?case
    by (simp add: take_Suc_conv_app_nth drop_update_cancel)
qed

lemma mem_inplace_loop_None:
  "length mem < i + k \<Longrightarrow> i \<le> length mem \<Longrightarrow> mem_inplace_loop f mem i k = None"
  by (induction k arbitrary: mem i) auto

lemma memcpy_loop_eq:
  "i + k \<le> length dst \<Longrightarrow> i + k \<le> length src \<Longrightarrow>
   memcpy_loop f dst src i k = Some (take i dst @ map f (take k (drop i src)) @ drop (i + k) dst)"
proof (induction k arbitrary: dst i)
  case 0
  then show ?case by simp
next
  case (Suc k)
  then have i: "i < length dst" "i < length src" by simp_all
  have "take (Suc k) (drop i src) = src ! i # take k (drop (Suc i) src)"
    using i by (simp add: Cons_nth_drop_Suc [symmetric])
  with Suc i show ?case
    by (simp add: take_Suc_conv_app_nth drop_update_cancel)
qed

section \<open>Properties\<close>

text \<open>C28. The schoolbook multiplication \<open>mul128\<close> returns the exact 128-bit product of its
  two 64-bit operands: the high and the low word together are the product of the operands as
  natural numbers, for every pair of operands.\<close>

theorem mul128_exact_product:
  "case mul128 multiplier multiplicand of (lo, hi) \<Rightarrow>
     unat hi * 2 ^ 64 + unat lo = unat multiplier * unat multiplicand"
  using mul128_nat by (auto split: prod.split)

text \<open>For a divisor different from zero the long division \<open>div128_32\<close> returns, and its result
  is the quotient and the remainder of the 128-bit dividend by the 32-bit divisor; for the divisor
  zero it divides by zero.\<close>

lemma div128_32_quotient_remainder:
  "if divisor = 0 then div128_32 hi lo divisor = None
   else \<exists>qh ql r. div128_32 hi lo divisor = Some (qh, ql, r) \<and>
     unat qh * 2 ^ 64 + unat ql = (unat hi * 2 ^ 64 + unat lo) div unat divisor \<and>
     unat r = (unat hi * 2 ^ 64 + unat lo) mod unat divisor"
proof (cases "divisor = 0")
  case True
  then show ?thesis by (simp add: div128_32_def div_with_reminder_def)
next
  case False
  then obtain qh ql r where *: "div128_32 hi lo divisor = Some (qh, ql, r)"
    "(unat qh * 18446744073709551616 + unat ql) * unat divisor + unat r
       = unat hi * 18446744073709551616 + unat lo" "unat r < unat divisor"
    by (rule div128_32_nat)
  from quotient_remainder_nat [OF *(2,3)] *(1) False show ?thesis
    by (simp only: two_64 if_False) blast
qed

text \<open>The rotations of \<open>int_util.h\<close>, computed with two shifts of the masked rotation count,
  are the rotations of the word library for every count, negative ones included; the macros
  and the functions that swap the byte order agree and swapping twice is the identity.\<close>

lemma rotate_and_swap_correct:
  "rol32 x r = word_rotl (nat (r mod 32)) x \<and> rol64 y r = word_rotl (nat (r mod 64)) y \<and>
   SWAP32 x = swap32 x \<and> SWAP64 y = swap64 y \<and>
   swap32 (swap32 x) = x \<and> swap64 (swap64 y) = y"
  by (simp only: rol32_rotl rol64_rotl SWAP32_swap32 SWAP64_swap64 swap32_swap32
      swap64_swap64)

end
