(* ===== verification/Streams.thy ===== *)
theory Streams
  imports Prelude
begin

text \<open>Byte streams: the in-memory input streams of \<open>src/src/common/memory_input_stream.cpp\<close> and
  \<open>string_input_stream.cpp\<close>, the appending output streams of \<open>string_output_stream.cpp\<close> and
  \<open>vector_output_stream.cpp\<close>, and the read and write loops of \<open>stream_tools.cpp\<close> over them.

  The interface \<open>IInputStream\<close> is the locale \<open>input_stream\<close>; both in-memory streams interpret
  it, and its lemma \<open>read_refines\<close> shows that the read loop over such a stream is \<open>read_bytes\<close> on
  the list of the bytes that remain. The readers of the other theories are therefore written
  over that list. An integer is read and written in its memory representation, which is little
  endian on the supported platforms (the source has a TODO for the others).\<close>

section \<open>Definitions\<close>

subsection \<open>Input streams\<close>

datatype stream_error = ReadFailed | WriteFailed | ValueOverflow | InvalidRepresentation

record MemoryInputStream =
  mis_buffer :: bytes
  mis_position :: nat

definition MemoryInputStream_init :: "bytes \<Rightarrow> MemoryInputStream" where
  "MemoryInputStream_init buffer = \<lparr> mis_buffer = buffer, mis_position = 0 \<rparr>"

definition MemoryInputStream_endOfStream :: "MemoryInputStream \<Rightarrow> bool" where
  "MemoryInputStream_endOfStream s \<longleftrightarrow> mis_position s = length (mis_buffer s)"

definition MemoryInputStream_readSome :: "MemoryInputStream \<Rightarrow> nat \<Rightarrow> bytes \<times> MemoryInputStream" where
  "MemoryInputStream_readSome s sz =
     (let readSize = min sz (length (mis_buffer s) - mis_position s) in
      if readSize > 0
      then (take readSize (drop (mis_position s) (mis_buffer s)),
            s \<lparr> mis_position := mis_position s + readSize \<rparr>)
      else ([], s))"

record StringInputStream =
  sis_in :: bytes
  sis_offset :: nat

definition StringInputStream_init :: "bytes \<Rightarrow> StringInputStream" where
  "StringInputStream_init i = \<lparr> sis_in = i, sis_offset = 0 \<rparr>"

definition StringInputStream_readSome :: "StringInputStream \<Rightarrow> nat \<Rightarrow> bytes \<times> StringInputStream" where
  "StringInputStream_readSome s sz0 =
     (let sz = (if sz0 > length (sis_in s) - sis_offset s
                  then length (sis_in s) - sis_offset s else sz0) in
      (take sz (drop (sis_offset s) (sis_in s)), s \<lparr> sis_offset := sis_offset s + sz \<rparr>))"

text \<open>The loop of \<open>read\<close>: the bytes that \<open>readSome\<close> has put into the caller's buffer are
  returned in order; reading nothing throws.\<close>

function stream_read ::
  "('s \<Rightarrow> nat \<Rightarrow> bytes \<times> 's) \<Rightarrow> 's \<Rightarrow> nat \<Rightarrow> stream_error + (bytes \<times> 's)" where
  "stream_read readSome s sz =
     (if sz > 0 then
        (case readSome s sz of (d, s') \<Rightarrow>
           if length d = 0 then Inl ReadFailed
           else bindE (stream_read readSome s' (sz - length d)) (\<lambda>(ds, t). Inr (d @ ds, t)))
      else Inr ([], s))"
  by pat_completeness auto
termination
  by (relation "measure (\<lambda>(_, _, sz). sz)") auto

declare stream_read.simps [simp del]

subsection \<open>Output streams\<close>

definition StringOutputStream_writeSome :: "bytes \<Rightarrow> bytes \<Rightarrow> nat \<times> bytes" where
  "StringOutputStream_writeSome out d = (length d, out @ d)"

definition VectorOutputStream_writeSome :: "bytes \<Rightarrow> bytes \<Rightarrow> nat \<times> bytes" where
  "VectorOutputStream_writeSome out d = (length d, out @ d)"

function stream_write ::
  "('s \<Rightarrow> bytes \<Rightarrow> nat \<times> 's) \<Rightarrow> 's \<Rightarrow> bytes \<Rightarrow> stream_error + 's" where
  "stream_write writeSome s d =
     (if length d > 0 then
        (case writeSome s d of (writtenSize, s') \<Rightarrow>
           if writtenSize = 0 then Inl WriteFailed
           else stream_write writeSome s' (drop writtenSize d))
      else Inr s)"
  by pat_completeness auto
termination
  by (relation "measure (\<lambda>(_, _, d). length d)") auto

declare stream_write.simps [simp del]

subsection \<open>Reading and writing over the remaining bytes\<close>

definition read_bytes :: "nat \<Rightarrow> bytes \<Rightarrow> stream_error + (bytes \<times> bytes)" where
  "read_bytes sz i =
     (if sz \<le> length i then Inr (take sz i, drop sz i) else Inl ReadFailed)"

text \<open>The memory representation of an integer of \<open>n\<close> bytes.\<close>

definition le_encode :: "nat \<Rightarrow> 'a::len word \<Rightarrow> bytes" where
  "le_encode n x = map (\<lambda>i. ucast (drop_bit (8 * i) x)) [0..<n]"

primrec le_decode :: "bytes \<Rightarrow> 'a::len word" where
  "le_decode [] = 0"
| "le_decode (b # bs) = ucast b OR push_bit 8 (le_decode bs)"

definition read_uint8 :: "bytes \<Rightarrow> stream_error + (byte \<times> bytes)" where
  "read_uint8 i = bindE (read_bytes 1 i) (\<lambda>(d, i'). Inr (le_decode d, i'))"

definition read_uint16 :: "bytes \<Rightarrow> stream_error + (u16 \<times> bytes)" where
  "read_uint16 i = bindE (read_bytes 2 i) (\<lambda>(d, i'). Inr (le_decode d, i'))"

definition read_uint32 :: "bytes \<Rightarrow> stream_error + (u32 \<times> bytes)" where
  "read_uint32 i = bindE (read_bytes 4 i) (\<lambda>(d, i'). Inr (le_decode d, i'))"

definition read_uint64 :: "bytes \<Rightarrow> stream_error + (u64 \<times> bytes)" where
  "read_uint64 i = bindE (read_bytes 8 i) (\<lambda>(d, i'). Inr (le_decode d, i'))"

definition write_uint8 :: "byte \<Rightarrow> bytes" where
  "write_uint8 v = le_encode 1 v"

definition write_uint16 :: "u16 \<Rightarrow> bytes" where
  "write_uint16 v = le_encode 2 v"

definition write_uint32 :: "u32 \<Rightarrow> bytes" where
  "write_uint32 v = le_encode 4 v"

definition write_uint64 :: "u64 \<Rightarrow> bytes" where
  "write_uint64 v = le_encode 8 v"

section \<open>The stream interface\<close>

text \<open>What a reader relies on: \<open>readSome\<close> delivers a prefix of what remains, no longer than asked
  for, and delivers nothing only when nothing was asked for or nothing remains.\<close>

locale input_stream =
  fixes readSome :: "'s \<Rightarrow> nat \<Rightarrow> bytes \<times> 's"
    and valid :: "'s \<Rightarrow> bool"
    and remaining :: "'s \<Rightarrow> bytes"
  assumes some_prefix: "valid s \<Longrightarrow> readSome s n = (d, s') \<Longrightarrow> remaining s = d @ remaining s'"
    and some_length: "valid s \<Longrightarrow> readSome s n = (d, s') \<Longrightarrow> length d \<le> n"
    and some_valid: "valid s \<Longrightarrow> readSome s n = (d, s') \<Longrightarrow> valid s'"
    and some_progress: "valid s \<Longrightarrow> readSome s n = ([], s') \<Longrightarrow> n = 0 \<or> remaining s = []"
begin

lemma read_ok:
  "valid s \<Longrightarrow> n \<le> length (remaining s) \<Longrightarrow>
   \<exists>s'. stream_read readSome s n = Inr (take n (remaining s), s') \<and> valid s' \<and>
        remaining s' = drop n (remaining s)"
proof (induction n arbitrary: s rule: less_induct)
  case (less n)
  show ?case
  proof (cases "n = 0")
    case True
    with less.prems show ?thesis by (simp add: stream_read.simps)
  next
    case False
    obtain d t where dt: "readSome s n = (d, t)" by (cases "readSome s n")
    note p = some_prefix [OF less.prems(1) dt] and l = some_length [OF less.prems(1) dt]
    have d: "length d > 0"
      using some_progress [OF less.prems(1)] dt False less.prems(2) by fastforce
    have "n - length d < n" "n - length d \<le> length (remaining t)"
      using d False less.prems(2) p by auto
    from less.IH [OF this(1) some_valid [OF less.prems(1) dt] this(2)]
    obtain s' where "stream_read readSome t (n - length d) = Inr (take (n - length d) (remaining t), s')"
      "valid s'" "remaining s' = drop (n - length d) (remaining t)" by blast
    then show ?thesis
      using d l p dt False [folded neq0_conv] by (subst stream_read.simps) (cases n; simp)
  qed
qed

lemma read_short:
  "valid s \<Longrightarrow> length (remaining s) < n \<Longrightarrow> stream_read readSome s n = Inl ReadFailed"
proof (induction n arbitrary: s rule: less_induct)
  case (less n)
  obtain d t where dt: "readSome s n = (d, t)" by (cases "readSome s n")
  note p = some_prefix [OF less.prems(1) dt] and l = some_length [OF less.prems(1) dt]
  show ?case
  proof (cases "length d = 0")
    case True
    with dt less.prems show ?thesis by (subst stream_read.simps) simp
  next
    case False
    have "n - length d < n" "length (remaining t) < n - length d"
      using False less.prems(2) p l by auto
    from less.IH [OF this(1) some_valid [OF less.prems(1) dt] this(2)]
    show ?thesis
      using False dt less.prems(2) by (subst stream_read.simps) simp
  qed
qed

lemma read_refines:
  assumes "valid s"
  shows "map_sum id (\<lambda>(d, s'). (d, remaining s')) (stream_read readSome s n)
       = read_bytes n (remaining s)"
  using read_ok [OF assms, of n] read_short [OF assms, of n]
  by (cases "n \<le> length (remaining s)") (auto simp: read_bytes_def)

end

lemma take_append_drop_add:
  "take n (drop p b) @ drop (p + n) b = drop p b"
  by (metis add.commute append_take_drop_id drop_drop)

interpretation mem_stream: input_stream MemoryInputStream_readSome
  "\<lambda>s. mis_position s \<le> length (mis_buffer s)" "\<lambda>s. drop (mis_position s) (mis_buffer s)"
  by unfold_locales
    (auto simp: MemoryInputStream_readSome_def Let_def min_def take_append_drop_add
      split: if_splits)

interpretation str_stream: input_stream StringInputStream_readSome
  "\<lambda>s. sis_offset s \<le> length (sis_in s)" "\<lambda>s. drop (sis_offset s) (sis_in s)"
  by unfold_locales
    (auto simp: StringInputStream_readSome_def Let_def take_append_drop_add
      split: if_splits)

text \<open>The output side: a stream that accepts whatever it is given appends it.\<close>

lemma string_write_appends: "stream_write StringOutputStream_writeSome out d = Inr (out @ d)"
  by (cases "d = []") (simp_all add: stream_write.simps StringOutputStream_writeSome_def)

lemma vector_write_appends: "stream_write VectorOutputStream_writeSome out d = Inr (out @ d)"
  by (cases "d = []") (simp_all add: stream_write.simps VectorOutputStream_writeSome_def)

section \<open>Integers in memory representation\<close>

lemma read_bytes_append [codec_simps]:
  "length d = n \<Longrightarrow> read_bytes n (d @ r) = Inr (d, r)"
  by (simp add: read_bytes_def)

lemma read_bytes_Inr:
  "read_bytes n i = Inr (d, r) \<longleftrightarrow> i = d @ r \<and> length d = n"
  by (auto simp: read_bytes_def)

lemma length_le_encode [simp]: "length (le_encode n x) = n"
  by (simp add: le_encode_def)

lemma le_encode_Suc:
  "le_encode (Suc n) x = ucast x # le_encode n (drop_bit 8 x)"
  by (simp add: le_encode_def upt_conv_Cons map_Suc_upt [symmetric] comp_def add.commute
      del: upt_Suc)

lemma le_decode_encode:
  "le_decode (le_encode n x) = take_bit (8 * n) (x :: 'a::len word)"
proof (induction n arbitrary: x)
  case 0
  then show ?case by (simp add: le_encode_def)
next
  case (Suc n)
  have "ucast (ucast x :: byte) = take_bit 8 x"
    by (rule bit_word_eqI) (auto simp: bit_simps)
  then show ?case
    by (auto intro!: bit_word_eqI simp: le_encode_Suc Suc bit_simps)
qed

lemma le_decode_high_bits:
  "8 * length d \<le> k \<Longrightarrow> \<not> bit (le_decode d :: 'a::len word) k"
  by (induction d arbitrary: k) (auto simp: bit_simps dest: bit_imp_le_length)

lemma le_encode_decode:
  assumes "8 * length d \<le> LENGTH('a)"
  shows "le_encode (length d) (le_decode d :: 'a::len word) = d"
  using assms
proof (induction d)
  case Nil
  then show ?case by (simp add: le_encode_def)
next
  case (Cons b d)
  have 1: "ucast (ucast b OR push_bit 8 (le_decode d) :: 'a word) = b"
    using Cons.prems by (intro bit_word_eqI) (auto simp: bit_simps)
  have 2: "drop_bit 8 (ucast b OR push_bit 8 (le_decode d) :: 'a word) = le_decode d"
  proof (rule bit_word_eqI)
    fix n assume "n < LENGTH('a)"
    show "bit (drop_bit 8 (ucast b OR push_bit 8 (le_decode d) :: 'a word)) n = bit (le_decode d :: 'a word) n"
      using Cons.prems le_decode_high_bits [of d n, where 'a = 'a]
      by (cases "8 + n < LENGTH('a)") (auto simp: bit_simps dest: bit_imp_le_length)
  qed
  show ?case
    using Cons by (simp add: le_encode_Suc 1 2 del: drop_bit_or)
qed

lemma le_encode_decode_length:
  "length d = n \<Longrightarrow> 8 * n \<le> LENGTH('a) \<Longrightarrow> le_encode n (le_decode d :: 'a::len word) = d"
  using le_encode_decode by blast

text \<open>The fixed-size codecs: what is written is read back, and what is read is what was written.\<close>

lemma le_decode_inverse:
  "LENGTH('a) = 8 * n \<Longrightarrow> le_decode (le_encode n x) = (x :: 'a::len word)"
  by (metis le_decode_encode take_bit_length_eq)

lemma uint_roundtrip [codec_simps]:
  "read_uint8 (write_uint8 a @ r) = Inr (a, r)"
  "read_uint16 (write_uint16 b @ r) = Inr (b, r)"
  "read_uint32 (write_uint32 c @ r) = Inr (c, r)"
  "read_uint64 (write_uint64 d @ r) = Inr (d, r)"
  by (simp_all add: read_uint8_def write_uint8_def read_uint16_def write_uint16_def
      read_uint32_def write_uint32_def read_uint64_def write_uint64_def read_bytes_append
      le_decode_inverse)

lemma uint_canonical:
  "read_uint8 i = Inr (a, r) \<Longrightarrow> i = write_uint8 a @ r"
  "read_uint16 i = Inr (b, r) \<Longrightarrow> i = write_uint16 b @ r"
  "read_uint32 i = Inr (c, r) \<Longrightarrow> i = write_uint32 c @ r"
  "read_uint64 i = Inr (d, r) \<Longrightarrow> i = write_uint64 d @ r"
  by (auto simp: read_uint8_def write_uint8_def read_uint16_def write_uint16_def
      read_uint32_def write_uint32_def read_uint64_def write_uint64_def read_bytes_Inr
      bindE_eq_Inr le_encode_decode_length)

section \<open>Properties\<close>

text \<open>Reading \<open>n\<close> bytes through the loop of \<open>stream_tools.cpp\<close> from an in-memory stream
  delivers exactly the next \<open>n\<close> bytes of the buffer and leaves the stream at the byte after
  them; when fewer remain it throws. It holds for both in-memory streams.\<close>

lemma in_memory_read_correct:
  assumes "mis_position s \<le> length (mis_buffer s)" "sis_offset t \<le> length (sis_in t)"
  shows "map_sum id (\<lambda>(d, s'). (d, drop (mis_position s') (mis_buffer s')))
           (stream_read MemoryInputStream_readSome s n)
         = read_bytes n (drop (mis_position s) (mis_buffer s))
       \<and> map_sum id (\<lambda>(d, t'). (d, drop (sis_offset t') (sis_in t')))
           (stream_read StringInputStream_readSome t n)
         = read_bytes n (drop (sis_offset t) (sis_in t))"
  using assms by (simp only: mem_stream.read_refines str_stream.read_refines)

end
