(* ===== verification/Varint.thy ===== *)
theory Varint
  imports Streams
begin

text \<open>Variable-length integers: the header \<open>src/src/common/varint.h\<close> (used by the base58
  addresses) and \<open>readVarint\<close>/\<open>writeVarint\<close> of \<open>src/src/common/stream_tools.cpp\<close> (used by the
  binary serializers). The four overloads of \<open>readVarint\<close>, for 8, 16, 32 and 64 bits, have the
  same text up to the width of the integer, so one definition over \<open>'a word\<close> models them; so do
  the two overloads of \<open>writeVarint\<close> and the templates of the header.\<close>

section \<open>Definitions\<close>

subsection \<open>varint.h\<close>

function write_varint :: "'a::len word \<Rightarrow> bytes" where
  "write_varint i =
     (if unat i \<ge> 0x80
      then ((ucast i AND 0x7f) OR 0x80) # write_varint (drop_bit 7 i)
      else [ucast i])"
  by pat_completeness auto
termination
  by (relation "measure unat") (auto simp: unat_drop_bit)

declare write_varint.simps [simp del]

definition get_varint_data :: "'a::len word \<Rightarrow> bytes" where
  "get_varint_data v = write_varint v"

text \<open>The result of \<open>read_varint\<close>: its return value (the number of bytes read, or a negative error
  code) and the value of the reference parameter when it returns.\<close>

fun read_varint_loop :: "nat \<Rightarrow> nat \<Rightarrow> int \<Rightarrow> 'a::len word \<Rightarrow> bytes \<Rightarrow> int \<times> 'a word" where
  "read_varint_loop bits shift read i [] = (read, i)"
| "read_varint_loop bits shift read i (byte # rest) =
     (if shift + 7 \<ge> bits \<and> unat byte \<ge> 2 ^ (bits - shift) then (-1, i)
      else if byte = 0 \<and> shift \<noteq> 0 then (-2, i)
      else let i' = i OR push_bit shift (ucast (byte AND 0x7f)) in
           if byte AND 0x80 = 0 then (read + 1, i')
           else read_varint_loop bits (shift + 7) (read + 1) i' rest)"

definition read_varint :: "bytes \<Rightarrow> int \<times> 'a::len word" where
  "read_varint bs = read_varint_loop (LENGTH('a)) 0 0 0 bs"

subsection \<open>stream_tools.cpp\<close>

function writeVarint :: "'a::len word \<Rightarrow> bytes" where
  "writeVarint value =
     (if unat value \<ge> 0x80
      then write_uint8 (ucast (value OR 0x80)) @ writeVarint (drop_bit 7 value)
      else write_uint8 (ucast value))"
  by pat_completeness auto
termination
  by (relation "measure unat") (auto simp: unat_drop_bit)

declare writeVarint.simps [simp del]

fun readVarint_loop :: "nat \<Rightarrow> 'a::len word \<Rightarrow> bytes \<Rightarrow> stream_error + ('a word \<times> bytes)" where
  "readVarint_loop shift temp [] = Inl ReadFailed"
| "readVarint_loop shift temp (piece # rest) =
     (if shift \<ge> LENGTH('a) - 7 \<and> unat piece \<ge> 2 ^ (LENGTH('a) - shift) then Inl ValueOverflow
      else let temp' = temp OR push_bit shift (ucast (piece AND 0x7f)) in
           if piece AND 0x80 = 0
           then if piece = 0 \<and> shift \<noteq> 0 then Inl InvalidRepresentation else Inr (temp', rest)
           else readVarint_loop (shift + 7) temp' rest)"

definition readVarint :: "bytes \<Rightarrow> stream_error + ('a::len word \<times> bytes)" where
  "readVarint i = readVarint_loop 0 0 i"

section \<open>The encoding of a natural number\<close>

text \<open>The reference: groups of seven bits, the least significant first, a set top bit on every
  group but the last.\<close>

fun varint_nat :: "nat \<Rightarrow> bytes" where
  "varint_nat n = (if n < 128 then [of_nat n] else of_nat (n mod 128 + 128) # varint_nat (n div 128))"

declare varint_nat.simps [simp del]

lemma bit_0x80: "8 \<le> LENGTH('a) \<Longrightarrow> bit (0x80 :: 'a::len word) n \<longleftrightarrow> n = 7"
proof -
  assume "8 \<le> LENGTH('a)"
  moreover have "(0x80 :: 'a word) = 2 ^ 7" by simp
  ultimately show ?thesis by (simp only: bit_exp_iff) auto
qed

lemma bit_0x7f: "bit (0x7f :: byte) n \<longleftrightarrow> n < 7"
proof -
  have "(0x7f :: byte) = mask 7" by (simp add: mask_eq_exp_minus_1)
  then show ?thesis by (simp only: bit_mask_iff) auto
qed

lemma unat_and_0x7f: "unat (b AND 0x7f :: byte) = unat b mod 128"
proof -
  have "b AND 0x7f = take_bit 7 b"
    by (simp add: take_bit_eq_mask mask_eq_exp_minus_1)
  then show ?thesis
    by (simp only: unsigned_take_bit_eq) (simp add: take_bit_eq_mod)
qed

lemma and_0x80: "b AND 0x80 = (0 :: byte) \<longleftrightarrow> unat b < 128"
proof -
  have "b AND 2 ^ 7 = 0 \<longleftrightarrow> \<not> bit b 7"
    by (rule and_exp_eq_0_iff_not_bit)
  moreover have "bit b 7 \<longleftrightarrow> odd (unat b div 2 ^ 7)"
    by (simp only: bit_nat_def [symmetric] bit_unsigned_iff) simp
  moreover have "unat b div 128 = (if unat b < 128 then 0 else 1)"
    using unat_lt_8 [of b] by auto
  ultimately show ?thesis
    by simp
qed

lemma varint_byte_last: "n < 128 \<Longrightarrow> unat (of_nat n :: byte) = n"
  by (simp add: unat_of_nat_small)

lemma varint_byte_more: "unat (of_nat (n mod 128 + 128) :: byte) = n mod 128 + 128"
  by (rule unat_of_nat_small) simp

lemma write_varint_nat:
  assumes "8 \<le> LENGTH('a)"
  shows "write_varint i = varint_nat (unat (i :: 'a::len word))"
proof (induction i rule: write_varint.induct)
  case (1 i)
  have "(ucast i AND 0x7f) OR 0x80 = (of_nat (unat i mod 128 + 128) :: byte)"
  proof -
    have "unat (push_bit 7 1 OR (ucast i AND 0x7f) :: byte) = unat i mod 128 + 128"
      using unat_or_push_bit [of "ucast i AND 0x7f :: byte" 7 1]
      by (simp add: unat_and_0x7f unat_ucast_mod or.commute mod_mod_cancel)
    then show ?thesis
      by (simp add: word_eq_unat varint_byte_more or.commute del: of_nat_add)
  qed
  then show ?case
    using 1 by (subst write_varint.simps, subst varint_nat.simps)
      (auto simp: unat_drop_bit of_nat_unat)
qed

lemma writeVarint_write_varint:
  assumes "8 \<le> LENGTH('a)"
  shows "writeVarint i = write_varint (i :: 'a::len word)"
proof (induction i rule: write_varint.induct)
  case (1 i)
  have "ucast (i OR 0x80) = (ucast i AND 0x7f) OR (0x80 :: byte)"
  proof (rule bit_word_eqI)
    fix n assume "n < LENGTH(8)"
    then consider "n < 7" | "n = 7" by force
    then show "bit (ucast (i OR 0x80) :: byte) n = bit ((ucast i AND 0x7f) OR 0x80 :: byte) n"
      using assms bit_0x80 [of n, where 'a = 'a] bit_0x80 [of n, where 'a = 8] bit_0x7f [of n]
      by cases (auto simp: bit_or_iff bit_and_iff bit_unsigned_iff)
  qed
  moreover have "write_uint8 b = [b]" for b
    by (simp add: write_uint8_def le_encode_def)
  ultimately show ?case
    using 1 by (subst writeVarint.simps, subst write_varint.simps) simp
qed

section \<open>Reading\<close>

lemma unat_varint_step:
  assumes "8 \<le> LENGTH('a)" "unat (t :: 'a::len word) < 2 ^ shift"
    "unat t + unat b mod 128 * 2 ^ shift < 2 ^ LENGTH('a)"
  shows "unat (t OR push_bit shift (ucast (b AND 0x7f :: byte))) = unat t + unat b mod 128 * 2 ^ shift"
  using assms unat_or_push_bit [of t shift "ucast (b AND 0x7f)"]
  by (simp add: unat_ucast_up unat_and_0x7f)

text \<open>Every group of seven bits below the top of the word fits.\<close>

lemma group_fits:
  assumes "t < 2 ^ s" "b < (128 :: nat)" "s + 7 \<le> w"
  shows "t + b * 2 ^ s < 2 ^ w"
proof -
  have "t + b * 2 ^ s < 2 ^ s + 127 * 2 ^ s"
    using assms(1,2) by (intro add_less_le_mono mult_right_mono) auto
  also have "\<dots> = 2 ^ (s + 7)" by (simp add: power_add)
  also have "\<dots> \<le> 2 ^ w" using assms(3) by (intro power_increasing) auto
  finally show ?thesis .
qed

lemma readVarint_loop_write:
  assumes "8 \<le> LENGTH('a)" "unat (t :: 'a::len word) < 2 ^ shift" "shift < LENGTH('a)"
    "unat t + n * 2 ^ shift < 2 ^ LENGTH('a)" "shift = 0 \<or> n > 0"
  shows "readVarint_loop shift t (varint_nat n @ r) = Inr (of_nat (unat t + n * 2 ^ shift), r)"
  using assms(2-)
proof (induction n arbitrary: shift t rule: varint_nat.induct)
  case (1 n)
  show ?case
  proof (cases "n < 128")
    case True
    have "n < 2 ^ (LENGTH('a) - shift)"
    proof (rule ccontr)
      assume "\<not> ?thesis"
      then have "2 ^ (LENGTH('a) - shift) * 2 ^ shift \<le> n * 2 ^ shift" by simp
      with 1(3,4) show False by (simp flip: power_add)
    qed
    moreover have "t OR push_bit shift (ucast (of_nat n AND 0x7f :: byte)) = of_nat (unat t + n * 2 ^ shift)"
      using True 1(4) unat_varint_step [OF assms(1) 1(2), of "of_nat n"]
      by (intro word_of_unat) (simp add: varint_byte_last)
    moreover have "of_nat n = (0 :: byte) \<longleftrightarrow> n = 0"
      using True by (simp add: word_eq_unat varint_byte_last)
    moreover have "varint_nat n = [of_nat n]"
      using True by (subst varint_nat.simps) simp
    ultimately show ?thesis
      using True 1(5) varint_byte_last [OF True] by (auto simp add: and_0x80 Let_def simp del: of_nat_add)
  next
    case False
    define b :: byte where "b = of_nat (n mod 128 + 128)"
    have b: "unat b = n mod 128 + 128" by (simp only: b_def varint_byte_more)
    have vn: "varint_nat n = b # varint_nat (n div 128)"
      using False by (subst varint_nat.simps) (simp only: if_False b_def)
    let ?t = "t OR push_bit shift (ucast (b AND 0x7f))"
    have more: "shift + 7 < LENGTH('a)"
    proof (rule ccontr)
      assume "\<not> ?thesis"
      then have "(2 :: nat) ^ LENGTH('a) \<le> 2 ^ (shift + 7)" by (intro power_increasing) auto
      also have "\<dots> \<le> n * 2 ^ shift" using False by (simp add: power_add)
      finally show False using 1(4) by simp
    qed
    have split: "n * 2 ^ shift = n mod 128 * 2 ^ shift + n div 128 * 2 ^ (shift + 7)"
      using arg_cong [OF mod_mult_div_eq [of n 128, symmetric], of "\<lambda>k. k * 2 ^ shift"]
      by (simp only: add_mult_distrib power_add) simp
    have "unat ?t = unat t + n mod 128 * 2 ^ shift"
      using unat_varint_step [OF assms(1) 1(2), of b] 1(4) split by (simp add: b)
    moreover from this have "unat ?t < 2 ^ (shift + 7)"
      using group_fits [OF 1(2), of "n mod 128" "shift + 7"] by simp
    moreover have "n div 128 > 0" using False by (simp add: div_greater_zero_iff)
    ultimately have "readVarint_loop (shift + 7) ?t (varint_nat (n div 128) @ r)
        = Inr (of_nat (unat t + n * 2 ^ shift), r)"
      using 1(1) [OF False, of ?t "shift + 7"] 1(4) more split by (simp add: add.assoc)
    then show ?thesis
      using more b by (simp add: vn Let_def and_0x80)
  qed
qed

lemma readVarint_loop_canonical:
  assumes "8 \<le> LENGTH('a)" "unat (t :: 'a::len word) < 2 ^ shift" "shift < LENGTH('a)"
    "readVarint_loop shift t bs = Inr (v, r)"
  shows "\<exists>n. bs = varint_nat n @ r \<and> unat v = unat t + n * 2 ^ shift \<and> (shift = 0 \<or> n > 0)"
  using assms(2-)
proof (induction bs arbitrary: shift t)
  case Nil
  then show ?case by simp
next
  case (Cons b bs)
  let ?t = "t OR push_bit shift (ucast (b AND 0x7f))"
  have fit: "unat b < 2 ^ (LENGTH('a) - shift)" if "LENGTH('a) - 7 \<le> shift"
    using that Cons.prems(3) by (auto split: if_splits)
  have top: "2 ^ (LENGTH('a) - shift) \<le> (128 :: nat)" if "LENGTH('a) - 7 \<le> shift"
    using that power_increasing [of "LENGTH('a) - shift" 7 "2 :: nat"] by simp
  show ?case
  proof (cases "unat b < 128")
    case True
    have "unat t + unat b mod 128 * 2 ^ shift < 2 ^ LENGTH('a)"
    proof (cases "LENGTH('a) - 7 \<le> shift")
      case True
      then have "unat b + 1 \<le> 2 ^ (LENGTH('a) - shift)" using fit by simp
      then have "(unat b + 1) * 2 ^ shift \<le> 2 ^ (LENGTH('a) - shift) * 2 ^ shift"
        by (rule mult_right_mono) simp
      also have "\<dots> = 2 ^ LENGTH('a)" using Cons.prems(2) by (simp flip: power_add)
      finally show ?thesis using Cons.prems(1) \<open>unat b < 128\<close> by simp
    next
      case False
      then show ?thesis
        using group_fits [OF Cons.prems(1), of "unat b mod 128"] by simp
    qed
    from unat_varint_step [OF assms(1) Cons.prems(1) this] True Cons.prems(3)
    have "v = ?t" "r = bs" "unat ?t = unat t + unat b * 2 ^ shift" "b \<noteq> 0 \<or> shift = 0"
      by (auto simp: Let_def and_0x80 split: if_splits)
    moreover have "varint_nat (unat b) = [b]"
      using True by (subst varint_nat.simps) simp
    ultimately show ?thesis
      by (intro exI [of _ "unat b"]) (auto simp: unat_gt_0)
  next
    case False
    with fit top have more: "shift + 7 < LENGTH('a)"
      by (cases "LENGTH('a) - 7 \<le> shift") fastforce+
    have b: "unat b mod 128 + 128 = unat b"
      using False unat_lt_8 [of b] by (simp add: le_mod_geq)
    have t: "unat ?t = unat t + unat b mod 128 * 2 ^ shift"
      using unat_varint_step [OF assms(1) Cons.prems(1)]
        group_fits [OF Cons.prems(1), of "unat b mod 128" "LENGTH('a)"] more by simp
    have "readVarint_loop (shift + 7) ?t bs = Inr (v, r)"
      using Cons.prems(3) False by (simp add: Let_def and_0x80 split: if_splits)
    moreover have "unat ?t < 2 ^ (shift + 7)"
      using t group_fits [OF Cons.prems(1), of "unat b mod 128" "shift + 7"] by simp
    ultimately obtain m where m: "bs = varint_nat m @ r" "unat v = unat ?t + m * 2 ^ (shift + 7)"
      "m > 0" using Cons.IH [of ?t "shift + 7"] more by auto
    let ?n = "unat b mod 128 + 128 * m"
    have "varint_nat ?n = b # varint_nat m"
      using m(3) by (subst varint_nat.simps) (simp add: b del: of_nat_add)
    moreover have "unat v = unat t + ?n * 2 ^ shift"
      using m(2) t by (simp add: power_add algebra_simps)
    ultimately show ?thesis
      using m by (intro exI [of _ ?n]) simp
  qed
qed

text \<open>The reader of the header agrees with the reader of the streams wherever the latter accepts.\<close>

lemma read_varint_loop_readVarint:
  assumes "8 \<le> LENGTH('a)" "shift < LENGTH('a)"
    "readVarint_loop shift (t :: 'a::len word) bs = Inr (v, r)"
  shows "read_varint_loop LENGTH('a) shift c t bs = (c + int (length bs - length r), v)
       \<and> length r < length bs"
  using assms(2,3)
proof (induction bs arbitrary: shift t c)
  case Nil
  then show ?case by simp
next
  case (Cons b bs)
  have top: "(LENGTH('a) \<le> shift + 7) = (LENGTH('a) - 7 \<le> shift)"
    by auto
  have "2 ^ (LENGTH('a) - shift) \<le> (128 :: nat)" if "LENGTH('a) - 7 \<le> shift"
    using that power_increasing [of "LENGTH('a) - shift" 7 "2 :: nat"] by simp
  with Cons.prems have "shift + 7 < LENGTH('a)" if "\<not> unat b < 128"
    using that by (cases "LENGTH('a) - 7 \<le> shift") (fastforce split: if_splits)+
  with Cons.prems Cons.IH [of "shift + 7" "t OR push_bit shift (ucast (b AND 0x7f))" "c + 1"]
  show ?case
    unfolding read_varint_loop.simps readVarint_loop.simps top
    by (cases "unat b < 128") (auto simp: Let_def and_0x80 split: if_splits)
qed

lemma readVarint_write [codec_simps]:
  "8 \<le> LENGTH('a) \<Longrightarrow> readVarint (writeVarint (v :: 'a::len word) @ r) = Inr (v, r)"
  using readVarint_loop_write [of "0 :: 'a word" 0 "unat v" r] unsigned_less [of v]
  by (simp add: readVarint_def writeVarint_write_varint write_varint_nat)

lemma readVarint_canonical:
  assumes "8 \<le> LENGTH('a)" "readVarint bs = Inr (v :: 'a::len word, r)"
  shows "bs = writeVarint v @ r"
  using readVarint_loop_canonical [of "0 :: 'a word" 0 bs v r] assms
  by (auto simp: readVarint_def writeVarint_write_varint write_varint_nat)

lemma read_varint_readVarint:
  assumes "8 \<le> LENGTH('a)" "readVarint bs = Inr (v :: 'a::len word, r)"
  shows "read_varint bs = (int (length bs - length r), v)" "length r < length bs"
  using read_varint_loop_readVarint [of 0 "0 :: 'a word" bs v r 0] assms
  by (simp_all add: readVarint_def read_varint_def)

lemma readVarint_loop_read_varint:
  assumes "8 \<le> LENGTH('a)" "shift < LENGTH('a)" "0 \<le> c"
    "read_varint_loop LENGTH('a) shift c (t :: 'a::len word) bs = (n, v)" "0 \<le> n"
    "n < c + int (length bs)"
  shows "c < n \<and> readVarint_loop shift t bs = Inr (v, drop (nat (n - c)) bs)"
  using assms(2-)
proof (induction bs arbitrary: shift t c)
  case Nil
  then show ?case by simp
next
  case (Cons b bs)
  let ?t = "t OR push_bit shift (ucast (b AND 0x7f))"
  have top: "(LENGTH('a) \<le> shift + 7) = (LENGTH('a) - 7 \<le> shift)"
    by auto
  have ok: "\<not> (LENGTH('a) - 7 \<le> shift \<and> 2 ^ (LENGTH('a) - shift) \<le> unat b)" "\<not> (b = 0 \<and> shift \<noteq> 0)"
    using Cons.prems by (auto split: if_splits)
  show ?case
  proof (cases "unat b < 128")
    case True
    with ok Cons.prems have "n = c + 1" "v = ?t"
      by (auto simp: Let_def and_0x80 top split: if_splits)
    with True ok show ?thesis by (simp add: Let_def and_0x80)
  next
    case False
    have "2 ^ (LENGTH('a) - shift) \<le> (128 :: nat)" if "LENGTH('a) - 7 \<le> shift"
      using that power_increasing [of "LENGTH('a) - shift" 7 "2 :: nat"] by simp
    with ok(1) False have more: "shift + 7 < LENGTH('a)"
      by (cases "LENGTH('a) - 7 \<le> shift") fastforce+
    have "read_varint_loop LENGTH('a) (shift + 7) (c + 1) ?t bs = (n, v)"
      using Cons.prems(3) ok False by (simp add: Let_def and_0x80 top split: if_splits)
    from Cons.IH [OF more _ this] Cons.prems
    have *: "c + 1 < n" "readVarint_loop (shift + 7) ?t bs = Inr (v, drop (nat (n - (c + 1))) bs)"
      by auto
    have "nat (n - c) = Suc (nat (n - (c + 1)))" using *(1) by simp
    with * False ok show ?thesis by (simp add: Let_def and_0x80)
  qed
qed

lemma readVarint_read_varint:
  assumes "8 \<le> LENGTH('a)" "read_varint bs = (n, v :: 'a::len word)" "0 \<le> n" "nat n < length bs"
  shows "0 < n" "readVarint bs = Inr (v, drop (nat n) bs)"
  using readVarint_loop_read_varint [of 0 0 "0 :: 'a word" bs n v] assms
  by (auto simp: readVarint_def read_varint_def)

lemma varint_nat_not_Nil [simp]: "varint_nat n \<noteq> []"
  by (subst varint_nat.simps) simp

lemma length_varint_nat:
  "n < 128 ^ k \<Longrightarrow> length (varint_nat n) \<le> max 1 k"
proof (induction k arbitrary: n)
  case (Suc k)
  have "n div 128 < 128 ^ k"
    using Suc.prems by (simp add: div_less_iff_less_mult mult.commute)
  with Suc.IH [of "n div 128"] show ?case
    by (subst varint_nat.simps) (cases k; simp)
qed (simp add: varint_nat.simps)

section \<open>Properties\<close>

text \<open>C27. Variable-length integers round trip for the 8, 16, 32 and 64 bit overloads: what
  \<open>writeVarint\<close> writes, \<open>readVarint\<close> reads back, and it consumes nothing beyond it.\<close>

theorem varint_roundtrip:
  "readVarint (writeVarint (a :: byte) @ r) = Inr (a, r) \<and>
   readVarint (writeVarint (b :: u16) @ r) = Inr (b, r) \<and>
   readVarint (writeVarint (c :: u32) @ r) = Inr (c, r) \<and>
   readVarint (writeVarint (d :: u64) @ r) = Inr (d, r)"
  by (simp add: readVarint_write)

text \<open>C26. Variable-length integers are canonical: whatever bytes \<open>readVarint\<close> accepts as a 64-bit
  value are the bytes \<open>writeVarint\<close> writes for that value, so no value has two accepted
  encodings.\<close>

theorem varint_canonical:
  assumes "readVarint bs = Inr (v :: u64, r)"
  shows "bs = writeVarint v @ r"
  using assms by (simp add: readVarint_canonical)

theorem varint_canonical_witness:
  "readVarint [0x80, 0x01, 0x07] = Inr (128 :: u64, [7]) \<and>
   [0x80, 0x01, 0x07] = writeVarint (128 :: u64) @ [7]"
  using varint_canonical [of "[0x80, 0x01, 0x07]" 128 "[7]"]
  by (simp add: readVarint_def)

text \<open>A 64-bit value is written in at most ten bytes, and \<open>read_varint\<close> of \<open>varint.h\<close>, the
  reader of address prefixes, returns the number of bytes written and the value.\<close>

lemma read_varint_of_write_varint:
  "length (write_varint (v :: u64)) \<le> 10 \<and>
   read_varint (write_varint v @ r) = (int (length (write_varint v)), v)"
  using length_varint_nat [of "unat v" 10] unat_lt_64 [of v]
    read_varint_readVarint(1) [OF _ readVarint_write, of v r]
  by (simp add: writeVarint_write_varint write_varint_nat)

end
