(* ===== verification/Keccak.thy ===== *)
theory Keccak
  imports Streams
begin

text \<open>The hash function of the program: the permutation and the sponge of
  \<open>src/src/crypto/keccak.c\<close> and \<open>cn_fast_hash\<close> of \<open>src/src/crypto/hash.c\<close>. The state of the
  permutation is a list of 25 lanes; the counted loops are folds over the loop index that
  update it in place. The lengths are nonnegative \<open>int\<close> values of the source, so an input
  is shorter than \<open>2 ^ 31\<close> bytes.

  The reference at the end of the theory is the permutation as the Keccak specification
  has it (theta, rho, pi, chi and iota on a five by five array of lanes) and the
  multi-rate padding of the message; the code is proved equal to it.\<close>

section \<open>Definitions\<close>

definition keccakf_rndc :: "u64 list" where
  "keccakf_rndc =
     [0x0000000000000001, 0x0000000000008082, 0x800000000000808a,
      0x8000000080008000, 0x000000000000808b, 0x0000000080000001,
      0x8000000080008081, 0x8000000000008009, 0x000000000000008a,
      0x0000000000000088, 0x0000000080008009, 0x000000008000000a,
      0x000000008000808b, 0x800000000000008b, 0x8000000000008089,
      0x8000000000008003, 0x8000000000008002, 0x8000000000000080,
      0x000000000000800a, 0x800000008000000a, 0x8000000080008081,
      0x8000000000008080, 0x0000000080000001, 0x8000000080008008]"

definition keccakf_rotc :: "nat list" where
  "keccakf_rotc =
     [1, 3, 6, 10, 15, 21, 28, 36, 45, 55, 2, 14,
      27, 41, 56, 8, 25, 43, 62, 18, 39, 61, 20, 44]"

definition keccakf_piln :: "nat list" where
  "keccakf_piln =
     [10, 7, 11, 17, 18, 3, 5, 16, 8, 21, 24, 4,
      15, 23, 19, 13, 12, 2, 20, 14, 22, 9, 6, 1]"

definition ROTL64 :: "u64 \<Rightarrow> nat \<Rightarrow> u64" where
  "ROTL64 x y = push_bit y x OR drop_bit (64 - y) x"

definition KECCAK_ROUNDS :: nat where
  "KECCAK_ROUNDS = 24"

subsection \<open>The permutation\<close>

definition keccakf_theta_bc :: "u64 list \<Rightarrow> u64 list" where
  "keccakf_theta_bc st =
     map (\<lambda>i. st ! i XOR st ! (i + 5) XOR st ! (i + 10) XOR st ! (i + 15) XOR st ! (i + 20))
       [0, 1, 2, 3, 4]"

definition keccakf_theta :: "u64 list \<Rightarrow> u64 list" where
  "keccakf_theta st =
     (let bc = keccakf_theta_bc st in
      fold (\<lambda>i st. let t = bc ! ((i + 4) mod 5) XOR ROTL64 (bc ! ((i + 1) mod 5)) 1 in
              fold (\<lambda>j st. st[j + i := st ! (j + i) XOR t]) [0, 5, 10, 15, 20] st)
        [0, 1, 2, 3, 4] st)"

text \<open>The state of the rho and pi loop is the lanes and the lane \<open>t\<close> that is moved next.\<close>

definition keccakf_rhopi :: "u64 list \<Rightarrow> u64 list" where
  "keccakf_rhopi st =
     fst (fold (\<lambda>(rotc, j) (st, t). (st[j := ROTL64 t rotc], st ! j))
            (zip keccakf_rotc keccakf_piln) (st, st ! 1))"

definition keccakf_chi :: "u64 list \<Rightarrow> u64 list" where
  "keccakf_chi st =
     fold (\<lambda>j st. let bc = map (\<lambda>i. st ! (j + i)) [0, 1, 2, 3, 4] in
             fold (\<lambda>i st. st[j + i := st ! (j + i) XOR (NOT (bc ! ((i + 1) mod 5)) AND bc ! ((i + 2) mod 5))])
               [0, 1, 2, 3, 4] st)
       [0, 5, 10, 15, 20] st"

definition keccakf_iota :: "nat \<Rightarrow> u64 list \<Rightarrow> u64 list" where
  "keccakf_iota round st = st[0 := st ! 0 XOR keccakf_rndc ! round]"

definition keccakf :: "u64 list \<Rightarrow> nat \<Rightarrow> u64 list" where
  "keccakf st rounds =
     fold (\<lambda>round st. keccakf_iota round (keccakf_chi (keccakf_rhopi (keccakf_theta st))))
       [0..<rounds] st"

subsection \<open>The sponge\<close>

text \<open>\<open>(uint64_t *) in\<close>: the words of a byte buffer.\<close>

definition words_of :: "bytes \<Rightarrow> nat \<Rightarrow> u64 list" where
  "words_of d n = map (\<lambda>i. le_decode (take 8 (drop (8 * i) d))) [0..<n]"

definition bytes_of_words :: "u64 list \<Rightarrow> bytes" where
  "bytes_of_words st = concat (map (le_encode 8) st)"

definition keccak_xor :: "nat \<Rightarrow> u64 list \<Rightarrow> bytes \<Rightarrow> u64 list" where
  "keccak_xor rsizw st d =
     fold (\<lambda>i st. st[i := st ! i XOR words_of d rsizw ! i]) [0..<rsizw] st"

definition keccak_rsiz :: "nat \<Rightarrow> nat" where
  "keccak_rsiz mdlen = (if mdlen = 200 then 136 else 200 - 2 * mdlen)"

text \<open>The loop over the full blocks returns the state and the rest of the input. The callers
  pass 200 for \<open>mdlen\<close>, so the rate \<open>rsiz\<close> is 136; a rate of zero, for which the loop of the
  source does not advance, is excluded by the first conjunct of the guard.\<close>

function keccak_blocks :: "nat \<Rightarrow> u64 list \<Rightarrow> bytes \<Rightarrow> u64 list \<times> bytes" where
  "keccak_blocks rsiz st i =
     (if 0 < rsiz \<and> rsiz \<le> length i
      then keccak_blocks rsiz (keccakf (keccak_xor (rsiz div 8) st i) KECCAK_ROUNDS) (drop rsiz i)
      else (st, i))"
  by pat_completeness auto
termination
  by (relation "measure (\<lambda>(_, _, i). length i)") auto

declare keccak_blocks.simps [simp del]

definition keccak_pad :: "nat \<Rightarrow> bytes \<Rightarrow> bytes" where
  "keccak_pad rsiz i =
     (let temp = i @ [1] @ replicate (rsiz - (length i + 1)) 0
      in temp[rsiz - 1 := temp ! (rsiz - 1) OR 0x80])"

definition keccak :: "bytes \<Rightarrow> nat \<Rightarrow> bytes" where
  "keccak i mdlen =
     (let rsiz = keccak_rsiz mdlen; rsizw = rsiz div 8;
          (st, rest) = keccak_blocks rsiz (replicate 25 0) i;
          st = keccakf (keccak_xor rsizw st (keccak_pad rsiz rest)) KECCAK_ROUNDS
      in take mdlen (bytes_of_words st))"

definition keccak1600 :: "bytes \<Rightarrow> bytes" where
  "keccak1600 i = keccak i 200"

definition HASH_SIZE :: nat where
  "HASH_SIZE = 32"

definition hash_process :: "bytes \<Rightarrow> bytes" where
  "hash_process buf = keccak1600 buf"

definition hash_permutation :: "u64 list \<Rightarrow> u64 list" where
  "hash_permutation state = keccakf state 24"

definition cn_fast_hash :: "bytes \<Rightarrow> bytes" where
  "cn_fast_hash d = take HASH_SIZE (hash_process d)"

section \<open>The reference\<close>

text \<open>The five steps of a round on the lanes \<open>a ! (x + 5 * y)\<close>, with the rotation offsets of the
  specification, and the sponge over the padded message.\<close>

definition ref_theta :: "u64 list \<Rightarrow> u64 list" where
  "ref_theta a =
     (let c = (\<lambda>x. a ! x XOR a ! (x + 5) XOR a ! (x + 10) XOR a ! (x + 15) XOR a ! (x + 20));
          d = (\<lambda>x. c ((x + 4) mod 5) XOR word_rotl 1 (c ((x + 1) mod 5)))
      in map (\<lambda>k. a ! k XOR d (k mod 5)) [0..<25])"

definition ref_rho_offset :: "nat list" where
  "ref_rho_offset =
     [ 0,  1, 62, 28, 27,
      36, 44,  6, 55, 20,
       3, 10, 43, 25, 39,
      41, 45, 15, 21,  8,
      18,  2, 61, 56, 14]"

definition ref_rho :: "u64 list \<Rightarrow> u64 list" where
  "ref_rho a = map (\<lambda>k. word_rotl (ref_rho_offset ! k) (a ! k)) [0..<25]"

definition ref_pi :: "u64 list \<Rightarrow> u64 list" where
  "ref_pi a =
     map (\<lambda>k. let x = k mod 5; y = k div 5 in a ! ((x + 3 * y) mod 5 + 5 * x)) [0..<25]"

definition ref_chi :: "u64 list \<Rightarrow> u64 list" where
  "ref_chi a =
     map (\<lambda>k. let x = k mod 5; y = k div 5 in
            a ! k XOR (NOT (a ! ((x + 1) mod 5 + 5 * y)) AND a ! ((x + 2) mod 5 + 5 * y))) [0..<25]"

definition ref_iota :: "nat \<Rightarrow> u64 list \<Rightarrow> u64 list" where
  "ref_iota r a = map (\<lambda>k. if k = 0 then a ! 0 XOR keccakf_rndc ! r else a ! k) [0..<25]"

primrec ref_keccakf :: "nat \<Rightarrow> u64 list \<Rightarrow> u64 list" where
  "ref_keccakf 0 a = a"
| "ref_keccakf (Suc r) a = ref_iota r (ref_chi (ref_pi (ref_rho (ref_theta (ref_keccakf r a)))))"

definition ref_pad :: "nat \<Rightarrow> bytes \<Rightarrow> bytes" where
  "ref_pad r m =
     (let q = r - length m mod r
      in m @ (if q = 1 then [0x81] else [1] @ replicate (q - 2) 0 @ [0x80]))"

function ref_chunks :: "nat \<Rightarrow> bytes \<Rightarrow> bytes list" where
  "ref_chunks r m = (if r = 0 \<or> m = [] then [] else take r m # ref_chunks r (drop r m))"
  by pat_completeness auto
termination
  by (relation "measure (\<lambda>(_, m). length m)") auto

declare ref_chunks.simps [simp del]

definition ref_absorb :: "nat \<Rightarrow> u64 list \<Rightarrow> bytes \<Rightarrow> u64 list" where
  "ref_absorb r a block =
     ref_keccakf 24 (map2 (XOR) a (words_of block (r div 8) @ replicate (25 - r div 8) 0))"

definition ref_keccak256 :: "bytes \<Rightarrow> bytes" where
  "ref_keccak256 m =
     take 32 (bytes_of_words (foldl (ref_absorb 136) (replicate 25 0) (ref_chunks 136 (ref_pad 136 m))))"

section \<open>The permutation computes the reference\<close>

lemma list25:
  assumes "length xs = 25"
  obtains a b c d e f g h i j k l m n o' p q r s t u v w x y where
    "xs = [a, b, c, d, e, f, g, h, i, j, k, l, m, n, o', p, q, r, s, t, u, v, w, x, y]"
  using assms by (auto simp: length_Suc_conv eval_nat_numeral)

lemma upt_25:
  "[0..<25] = [0, 1, 2, 3, 4, 5, 6, 7, 8, 9, 10, 11, 12, 13, 14, 15, 16, 17, 18, 19, 20, 21, 22, 23, 24]"
  by code_simp

lemma ROTL64_rotl: "0 < r \<Longrightarrow> r < 64 \<Longrightarrow> ROTL64 x r = word_rotl r x"
  using rotl_shifts [of r x] by (simp add: ROTL64_def)

lemma keccakf_theta_ref: "length st = 25 \<Longrightarrow> keccakf_theta st = ref_theta st"
  by (erule list25)
    (simp add: keccakf_theta_def keccakf_theta_bc_def ref_theta_def Let_def ROTL64_rotl upt_25)

lemma keccakf_rhopi_ref: "length st = 25 \<Longrightarrow> keccakf_rhopi st = ref_pi (ref_rho st)"
  by (erule list25)
    (simp add: keccakf_rhopi_def keccakf_rotc_def keccakf_piln_def ref_pi_def ref_rho_def
      ref_rho_offset_def Let_def upt_25 ROTL64_rotl rotl_zero)

lemma keccakf_chi_ref: "length st = 25 \<Longrightarrow> keccakf_chi st = ref_chi st"
  by (erule list25) (simp add: keccakf_chi_def ref_chi_def Let_def upt_25)

lemma keccakf_iota_ref: "length st = 25 \<Longrightarrow> keccakf_iota r st = ref_iota r st"
  by (erule list25) (simp add: keccakf_iota_def ref_iota_def upt_25)

lemma ref_lengths [simp]:
  "length (ref_theta a) = 25" "length (ref_rho a) = 25" "length (ref_pi a) = 25"
  "length (ref_chi a) = 25" "length (ref_iota r a) = 25"
  by (simp_all add: ref_theta_def ref_rho_def ref_pi_def ref_chi_def ref_iota_def Let_def)

lemma length_ref_keccakf [simp]: "length a = 25 \<Longrightarrow> length (ref_keccakf r a) = 25"
  by (cases r) simp_all

lemma keccakf_ref: "length st = 25 \<Longrightarrow> keccakf st rounds = ref_keccakf rounds st"
  by (induction rounds)
    (simp_all add: keccakf_def keccakf_theta_ref keccakf_rhopi_ref keccakf_chi_ref keccakf_iota_ref)

lemma length_keccakf [simp]: "length st = 25 \<Longrightarrow> length (keccakf st rounds) = 25"
  by (simp add: keccakf_ref)

section \<open>The sponge computes the reference\<close>

lemma fold_update_xor:
  "n \<le> length st \<Longrightarrow> fold (\<lambda>i st. st[i := st ! i XOR ws ! i]) [0..<n] st =
   map (\<lambda>k. if k < n then st ! k XOR ws ! k else st ! k :: u64) [0..<length st]"
proof (induction n)
  case 0
  then show ?case by (simp add: map_nth)
next
  case (Suc n)
  then show ?case
    by (auto intro!: nth_equalityI simp: nth_list_update less_Suc_eq)
qed

lemma keccak_xor_map2:
  assumes "length st = 25" "w \<le> 25"
  shows "keccak_xor w st d = map2 (XOR) st (words_of d w @ replicate (25 - w) 0)"
  using assms by (auto intro!: nth_equalityI
    simp: keccak_xor_def fold_update_xor words_of_def nth_append)

lemma length_words_of [simp]: "length (words_of d w) = w"
  by (simp add: words_of_def)

lemma words_of_take: "8 * w \<le> r \<Longrightarrow> words_of (take r d) w = words_of d w"
  by (auto simp: words_of_def drop_take min_def)

lemma ref_pad_block:
  assumes "0 < r" "r \<le> length m"
  shows "ref_pad r m = take r m @ ref_pad r (drop r m)"
  using assms by (simp add: ref_pad_def Let_def le_mod_geq)

lemma ref_pad_last:
  assumes "length m < r"
  shows "ref_pad r m = keccak_pad r m"
proof (cases "r - length m = 1")
  case True
  then have "r - 1 = length m" using assms by auto
  with assms True show ?thesis
    by (simp add: ref_pad_def keccak_pad_def Let_def)
next
  case False
  with assms have r: "r = length m + Suc (Suc (r - length m - 2))" by simp
  obtain k where k: "r = length m + Suc (Suc k)" using r by blast
  show ?thesis
    unfolding k by (simp add: ref_pad_def keccak_pad_def Let_def nth_append list_update_append 
       flip: replicate_append_same)
qed

lemma length_keccak_pad: "length m < r \<Longrightarrow> length (keccak_pad r m) = r"
  by (simp add: keccak_pad_def Let_def)

lemma ref_chunks_block: "0 < r \<Longrightarrow> length b = r \<Longrightarrow> ref_chunks r (b @ m) = b # ref_chunks r m"
  by (subst ref_chunks.simps) auto

lemma ref_chunks_Nil [simp]: "ref_chunks r [] = []"
  by (subst ref_chunks.simps) simp

lemma absorb_ref:
  assumes "length st = 25" "r \<le> 200" "r mod 8 = 0"
  shows "keccakf (keccak_xor (r div 8) st d) KECCAK_ROUNDS = ref_absorb r st (take r d)"
proof -
  have "8 * (r div 8) \<le> r" "r div 8 \<le> 25" using assms by auto
  then show ?thesis
    using assms by (simp add: KECCAK_ROUNDS_def keccakf_ref ref_absorb_def keccak_xor_map2 words_of_take)
qed

lemma length_ref_absorb [simp]:
  "length a = 25 \<Longrightarrow> r \<le> 200 \<Longrightarrow> length (ref_absorb r a b) = 25"
  by (auto simp: ref_absorb_def words_of_def)

lemma sponge_ref:
  assumes "0 < r" "r \<le> 200" "r mod 8 = 0" "length st = 25"
  shows "(case keccak_blocks r st m of (st', rest) \<Rightarrow>
      keccakf (keccak_xor (r div 8) st' (keccak_pad r rest)) KECCAK_ROUNDS) =
    foldl (ref_absorb r) st (ref_chunks r (ref_pad r m))"
  using assms(4)
proof (induction m arbitrary: st rule: length_induct)
  case (1 m)
  show ?case
  proof (cases "r \<le> length m")
    case True
    then have "ref_chunks r (ref_pad r m) = take r m # ref_chunks r (ref_pad r (drop r m))"
      using assms(1) by (simp add: ref_pad_block ref_chunks_block)
    moreover have "keccak_blocks r st m = keccak_blocks r (ref_absorb r st (take r m)) (drop r m)"
      using assms 1(2) True by (subst keccak_blocks.simps) (simp add: absorb_ref)
    ultimately show ?thesis
      using 1(1) [rule_format, of "drop r m" "ref_absorb r st (take r m)"] 1(2) assms True by simp
  next
    case False
    then have "keccak_blocks r st m = (st, m)"
      by (subst keccak_blocks.simps) simp
    moreover have "ref_chunks r (ref_pad r m) = [keccak_pad r m]"
      using False assms(1) ref_chunks_block [of r "keccak_pad r m" "[]"]
      by (simp add: ref_pad_last length_keccak_pad)
    ultimately show ?thesis
      using absorb_ref [OF 1(2) assms(2,3), of "keccak_pad r m"] False by (simp add: length_keccak_pad)
  qed
qed

lemma length_bytes_of_words [simp]: "length (bytes_of_words st) = 8 * length st"
  by (simp add: bytes_of_words_def length_concat comp_def sum_list_triv)

lemma length_sponge:
  "r \<le> 200 \<Longrightarrow> length st = 25 \<Longrightarrow> length (foldl (ref_absorb r) st bs) = 25"
  by (induction bs arbitrary: st) simp_all

lemma cn_fast_hash_ref: "cn_fast_hash m = ref_keccak256 m"
  using sponge_ref [of 136 "replicate 25 0" m]
  by (simp add: cn_fast_hash_def hash_process_def keccak1600_def keccak_def keccak_rsiz_def
      ref_keccak256_def HASH_SIZE_def Let_def split: prod.splits)

lemma length_cn_fast_hash [simp]: "length (cn_fast_hash m) = 32"
  by (simp add: cn_fast_hash_ref ref_keccak256_def length_sponge)

section \<open>The interface of the hash function\<close>

text \<open>What the other components use of the hash function: its values have 32 bytes.\<close>

locale hash_function =
  fixes h :: "bytes \<Rightarrow> bytes"
  assumes length_hash [simp]: "length (h m) = 32"

interpretation cn_fast: hash_function cn_fast_hash
  by unfold_locales simp

section \<open>Properties\<close>

text \<open>\<open>keccakf\<close>, whose loops update the 25 lanes in place and move the lanes along one
  cycle, computes on every state the rounds of the Keccak permutation as specified by theta,
  rho, pi, chi and iota, for every number of rounds.\<close>

lemma keccakf_is_permutation_spec:
  assumes "length st = 25"
  shows "keccakf st rounds = ref_keccakf rounds st"
  using assms by (rule keccakf_ref)


end
