(* ===== verification/Base58.thy ===== *)
theory Base58
  imports IntUtil Varint Keccak
begin

text \<open>Base-58 text of binary data and of addresses, \<open>src/src/common/base58.cpp\<close>.

  A write through a pointer is an update of the buffer at an offset, with the result \<open>None\<close> when
  it would leave the buffer; \<open>encode\<close> is shown never to do so. The functions that report
  success in a bool and write their result through a reference return an option.
  The hash function of the address checksum is the argument \<open>h\<close>, an instance of the locale
  \<open>hash_function\<close>; the program passes \<open>cn_fast_hash\<close>.\<close>

section \<open>Definitions\<close>

definition alphabet :: bytes where
  "alphabet = bytes_of ''123456789ABCDEFGHJKLMNPQRSTUVWXYZabcdefghijkmnopqrstuvwxyz''"

definition alphabet_size :: u64 where
  "alphabet_size = 58"

definition encoded_block_sizes :: "nat list" where
  "encoded_block_sizes = [0, 2, 3, 5, 6, 7, 9, 10, 11]"

definition full_block_size :: nat where
  "full_block_size = 8"

definition full_encoded_block_size :: nat where
  "full_encoded_block_size = 11"

definition addr_checksum_size :: nat where
  "addr_checksum_size = 4"

text \<open>The table of the letters' values, filled with \<open>-1\<close> and then at every letter.\<close>

definition reverse_alphabet_data :: "int list" where
  "reverse_alphabet_data =
     fold (\<lambda>i m. m[nat (sint (alphabet ! i) - sint (alphabet ! 0)) := int i]) [0..<58]
       (replicate (nat (sint (alphabet ! 57) - sint (alphabet ! 0) + 1)) (-1))"

definition reverse_alphabet :: "byte \<Rightarrow> int" where
  "reverse_alphabet letter =
     (let idx = of_int (sint letter - sint (alphabet ! 0)) :: u64 in
      if unat idx < length reverse_alphabet_data then reverse_alphabet_data ! unat idx else -1)"

definition decoded_block_sizes_data :: "int list" where
  "decoded_block_sizes_data =
     fold (\<lambda>i m. m[encoded_block_sizes ! i := int i]) [0..<full_block_size + 1]
       (replicate (encoded_block_sizes ! full_block_size + 1) (-1))"

definition decoded_block_sizes :: "nat \<Rightarrow> int" where
  "decoded_block_sizes encoded_block_size = decoded_block_sizes_data ! encoded_block_size"

text \<open>The switch falls through from the case of the size to the last one: one shift and one
  byte per case, the first shift of a zero left out for the size 8.\<close>

definition uint_8be_to_64 :: "bytes \<Rightarrow> nat \<Rightarrow> u64" where
  "uint_8be_to_64 d sz = foldl (\<lambda>res b. push_bit 8 res OR ucast b) 0 (take sz d)"

definition uint_64_to_8be :: "u64 \<Rightarrow> nat \<Rightarrow> bytes" where
  "uint_64_to_8be num sz = take sz (drop (8 - sz) (le_encode 8 (SWAP64 num)))"

text \<open>The loop of \<open>encode_block\<close> writes \<open>res[i]\<close>, \<open>res[i - 1]\<close>, ... of the block that starts at
  the offset \<open>off\<close>.\<close>

function encode_block_loop :: "u64 \<Rightarrow> int \<Rightarrow> nat \<Rightarrow> bytes \<Rightarrow> bytes option" where
  "encode_block_loop num i off res =
     (if 0 < num then
        if 0 \<le> i \<and> off + nat i < length res
        then encode_block_loop (num div alphabet_size) (i - 1) off
               (res[off + nat i := alphabet ! unat (num mod alphabet_size)])
        else None
      else Some res)"
  by pat_completeness auto
termination
  by (relation "measure (\<lambda>(num, _). unat num)")
    (auto simp: alphabet_size_def unat_div_distrib unat_gt_0 word_gt_0)

declare encode_block_loop.simps [simp del]

definition encode_block :: "bytes \<Rightarrow> nat \<Rightarrow> nat \<Rightarrow> bytes \<Rightarrow> bytes option" where
  "encode_block block sz off res =
     encode_block_loop (uint_8be_to_64 block sz) (int (encoded_block_sizes ! sz) - 1) off res"

text \<open>The loop of \<open>decode_block\<close> runs from the last letter to the first: \<open>n\<close> letters are left.\<close>

primrec decode_block_loop :: "bytes \<Rightarrow> nat \<Rightarrow> u64 \<Rightarrow> u64 \<Rightarrow> u64 option" where
  "decode_block_loop block 0 res_num order = Some res_num"
| "decode_block_loop block (Suc i) res_num order =
     (let digit = reverse_alphabet (block ! i) in
      if digit < 0 then None
      else let (product_lo, product_hi) = mul128 order (of_int digit);
               tmp = res_num + product_lo
           in if tmp < res_num \<or> 0 \<noteq> product_hi then None
              else decode_block_loop block i tmp (order * alphabet_size))"

definition decode_block :: "bytes \<Rightarrow> nat \<Rightarrow> bytes option" where
  "decode_block block sz =
     (let res_size = decoded_block_sizes sz in
      if res_size \<le> 0 then None
      else case decode_block_loop block sz 0 1 of
             None \<Rightarrow> None
           | Some res_num \<Rightarrow>
               if nat res_size < full_block_size \<and> push_bit (8 * nat res_size) 1 \<le> res_num then None
               else Some (uint_64_to_8be res_num (nat res_size)))"

subsection \<open>Whole strings\<close>

primrec encode_full_blocks :: "bytes \<Rightarrow> nat \<Rightarrow> nat \<Rightarrow> bytes \<Rightarrow> bytes option" where
  "encode_full_blocks d 0 i res = Some res"
| "encode_full_blocks d (Suc n) i res =
     (case encode_block (drop (i * full_block_size) d) full_block_size
             (i * full_encoded_block_size) res of
        None \<Rightarrow> None
      | Some res' \<Rightarrow> encode_full_blocks d n (i + 1) res')"

definition encode :: "bytes \<Rightarrow> bytes option" where
  "encode d =
     (if d = [] then Some []
      else let full_block_count = length d div full_block_size;
               last_block_size = length d mod full_block_size;
               res_size = full_block_count * full_encoded_block_size
                          + encoded_block_sizes ! last_block_size;
               res = replicate res_size (alphabet ! 0)
           in case encode_full_blocks d full_block_count 0 res of
                None \<Rightarrow> None
              | Some res \<Rightarrow>
                  if 0 < last_block_size
                  then encode_block (drop (full_block_count * full_block_size) d) last_block_size
                         (full_block_count * full_encoded_block_size) res
                  else Some res)"

text \<open>A decoded block is stored at its offset in the result.\<close>

definition store_at :: "nat \<Rightarrow> bytes \<Rightarrow> bytes \<Rightarrow> bytes option" where
  "store_at off b d =
     (if off + length b \<le> length d then Some (take off d @ b @ drop (off + length b) d) else None)"

primrec decode_full_blocks :: "bytes \<Rightarrow> nat \<Rightarrow> nat \<Rightarrow> bytes \<Rightarrow> bytes option" where
  "decode_full_blocks enc 0 i d = Some d"
| "decode_full_blocks enc (Suc n) i d =
     (case decode_block (drop (i * full_encoded_block_size) enc) full_encoded_block_size of
        None \<Rightarrow> None
      | Some b \<Rightarrow> case store_at (i * full_block_size) b d of
          None \<Rightarrow> None
        | Some d' \<Rightarrow> decode_full_blocks enc n (i + 1) d')"

definition decode :: "bytes \<Rightarrow> bytes option" where
  "decode enc =
     (if enc = [] then Some []
      else let full_block_count = length enc div full_encoded_block_size;
               last_block_size = length enc mod full_encoded_block_size;
               last_block_decoded_size = decoded_block_sizes last_block_size
           in if last_block_decoded_size < 0 then None
              else let data_size = full_block_count * full_block_size + nat last_block_decoded_size
                   in case decode_full_blocks enc full_block_count 0 (replicate data_size 0) of
                        None \<Rightarrow> None
                      | Some d \<Rightarrow>
                          if 0 < last_block_size
                          then case decode_block (drop (full_block_count * full_encoded_block_size) enc)
                                      last_block_size of
                                 None \<Rightarrow> None
                               | Some b \<Rightarrow> store_at (full_block_count * full_block_size) b d
                          else Some d)"

subsection \<open>Addresses\<close>

definition encode_addr :: "(bytes \<Rightarrow> bytes) \<Rightarrow> u64 \<Rightarrow> bytes \<Rightarrow> bytes option" where
  "encode_addr h tag d =
     (let buf = get_varint_data tag @ d; hash = h buf in encode (buf @ take addr_checksum_size hash))"

definition decode_addr :: "(bytes \<Rightarrow> bytes) \<Rightarrow> bytes \<Rightarrow> (u64 \<times> bytes) option" where
  "decode_addr h addr =
     (case decode addr of
        None \<Rightarrow> None
      | Some addr_data \<Rightarrow>
          if length addr_data \<le> addr_checksum_size then None
          else let checksum = drop (length addr_data - addr_checksum_size) addr_data;
                   body = take (length addr_data - addr_checksum_size) addr_data;
                   expected_checksum = take addr_checksum_size (h body)
               in if expected_checksum \<noteq> checksum then None
                  else let (n_read, tag) = read_varint body
                       in if n_read \<le> 0 then None else Some (tag, drop (nat n_read) body))"

section \<open>The tables\<close>

lemma alphabet_code [code]:
  "alphabet = [49, 50, 51, 52, 53, 54, 55, 56, 57, 65, 66, 67, 68, 69, 70, 71, 72, 74, 75, 76, 77,
     78, 80, 81, 82, 83, 84, 85, 86, 87, 88, 89, 90, 97, 98, 99, 100, 101, 102, 103, 104, 105, 106,
     107, 109, 110, 111, 112, 113, 114, 115, 116, 117, 118, 119, 120, 121, 122]"
  by code_simp

lemma length_alphabet [simp]: "length alphabet = 58"
  by (simp add: alphabet_code)

lemma reverse_alphabet_data_code [code]:
  "reverse_alphabet_data = [0, 1, 2, 3, 4, 5, 6, 7, 8, -1, -1, -1, -1, -1, -1, -1, 9, 10, 11, 12,
     13, 14, 15, 16, -1, 17, 18, 19, 20, 21, -1, 22, 23, 24, 25, 26, 27, 28, 29, 30, 31, 32, -1,
     -1, -1, -1, -1, -1, 33, 34, 35, 36, 37, 38, 39, 40, 41, 42, 43, -1, 44, 45, 46, 47, 48, 49,
     50, 51, 52, 53, 54, 55, 56, 57]"
  by code_simp

lemma decoded_block_sizes_data_code [code]:
  "decoded_block_sizes_data = [0, -1, 1, 2, -1, 3, 4, 5, -1, 6, 7, 8]"
  by code_simp

lemma sint_byte: "sint (c :: byte) = (if unat c < 128 then int (unat c) else int (unat c) - 256)"
proof -
  have "sint c = (int (unat c) + 128) mod 256 - 128"
    by (simp add: sint_uint signed_take_bit_eq_take_bit_shift take_bit_eq_mod)
  moreover have "(int n + 128) mod 256 - 128 = (if n < 128 then int n else int n - 256)" if "n < 256" for n
    using that by (cases "n < 128") (simp_all add: mod_pos_geq)
  ultimately show ?thesis
    using unat_lt_8 [of c] by metis
qed

lemma mod_of_negative: "- m \<le> k \<Longrightarrow> k < 0 \<Longrightarrow> k mod m = k + (m :: int)"
  using mod_pos_pos_trivial [of "k + m" m] by simp

lemma unat_of_int_64: "unat (of_int k :: u64) = nat (k mod 18446744073709551616)"
  by (simp add: unsigned_of_int take_bit_eq_mod)

lemma reverse_alphabet_code:
  "reverse_alphabet c =
     (if 49 \<le> unat c \<and> unat c < 123 then reverse_alphabet_data ! (unat c - 49) else -1)"
proof -
  have l: "length reverse_alphabet_data = 74" "sint (alphabet ! 0) = 49"
    by (simp_all add: reverse_alphabet_data_code alphabet_code sint_byte)
  consider "unat c < 49" | "49 \<le> unat c" "unat c < 123" | "123 \<le> unat c" by linarith
  then show ?thesis
  proof cases
    case 1
    have "74 \<le> nat ((int n - 49) mod 18446744073709551616)" if "n < 49" for n
      using that by (subst mod_of_negative) auto
    moreover have "sint c = int (unat c)" using 1 by (simp only: sint_byte) simp
    ultimately have "74 \<le> unat (of_int (sint c - 49) :: u64)"
      using 1 by (simp only: unat_of_int_64)
    with 1 show ?thesis unfolding reverse_alphabet_def l Let_def by simp
  next
    case 2
    have "nat ((int n - 49) mod 18446744073709551616) = n - 49" if "49 \<le> n" "n < 123" for n
      using that by (subst mod_pos_pos_trivial) auto
    moreover have "sint c = int (unat c)" using 2 by (simp only: sint_byte) simp
    ultimately have "unat (of_int (sint c - 49) :: u64) = unat c - 49"
      using 2 by (simp only: unat_of_int_64)
    with 2 show ?thesis unfolding reverse_alphabet_def l Let_def by auto
  next
    case 3
    have "74 \<le> unat (of_int (sint c - 49) :: u64)"
    proof (cases "unat c < 128")
      case True
      have "74 \<le> nat ((int n - 49) mod 18446744073709551616)" if "123 \<le> n" "n < 128" for n
        using that by (subst mod_pos_pos_trivial) auto
      moreover have "sint c = int (unat c)" using True by (simp only: sint_byte) simp
      ultimately show ?thesis using True 3 by (simp only: unat_of_int_64)
    next
      case False
      then have "sint c = int (unat c) - 256" by (simp only: sint_byte) simp
      then have "sint c - 49 < 0" "-306 < sint c - 49"
        using unat_lt_8 [of c] by linarith+
      then have "(sint c - 49) mod 18446744073709551616 = sint c - 49 + 18446744073709551616"
        by (intro mod_of_negative) auto
      with \<open>-306 < sint c - 49\<close> show ?thesis unfolding unat_of_int_64 by linarith
    qed
    with 3 show ?thesis unfolding reverse_alphabet_def l Let_def by simp
  qed
qed

lemma upt_58: "[0..<58] = [0, 1, 2, 3, 4, 5, 6, 7, 8, 9, 10, 11, 12, 13, 14, 15, 16, 17, 18, 19,
  20, 21, 22, 23, 24, 25, 26, 27, 28, 29, 30, 31, 32, 33, 34, 35, 36, 37, 38, 39, 40, 41, 42, 43,
  44, 45, 46, 47, 48, 49, 50, 51, 52, 53, 54, 55, 56, 57]"
  by code_simp

lemma upt_74: "[0..<74] = [0, 1, 2, 3, 4, 5, 6, 7, 8, 9, 10, 11, 12, 13, 14, 15, 16, 17, 18, 19,
  20, 21, 22, 23, 24, 25, 26, 27, 28, 29, 30, 31, 32, 33, 34, 35, 36, 37, 38, 39, 40, 41, 42, 43,
  44, 45, 46, 47, 48, 49, 50, 51, 52, 53, 54, 55, 56, 57, 58, 59, 60, 61, 62, 63, 64, 65, 66, 67,
  68, 69, 70, 71, 72, 73]"
  by code_simp

lemma reverse_alphabet_letter: "i < 58 \<Longrightarrow> reverse_alphabet (alphabet ! i) = int i"
proof -
  have "list_all (\<lambda>i. reverse_alphabet (alphabet ! i) = int i) [0..<58]"
    unfolding upt_58 by (simp add: alphabet_code reverse_alphabet_code reverse_alphabet_data_code)
  then show "i < 58 \<Longrightarrow> ?thesis" by (simp add: list_all_iff)
qed

lemma reverse_alphabet_inv:
  assumes "0 \<le> reverse_alphabet c"
  shows "nat (reverse_alphabet c) < 58 \<and> alphabet ! nat (reverse_alphabet c) = c"
proof -
  from assms have c: "49 \<le> unat c" "unat c - 49 < 74"
    by (auto simp: reverse_alphabet_code split: if_splits)
  have "list_all (\<lambda>k. 0 \<le> reverse_alphabet_data ! k \<longrightarrow> nat (reverse_alphabet_data ! k) < 58 \<and>
    unat (alphabet ! nat (reverse_alphabet_data ! k)) = k + 49) [0..<74]"
    unfolding upt_74 by (simp add: alphabet_code reverse_alphabet_data_code)
  with c(2) have "0 \<le> reverse_alphabet_data ! (unat c - 49) \<longrightarrow>
     nat (reverse_alphabet_data ! (unat c - 49)) < 58 \<and>
     unat (alphabet ! nat (reverse_alphabet_data ! (unat c - 49))) = unat c - 49 + 49"
    by (simp add: list_all_iff)
  with assms c show ?thesis by (auto simp: reverse_alphabet_code word_eq_unat split: if_splits)
qed

lemma byte_bit_eqI:
  assumes "list_all (\<lambda>n. bit (x :: byte) n = bit y n) [0, 1, 2, 3, 4, 5, 6, 7]"
  shows "x = y"
proof (rule bit_word_eqI)
  fix n assume "n < LENGTH(8)"
  then have "n \<in> set [0..<8]" by simp
  also have "[0..<8] = [0, 1, 2, 3, 4, 5, 6, 7]"
    by code_simp
  finally show "bit x n = bit y n"
    using assms unfolding list_all_iff by blast
qed

lemma SWAP64_bytes: "le_encode 8 (SWAP64 x) = rev (le_encode 8 x)"
proof -
  have "[0..<8] = [0, 1, 2, 3, 4, 5, 6, 7::nat]" by code_simp
  moreover have "ucast (SWAP64 x) = (ucast (drop_bit 56 x) :: byte)"
    by (rule byte_bit_eqI) (simp add: SWAP64_def bit_simps)
  moreover have "ucast (drop_bit 8 (SWAP64 x)) = (ucast (drop_bit 48 x) :: byte)"
    by (rule byte_bit_eqI) (simp add: SWAP64_def bit_simps)
  moreover have "ucast (drop_bit 16 (SWAP64 x)) = (ucast (drop_bit 40 x) :: byte)"
    by (rule byte_bit_eqI) (simp add: SWAP64_def bit_simps)
  moreover have "ucast (drop_bit 24 (SWAP64 x)) = (ucast (drop_bit 32 x) :: byte)"
    by (rule byte_bit_eqI) (simp add: SWAP64_def bit_simps)
  moreover have "ucast (drop_bit 32 (SWAP64 x)) = (ucast (drop_bit 24 x) :: byte)"
    by (rule byte_bit_eqI) (simp add: SWAP64_def bit_simps)
  moreover have "ucast (drop_bit 40 (SWAP64 x)) = (ucast (drop_bit 16 x) :: byte)"
    by (rule byte_bit_eqI) (simp add: SWAP64_def bit_simps)
  moreover have "ucast (drop_bit 48 (SWAP64 x)) = (ucast (drop_bit 8 x) :: byte)"
    by (rule byte_bit_eqI) (simp add: SWAP64_def bit_simps)
  moreover have "ucast (drop_bit 56 (SWAP64 x)) = (ucast x :: byte)"
    by (rule byte_bit_eqI) (simp add: SWAP64_def bit_simps)
  ultimately show ?thesis
    unfolding le_encode_def by simp
qed

section \<open>Positional notation\<close>

primrec to_base :: "nat \<Rightarrow> nat \<Rightarrow> nat \<Rightarrow> nat list" where
  "to_base b 0 n = []"
| "to_base b (Suc k) n = to_base b k (n div b) @ [n mod b]"

definition of_base :: "nat \<Rightarrow> nat list \<Rightarrow> nat" where
  "of_base b ds = foldl (\<lambda>a d. a * b + d) 0 ds"

lemma of_base_Nil [simp]: "of_base b [] = 0"
  by (simp add: of_base_def)

lemma of_base_snoc [simp]: "of_base b (ds @ [d]) = of_base b ds * b + d"
  by (simp add: of_base_def)

lemma length_to_base [simp]: "length (to_base b k n) = k"
  by (induction k arbitrary: n) auto

lemma to_base_less: "0 < b \<Longrightarrow> d \<in> set (to_base b k n) \<Longrightarrow> d < b"
  by (induction k arbitrary: n) auto

lemma to_base_zero: "to_base b k 0 = replicate k 0"
  by (induction k) (simp_all add: replicate_append_same)

lemma of_base_to_base: "n < b ^ k \<Longrightarrow> of_base b (to_base b k n) = n"
proof (induction k arbitrary: n)
  case (Suc k)
  then have "n div b < b ^ k"
    by (simp add: less_mult_imp_div_less mult.commute)
  with Suc.IH show ?case by simp
qed simp

lemma to_base_of_base: "\<forall>d\<in>set ds. d < b \<Longrightarrow> to_base b (length ds) (of_base b ds) = ds"
proof (induction ds rule: rev_induct)
  case (snoc d ds)
  then have "0 < b" by auto
  with snoc show ?case by simp
qed simp

lemma of_base_less: "\<forall>d\<in>set ds. d < b \<Longrightarrow> of_base b ds < b ^ length ds"
proof (induction ds rule: rev_induct)
  case (snoc d ds)
  then have "of_base b ds + 1 \<le> b ^ length ds" "d < b" by auto
  then have "(of_base b ds + 1) * b \<le> b ^ length ds * b" by (intro mult_right_mono) auto
  with \<open>d < b\<close> show ?case by (simp add: algebra_simps)
qed simp

lemma drop_to_base: "drop k (to_base b (k + s) n) = to_base b s n"
  by (induction s arbitrary: n) simp_all

section \<open>Blocks as numbers\<close>

definition be_value :: "bytes \<Rightarrow> nat" where
  "be_value bs = of_base 256 (map unat bs)"

lemma be_value_less: "be_value bs < 256 ^ length bs"
  using of_base_less [of "map unat bs" 256] unat_lt_8 by (auto simp: be_value_def)

lemma unat_uint_8be_to_64:
  assumes "length (take sz d) \<le> 8"
  shows "unat (uint_8be_to_64 d sz) = be_value (take sz d)"
proof -
  have "unat (foldl (\<lambda>res b. push_bit 8 res OR ucast b) (0 :: u64) bs) = be_value bs"
    if "length bs \<le> 8" for bs :: bytes
    using that
  proof (induction bs rule: rev_induct)
    case (snoc b bs)
    let ?r = "foldl (\<lambda>res b. push_bit 8 res OR ucast b) (0 :: u64) bs"
    have r: "unat ?r = be_value bs" using snoc by simp
    have "be_value bs < 256 ^ 7"
      using be_value_less [of bs] power_increasing [of "length bs" 7 "256 :: nat"] snoc.prems
      by (auto intro: less_le_trans)
    then have "unat (ucast b OR push_bit 8 ?r) = unat b + be_value bs * 256"
      using unat_or_push_bit [of "ucast b" 8 ?r] unat_lt_8 [of b] r
      by (simp add: unat_ucast_up)
    then show ?case
      by (simp add: be_value_def or.commute add.commute)
  qed (simp add: be_value_def)
  from this [OF assms] show ?thesis by (simp add: uint_8be_to_64_def)
qed

lemma rev_le_encode: "rev (le_encode k x) = map of_nat (to_base 256 k (unat x))"
proof (induction k arbitrary: x)
  case (Suc k)
  have "ucast x = (of_nat (unat x mod 256) :: byte)"
    by (simp add: word_eq_unat unat_of_nat_small unat_ucast_mod)
  with Suc [of "drop_bit 8 x"] show ?case by (simp add: le_encode_Suc unat_drop_bit)
qed (simp add: le_encode_def)

lemma uint_64_to_8be_digits:
  assumes "s \<le> 8"
  shows "uint_64_to_8be num s = map of_nat (to_base 256 s (unat num))"
  using drop_to_base [of "8 - s" 256 s "unat num"] assms
  by (simp add: uint_64_to_8be_def SWAP64_bytes rev_le_encode drop_map)

lemma be_value_to_base: "n < 256 ^ s \<Longrightarrow> be_value (map of_nat (to_base 256 s n)) = n"
proof -
  have "map (unat \<circ> (of_nat :: nat \<Rightarrow> byte)) (to_base 256 s n) = to_base 256 s n"
    using to_base_less [of 256 _ s n] by (intro map_idI) (simp add: unat_of_nat_small)
  then show "n < 256 ^ s \<Longrightarrow> ?thesis" by (simp add: be_value_def of_base_to_base)
qed

lemma to_base_be_value: "map of_nat (to_base 256 (length bs) (be_value bs)) = bs"
  using to_base_of_base [of "map unat bs" 256] unat_lt_8 by (simp add: be_value_def comp_def)

text \<open>Every block fits into its encoded size.\<close>

lemma block_size_cases:
  assumes "s \<le> (8 :: nat)"
  obtains "s = 0" | "s = 1" | "s = 2" | "s = 3" | "s = 4" | "s = 5" | "s = 6" | "s = 7" | "s = 8"
  using assms by linarith

lemma block_fits: "s \<le> 8 \<Longrightarrow> (256 :: nat) ^ s \<le> 58 ^ (encoded_block_sizes ! s)"
  by (erule block_size_cases) (simp_all add: encoded_block_sizes_def)

section \<open>Encoding a block\<close>

definition block_letters :: "bytes \<Rightarrow> bytes" where
  "block_letters b =
     map (\<lambda>d. alphabet ! d) (to_base 58 (encoded_block_sizes ! length b) (be_value b))"

lemma length_block_letters [simp]: "length (block_letters b) = encoded_block_sizes ! length b"
  by (simp add: block_letters_def)

lemma encode_block_loop_digits:
  assumes "unat num < 58 ^ k" "off + k \<le> length res"
    "take k (drop off res) = replicate k (alphabet ! 0)"
  shows "encode_block_loop num (int k - 1) off res =
    Some (take off res @ map (\<lambda>d. alphabet ! d) (to_base 58 k (unat num)) @ drop (off + k) res)"
  using assms
proof (induction k arbitrary: num res)
  case 0
  then show ?case
    by (subst encode_block_loop.simps) (simp add: word_gt_0 unat_eq_0)
next
  case (Suc k)
  have old: "take k (drop off res) = replicate k (alphabet ! 0)" "res ! (off + k) = alphabet ! 0"
  proof -
    have "take k (drop off res) = take k (take (Suc k) (drop off res))" by (simp add: min_def)
    then show "take k (drop off res) = replicate k (alphabet ! 0)"
      using Suc.prems(3) by (simp del: replicate_Suc)
    have "res ! (off + k) = take (Suc k) (drop off res) ! k" using Suc.prems(2) by simp
    also have "\<dots> = alphabet ! 0" unfolding Suc.prems(3) by (simp del: replicate_Suc)
    finally show "res ! (off + k) = alphabet ! 0" .
  qed
  show ?case
  proof (cases "num = 0")
    case True
    have "res = take off res @ take (Suc k) (drop off res) @ drop (off + Suc k) res"
      by (metis add.commute append_take_drop_id drop_drop)
    then have "res = take off res @ replicate (Suc k) (alphabet ! 0) @ drop (off + Suc k) res"
      using Suc.prems(3) by argo
    with True show ?thesis
      by (subst encode_block_loop.simps) (simp add: to_base_zero del: replicate_Suc to_base.simps)
  next
    case False
    let ?c = "alphabet ! (unat num mod 58)"
    let ?res = "res[off + k := ?c]"
    have q: "unat (num div alphabet_size) = unat num div 58" "unat (num mod alphabet_size) = unat num mod 58"
      by (simp_all add: alphabet_size_def unat_div_distrib unat_mod_distrib)
    have "unat num div 58 < 58 ^ k"
      using Suc.prems(1) by (simp add: less_mult_imp_div_less mult.commute)
    then have "encode_block_loop (num div alphabet_size) (int k - 1) off ?res =
      Some (take off ?res @ map (\<lambda>d. alphabet ! d) (to_base 58 k (unat num div 58)) @ drop (off + k) ?res)"
      using Suc.IH [of "num div alphabet_size" ?res] Suc.prems(2) old(1) by (simp add: q drop_update_swap)
    moreover have "drop (off + k) ?res = ?c # drop (off + Suc k) res"
      using Suc.prems(2) by (simp add: drop_update_swap Cons_nth_drop_Suc [symmetric])
    ultimately show ?thesis
      using False Suc.prems(2) by (subst encode_block_loop.simps) (simp add: word_gt_0 q)
  qed
qed

lemma encode_block_letters:
  assumes "sz \<le> 8" "sz \<le> length block" "off + encoded_block_sizes ! sz \<le> length res"
    "take (encoded_block_sizes ! sz) (drop off res) = replicate (encoded_block_sizes ! sz) (alphabet ! 0)"
  shows "encode_block block sz off res =
    Some (take off res @ block_letters (take sz block) @ drop (off + encoded_block_sizes ! sz) res)"
proof -
  have "unat (uint_8be_to_64 block sz) = be_value (take sz block)"
    using assms(1) by (intro unat_uint_8be_to_64) simp
  moreover have "be_value (take sz block) < 58 ^ (encoded_block_sizes ! sz)"
    using be_value_less [of "take sz block"] block_fits [OF assms(1)] assms(2)
    by (simp only: length_take min.absorb2)
  ultimately show ?thesis
    using encode_block_loop_digits [OF _ assms(3,4), of "uint_8be_to_64 block sz"] assms(2)
    by (simp add: encode_block_def block_letters_def min_def)
qed

section \<open>Decoding a block\<close>

definition letter_values :: "bytes \<Rightarrow> nat list" where
  "letter_values b = map (\<lambda>c. nat (reverse_alphabet c)) b"

lemma letter_values_alphabet:
  assumes "\<forall>d\<in>set ds. d < 58"
  shows "letter_values (map (\<lambda>d. alphabet ! d) ds) = ds"
  using assms by (induction ds) (auto simp: letter_values_def reverse_alphabet_letter)

lemma alphabet_letter_values:
  assumes "\<forall>c\<in>set b. 0 \<le> reverse_alphabet c"
  shows "map (\<lambda>d. alphabet ! d) (letter_values b) = b" "\<forall>d\<in>set (letter_values b). d < 58"
  using assms by (induction b) (auto simp: letter_values_def reverse_alphabet_inv)

text \<open>One step of the loop: the checked sum is the sum when it fits and fails otherwise.\<close>

lemma checked_mul_add:
  assumes "mul128 a b = (lo, hi)"
  shows "(r + lo < r \<or> 0 \<noteq> hi) \<longleftrightarrow> \<not> unat r + unat a * unat b < 18446744073709551616"
    and "unat r + unat a * unat b < 18446744073709551616 \<Longrightarrow> unat (r + lo) = unat r + unat a * unat b"
proof -
  note p = mul128_nat [OF assms]
  have s: "unat (r + lo) = (unat r + unat lo) mod 18446744073709551616"
    by (rule unat_add64)
  show "(r + lo < r \<or> 0 \<noteq> hi) \<longleftrightarrow> \<not> unat r + unat a * unat b < 18446744073709551616"
  proof (cases "hi = 0")
    case True
    with p have l: "unat lo = unat a * unat b" by simp
    show ?thesis
    proof (cases "unat r + unat lo < 18446744073709551616")
      case fits: True
      with s have "unat (r + lo) = unat r + unat lo" by simp
      then have "\<not> r + lo < r" unfolding word_less_unat by linarith
      with True fits l show ?thesis by simp
    next
      case False
      then have "(unat r + unat lo) mod 18446744073709551616 = unat r + unat lo - 18446744073709551616"
        using unat_lt_64 [of r] unat_lt_64 [of lo] by (simp add: le_mod_geq)
      with s False have "r + lo < r" unfolding word_less_unat using unat_lt_64 [of lo] by linarith
      with True False l show ?thesis by simp
    qed
  next
    case False
    then have "1 \<le> unat hi" by (simp add: unat_gt_0 Suc_le_eq)
    with p have "18446744073709551616 \<le> unat a * unat b" by linarith
    with False show ?thesis by simp
  qed
  show "unat r + unat a * unat b < 18446744073709551616 \<Longrightarrow> unat (r + lo) = unat r + unat a * unat b"
  proof -
    assume fits: "unat r + unat a * unat b < 18446744073709551616"
    with p have "unat hi = 0" by linarith
    with p have "unat lo = unat a * unat b" by linarith
    with s fits show ?thesis by simp
  qed
qed

lemma decode_block_loop_invalid:
  "\<exists>c\<in>set (take n block). reverse_alphabet c < 0 \<Longrightarrow> n \<le> length block \<Longrightarrow>
   decode_block_loop block n r order = None"
  by (induction n arbitrary: r order)
    (auto simp: Let_def take_Suc_conv_app_nth split: prod.splits)

lemma decode_block_loop_value:
  assumes "\<forall>c\<in>set (take n block). 0 \<le> reverse_alphabet c" "n \<le> length block" "n + j \<le> 11"
    "order = of_nat (58 ^ j)" "t = unat r + of_base 58 (letter_values (take n block)) * 58 ^ j"
  shows "decode_block_loop block n r order =
    (if t < 18446744073709551616 then Some (of_nat t) else None)"
  using assms
proof (induction n arbitrary: r order j t)
  case 0
  then show ?case using unat_lt_64 [of r] by (simp add: letter_values_def)
next
  case (Suc n)
  let ?d = "nat (reverse_alphabet (block ! n))"
  let ?v = "of_base 58 (letter_values (take n block))"
  have tk: "take (Suc n) block = take n block @ [block ! n]"
    using Suc.prems(2) by (simp add: take_Suc_conv_app_nth)
  have d: "0 \<le> reverse_alphabet (block ! n)" using Suc.prems(1) tk by simp
  then have "?d < 58" by (simp add: reverse_alphabet_inv)
  have "(58 :: nat) ^ j \<le> 58 ^ 10" using Suc.prems(3) by (intro power_increasing) auto
  then have o: "unat order = 58 ^ j"
    unfolding Suc.prems(4) by (intro unat_of_nat_small) simp
  have ud: "unat (of_int (reverse_alphabet (block ! n)) :: u64) = ?d"
    using d \<open>?d < 58\<close> by (simp add: unat_of_int_64)
  have t: "t = unat r + 58 ^ j * ?d + ?v * 58 ^ (j + 1)"
    unfolding Suc.prems(5) tk by (simp add: letter_values_def algebra_simps)
  obtain lo hi where m: "mul128 order (of_int (reverse_alphabet (block ! n))) = (lo, hi)"
    by fastforce
  note c = checked_mul_add [OF m, of r, unfolded o ud]
  show ?case
  proof (cases "unat r + 58 ^ j * ?d < 18446744073709551616")
    case True
    have "decode_block_loop block n (r + lo) (order * alphabet_size) =
      (if t < 18446744073709551616 then Some (of_nat t) else None)"
    proof (rule Suc.IH)
      show "order * alphabet_size = of_nat (58 ^ (j + 1))"
        by (simp add: Suc.prems(4) alphabet_size_def)
      show "t = unat (r + lo) + ?v * 58 ^ (j + 1)"
        using t c(2) [OF True] by simp
    qed (use Suc.prems tk in auto)
    with True c(1) d m show ?thesis by simp
  next
    case False
    with t have "\<not> t < 18446744073709551616" by linarith
    with False c(1) d m show ?thesis by simp
  qed
qed

lemma decode_block_loop_take:
  "n \<le> sz \<Longrightarrow> decode_block_loop (take sz block) n r order = decode_block_loop block n r order"
  by (induction n arbitrary: r order) (simp_all add: Let_def split: prod.splits)

lemma decode_block_take: "decode_block (take sz block) sz = decode_block block sz"
  by (simp only: decode_block_def decode_block_loop_take [OF order_refl])

lemma decoded_block_sizes_encoded:
  "s \<le> 8 \<Longrightarrow> decoded_block_sizes (encoded_block_sizes ! s) = int s \<and> encoded_block_sizes ! s \<le> 11"
  by (erule block_size_cases)
    (simp_all add: decoded_block_sizes_def decoded_block_sizes_data_code encoded_block_sizes_def)

lemma encoded_size_cases:
  assumes "sz \<le> (11 :: nat)"
  obtains "sz = 0" | "sz = 1" | "sz = 2" | "sz = 3" | "sz = 4" | "sz = 5" | "sz = 6" | "sz = 7"
    | "sz = 8" | "sz = 9" | "sz = 10" | "sz = 11"
proof -
  have "sz \<in> set [0..<12]" using assms by simp
  also have "[0..<12] = [0, 1, 2, 3, 4, 5, 6, 7, 8, 9, 10, 11]" by code_simp
  finally show thesis using that by auto
qed

lemma encoded_block_sizes_decoded:
  "sz \<le> 11 \<Longrightarrow> decoded_block_sizes sz = -1 \<or>
   0 \<le> decoded_block_sizes sz \<and> decoded_block_sizes sz \<le> 8 \<and>
   encoded_block_sizes ! nat (decoded_block_sizes sz) = sz"
  by (erule encoded_size_cases)
    (simp_all add: decoded_block_sizes_def decoded_block_sizes_data_code encoded_block_sizes_def)

lemma size_check:
  assumes "s \<le> 8"
  shows "(s < full_block_size \<and> push_bit (8 * s) 1 \<le> (num :: u64)) \<longleftrightarrow> \<not> unat num < 256 ^ s"
proof (cases "s = 8")
  case True
  then show ?thesis using unat_lt_64 [of num] by (simp add: full_block_size_def)
next
  case False
  then have "s \<le> 7" using assms by simp
  then have "(256 :: nat) ^ s \<le> 256 ^ 7" by (intro power_increasing) auto
  moreover have "unat (push_bit (8 * s) (1 :: u64)) = 2 ^ (8 * s) mod 2 ^ 64"
    using unat_push_bit_mod [of "8 * s" "1 :: u64"] by simp
  moreover have "(2 :: nat) ^ (8 * s) = 256 ^ s" by (simp add: power_mult)
  ultimately have "unat (push_bit (8 * s) (1 :: u64)) = 256 ^ s" by simp
  then show ?thesis
    using False assms unfolding full_block_size_def word_le_unat by (simp add: not_less)
qed

lemma decode_block_spec:
  assumes "sz \<le> 11" "sz \<le> length block" "s = nat (decoded_block_sizes sz)"
    "v = of_base 58 (letter_values (take sz block))"
  shows "decode_block block sz =
    (if 0 < s \<and> (\<forall>c\<in>set (take sz block). 0 \<le> reverse_alphabet c) \<and> v < 256 ^ s
     then Some (map of_nat (to_base 256 s v)) else None)"
proof (cases "0 < s \<and> (\<forall>c\<in>set (take sz block). 0 \<le> reverse_alphabet c)")
  case True
  with assms have s: "0 < decoded_block_sizes sz" "s \<le> 8" and "int s = decoded_block_sizes sz"
    using encoded_block_sizes_decoded [OF assms(1)] by auto
  have "(256 :: nat) ^ s \<le> 256 ^ 8" using s(2) by (intro power_increasing) auto
  then have w: "256 ^ s \<le> (18446744073709551616 :: nat)" by simp
  have "decode_block_loop block sz 0 1 = (if v < 18446744073709551616 then Some (of_nat v) else None)"
    using True assms decode_block_loop_value [of sz block 0 1 v 0] by simp
  moreover have "unat (of_nat v :: u64) = v" if "v < 18446744073709551616"
    using that by (intro unat_of_nat_small) simp
  ultimately show ?thesis
    using True s w
    unfolding decode_block_def Let_def assms(3) [symmetric] size_check [OF s(2)]
    by (auto simp: uint_64_to_8be_digits)
next
  case False
  then consider "decoded_block_sizes sz \<le> 0" | "\<exists>c\<in>set (take sz block). reverse_alphabet c < 0"
    using assms(3) by force
  then show ?thesis
    using False assms decode_block_loop_invalid [of sz block 0 1]
    by cases (auto simp: decode_block_def Let_def)
qed

lemma decode_block_letters:
  assumes "0 < length b" "length b \<le> 8" "sz = encoded_block_sizes ! length b"
    "sz \<le> length block" "take sz block = block_letters b"
  shows "decode_block block sz = Some b"
proof -
  let ?ds = "to_base 58 sz (be_value b)"
  have "\<forall>d\<in>set ?ds. d < 58" using to_base_less [of 58] by auto
  moreover have "be_value b < 58 ^ sz"
    using be_value_less [of b] block_fits [OF assms(2)] assms(3) by simp
  ultimately have "of_base 58 (letter_values (take sz block)) = be_value b"
    using assms(3,5) by (simp add: block_letters_def letter_values_alphabet of_base_to_base)
  moreover have "\<forall>c\<in>set (take sz block). 0 \<le> reverse_alphabet c"
    using assms(3,5) \<open>\<forall>d\<in>set ?ds. d < 58\<close> by (auto simp: block_letters_def reverse_alphabet_letter)
  moreover have "decoded_block_sizes sz = int (length b)" "sz \<le> 11"
    using decoded_block_sizes_encoded [OF assms(2)] assms(3) by auto
  ultimately show ?thesis
    using assms(1,4) be_value_less [of b] to_base_be_value [of b] by (simp add: decode_block_spec)
qed

lemma decode_block_canonical:
  assumes "decode_block block sz = Some b" "sz \<le> 11" "sz \<le> length block"
  shows "0 < length b" "length b \<le> 8" "encoded_block_sizes ! length b = sz"
    "block_letters b = take sz block" "length b = nat (decoded_block_sizes sz)"
proof -
  let ?s = "nat (decoded_block_sizes sz)" and ?v = "of_base 58 (letter_values (take sz block))"
  from assms have *: "0 < ?s" "\<forall>c\<in>set (take sz block). 0 \<le> reverse_alphabet c" "?v < 256 ^ ?s"
    "b = map of_nat (to_base 256 ?s ?v)"
    by (auto simp: decode_block_spec split: if_splits)
  then show l: "0 < length b" "length b \<le> 8" "encoded_block_sizes ! length b = sz"
    "length b = nat (decoded_block_sizes sz)"
    using encoded_block_sizes_decoded [OF assms(2)] by auto
  have "length (letter_values (take sz block)) = sz"
    using assms(3) by (simp add: letter_values_def)
  then have "to_base 58 sz ?v = letter_values (take sz block)"
    using to_base_of_base [OF alphabet_letter_values(2) [OF *(2)]] by simp
  then show "block_letters b = take sz block"
    using * l(3,4) alphabet_letter_values(1) [OF *(2)] by (simp add: block_letters_def be_value_to_base)
qed

section \<open>Whole strings\<close>

text \<open>The functional view: block by block, the last one shorter.\<close>

function encode_fun :: "bytes \<Rightarrow> bytes" where
  "encode_fun d = (if d = [] then [] else block_letters (take 8 d) @ encode_fun (drop 8 d))"
  by pat_completeness auto
termination by (relation "measure length") auto

function decode_fun :: "bytes \<Rightarrow> bytes option" where
  "decode_fun e =
     (if e = [] then Some []
      else case decode_block (take 11 e) (length (take 11 e)) of
             None \<Rightarrow> None
           | Some b \<Rightarrow> map_option (\<lambda>r. b @ r) (decode_fun (drop 11 e)))"
  by pat_completeness auto
termination by (relation "measure length") auto

declare encode_fun.simps [simp del] decode_fun.simps [simp del]

lemma fun_Nil [simp]: "encode_fun [] = []" "decode_fun [] = Some []"
  by (simp_all add: encode_fun.simps decode_fun.simps)

lemma encode_fun_block: "length x = 8 \<Longrightarrow> encode_fun (x @ y) = block_letters x @ encode_fun y"
  by (subst encode_fun.simps) auto

lemma decode_fun_block:
  "length x = 11 \<Longrightarrow> decode_fun (x @ y) =
   (case decode_block x 11 of None \<Rightarrow> None | Some b \<Rightarrow> map_option (\<lambda>r. b @ r) (decode_fun y))"
  by (subst decode_fun.simps) (auto split: option.split)

lemma encode_fun_append:
  "length x mod 8 = 0 \<Longrightarrow> encode_fun (x @ y) = encode_fun x @ encode_fun y"
proof (induction x rule: encode_fun.induct)
  case (1 x)
  show ?case
  proof (cases "x = []")
    case False
    with 1(2) have "8 \<le> length x"
      by (metis length_0_conv mod_less not_less)
    with 1(2) have "length (drop 8 x) mod 8 = 0" "length (take 8 x) = 8"
      by (simp_all add: le_mod_geq)
    with 1(1) [OF False] show ?thesis
      using encode_fun_block [of "take 8 x" "drop 8 x @ y"] encode_fun_block [of "take 8 x" "drop 8 x"]
      by (metis append.assoc append_take_drop_id)
  qed simp
qed

lemma decode_fun_append:
  "length x mod 11 = 0 \<Longrightarrow> decode_fun (x @ y) =
   (case decode_fun x of None \<Rightarrow> None | Some a \<Rightarrow> map_option (\<lambda>r. a @ r) (decode_fun y))"
proof (induction x rule: length_induct)
  case (1 x)
  show ?case
  proof (cases "x = []")
    case True
    then show ?thesis by (cases "decode_fun y") simp_all
  next
    case False
    with 1(2) have l: "11 \<le> length x"
      by (metis length_0_conv mod_less not_less)
    with 1(2) have "length (drop 11 x) mod 11 = 0" "length (take 11 x) = 11"
      by (simp_all add: le_mod_geq)
    with 1(1) [rule_format, of "drop 11 x"] l
    have IH: "decode_fun (drop 11 x @ y) = (case decode_fun (drop 11 x) of
        None \<Rightarrow> None | Some a \<Rightarrow> map_option (\<lambda>r. a @ r) (decode_fun y))"
      and blk: "decode_fun (take 11 x @ z) = (case decode_block (take 11 x) 11 of
        None \<Rightarrow> None | Some b \<Rightarrow> map_option (\<lambda>r. b @ r) (decode_fun z))" for z
      by (simp_all add: decode_fun_block)
    have "decode_fun (take 11 x @ drop 11 x @ y) = (case decode_fun (take 11 x @ drop 11 x) of
        None \<Rightarrow> None | Some a \<Rightarrow> map_option (\<lambda>r. a @ r) (decode_fun y))"
      unfolding blk IH by (cases "decode_fun y") (auto split: option.splits)
    then show ?thesis by (metis append.assoc append_take_drop_id)
  qed
qed

lemma full_block_lengths [simp]:
  "encoded_block_sizes ! 8 = 11" "decoded_block_sizes 11 = 8"
  by (simp_all add: encoded_block_sizes_def decoded_block_sizes_def decoded_block_sizes_data_code)

lemma encode_full_blocks_fun:
  assumes "8 * (i + n) \<le> length d" "length pre = 11 * i"
  shows "encode_full_blocks d n i (pre @ replicate (11 * n + t) (alphabet ! 0)) =
    Some (pre @ encode_fun (take (8 * n) (drop (8 * i) d)) @ replicate t (alphabet ! 0))"
  using assms
proof (induction n arbitrary: i pre)
  case (Suc n)
  let ?b = "take 8 (drop (8 * i) d)"
  have b: "length ?b = 8" using Suc.prems(1) by simp
  have sp: "replicate (11 * Suc n + t) (alphabet ! 0) = replicate 11 (alphabet ! 0) @ replicate (11 * n + t) (alphabet ! 0)"
    by (simp flip: replicate_add)
  have "encode_block (drop (8 * i) d) 8 (11 * i) (pre @ replicate (11 * Suc n + t) (alphabet ! 0)) =
    Some ((pre @ block_letters ?b) @ replicate (11 * n + t) (alphabet ! 0))"
    using Suc.prems encode_block_letters [of 8 "drop (8 * i) d" "11 * i" "pre @ replicate (11 * Suc n + t) (alphabet ! 0)"]
    unfolding sp by simp
  moreover have "take (8 * Suc n) (drop (8 * i) d) = ?b @ take (8 * n) (drop (8 * Suc i) d)"
    using take_add [of 8 "8 * n" "drop (8 * i) d"] by (simp add: add.commute)
  ultimately show ?case
    using Suc.IH [of "Suc i" "pre @ block_letters ?b"] Suc.prems b
    by (simp add: full_block_size_def full_encoded_block_size_def mult.commute encode_fun_block)
qed simp

lemma encode_is_fun: "encode d = Some (encode_fun d)"
proof (cases "d = []")
  case False
  let ?n = "length d div 8" and ?l = "length d mod 8"
  let ?last = "drop (8 * ?n) d"
  have n: "8 * ?n \<le> length d" "length ?last = ?l" by (simp_all add: minus_mult_div_eq_mod)
  have e: "encode_fun d = encode_fun (take (8 * ?n) d) @ encode_fun ?last"
    using encode_fun_append [of "take (8 * ?n) d" ?last] n(1) by simp
  have f: "encode_full_blocks d ?n 0 (replicate (?n * 11 + encoded_block_sizes ! ?l) (alphabet ! 0)) =
    Some (encode_fun (take (8 * ?n) d) @ replicate (encoded_block_sizes ! ?l) (alphabet ! 0))"
    using encode_full_blocks_fun [of 0 ?n d "[]" "encoded_block_sizes ! ?l"] n(1) by (simp add: mult.commute)
  have le: "length (encode_fun (take (8 * k) d)) = 11 * k" if "8 * k \<le> length d" for k
    using that
  proof (induction k)
    case (Suc k)
    have "take (8 * Suc k) d = take (8 * k) d @ take 8 (drop (8 * k) d)"
      using take_add [of "8 * k" 8 d] by (simp add: add.commute)
    with Suc show ?case
      using encode_fun_block [of "take 8 (drop (8 * k) d)" "[]"]
      by (simp add: encode_fun_append)
  qed simp
  have "encode_block ?last ?l (?n * 11) (encode_fun (take (8 * ?n) d) @ replicate (encoded_block_sizes ! ?l) (alphabet ! 0)) =
    Some (encode_fun (take (8 * ?n) d) @ block_letters ?last)"
    using encode_block_letters [of ?l ?last "?n * 11"
        "encode_fun (take (8 * ?n) d) @ replicate (encoded_block_sizes ! ?l) (alphabet ! 0)"] n le [OF n(1)]
    by (simp add: mult.commute less_imp_le)
  moreover have "encode_fun ?last = (if 0 < ?l then block_letters ?last else [])"
    using n(2) by (subst encode_fun.simps) auto
  moreover have "encoded_block_sizes ! 0 = 0" by (simp add: encoded_block_sizes_def)
  ultimately show ?thesis
    using False f by (simp add: encode_def Let_def full_block_size_def full_encoded_block_size_def e mult.commute)
qed (simp add: encode_def)

lemma decode_block_length:
  "decode_block block sz = Some b \<Longrightarrow> sz \<le> 11 \<Longrightarrow> sz \<le> length block \<Longrightarrow>
   length b = nat (decoded_block_sizes sz)"
  by (rule decode_block_canonical(5))

lemma decode_full_blocks_fun:
  assumes "11 * (i + n) \<le> length e" "length pre = 8 * i"
  shows "decode_full_blocks e n i (pre @ replicate (8 * n + t) 0) =
    map_option (\<lambda>a. pre @ a @ replicate t 0) (decode_fun (take (11 * n) (drop (11 * i) e)))"
  using assms
proof (induction n arbitrary: i pre)
  case (Suc n)
  let ?b = "take 11 (drop (11 * i) e)"
  have b: "length ?b = 11" using Suc.prems(1) by simp
  have tk: "take (11 * Suc n) (drop (11 * i) e) = ?b @ take (11 * n) (drop (11 * Suc i) e)"
    using take_add [of 11 "11 * n" "drop (11 * i) e"] by (simp add: add.commute)
  have dt: "decode_fun (take (11 * Suc n) (drop (11 * i) e)) = (case decode_block ?b 11 of None \<Rightarrow> None
      | Some b \<Rightarrow> map_option (\<lambda>r. b @ r) (decode_fun (take (11 * n) (drop (11 * Suc i) e))))"
    unfolding tk by (rule decode_fun_block [OF b])
  have blk: "decode_block (drop (i * full_encoded_block_size) e) full_encoded_block_size = decode_block ?b 11"
    by (simp add: decode_block_take full_encoded_block_size_def mult.commute)
  show ?case
  proof (cases "decode_block ?b 11")
    case None
    then show ?thesis
      unfolding dt decode_full_blocks.simps blk by simp
  next
    case (Some x)
    have x: "length x = 8" using decode_block_length [OF Some] b by simp
    have "store_at (8 * i) x (pre @ replicate (8 * Suc n + t) 0) = Some ((pre @ x) @ replicate (8 * n + t) 0)"
      using Suc.prems(2) x by (simp add: store_at_def drop_replicate)
    then have "store_at (i * full_block_size) x (pre @ replicate (8 * Suc n + t) 0) =
        Some ((pre @ x) @ replicate (8 * n + t) 0)"
      by (simp add: full_block_size_def mult.commute)
    moreover have "decode_full_blocks e n (i + 1) ((pre @ x) @ replicate (8 * n + t) 0) =
        map_option (\<lambda>a. (pre @ x) @ a @ replicate t 0) (decode_fun (take (11 * n) (drop (11 * Suc i) e)))"
      using Suc.IH [of "Suc i" "pre @ x"] Suc.prems x by simp
    ultimately show ?thesis
      using Some unfolding dt decode_full_blocks.simps blk
      by (simp add: option.map_comp comp_def)
  qed
qed simp

lemma length_decode_fun:
  assumes "decode_fun e = Some d" "length e mod 11 = 0"
  shows "length d = length e div 11 * 8"
  using assms
proof (induction e arbitrary: d rule: length_induct)
  case (1 e)
  show ?case
  proof (cases "e = []")
    case False
    with 1(3) have l: "11 \<le> length e"
      by (metis length_0_conv mod_less not_less)
    obtain b r where br: "decode_block (take 11 e) 11 = Some b" "decode_fun (drop 11 e) = Some r" "d = b @ r"
      using 1(2) l decode_fun_block [of "take 11 e" "drop 11 e"]
      by (cases "decode_block (take 11 e) 11"; cases "decode_fun (drop 11 e)") auto
    have "length b = 8" using decode_block_length [OF br(1)] l by simp
    moreover have "length r = (length e - 11) div 11 * 8"
      using 1(1) [rule_format, OF _ br(2)] l 1(3) by (simp add: le_mod_geq)
    moreover have "length e div 11 = Suc ((length e - 11) div 11)"
      using l by (simp add: le_div_geq)
    ultimately show ?thesis using br(3) by simp
  qed (use 1 in simp)
qed

lemma decode_is_fun: "decode e = decode_fun e"
proof (cases "e = []")
  case False
  let ?n = "length e div 11" and ?l = "length e mod 11"
  let ?last = "drop (11 * ?n) e" and ?ds = "decoded_block_sizes (length e mod 11)"
  have n: "11 * ?n \<le> length e" "length ?last = ?l" by (simp_all add: minus_mult_div_eq_mod)
  have l11: "?l \<le> 11" using mod_less_divisor [of 11 "length e"] by linarith
  have ap: "decode_fun e = (case decode_fun (take (11 * ?n) e) of None \<Rightarrow> None
      | Some a \<Rightarrow> map_option (\<lambda>r. a @ r) (decode_fun ?last))"
    using decode_fun_append [of "take (11 * ?n) e" ?last] n(1) by simp
  have last: "decode_fun ?last = (if 0 < ?l then decode_block ?last ?l else Some [])"
  proof (cases "?last = []")
    case False
    then have "take 11 ?last = ?last" "drop 11 ?last = []" "0 < ?l" using n(2) l11 by (auto simp del: drop_drop)
    then show ?thesis using n(2) False
      by (subst decode_fun.simps) (simp del: drop_drop split: option.split)
  qed (use n(2) in simp)
  have full: "decode_full_blocks e ?n 0 (replicate (?n * 8 + nat ?ds) 0) =
     map_option (\<lambda>a. a @ replicate (nat ?ds) 0) (decode_fun (take (11 * ?n) e))"
    using decode_full_blocks_fun [of 0 ?n e "[]" "nat ?ds"] n(1) by (simp add: mult.commute)
  show ?thesis
  proof (cases "?ds < 0")
    case True
    then have "decode_block ?last ?l = None" "0 < ?l"
      by (auto simp: decode_block_def decoded_block_sizes_def decoded_block_sizes_data_code
          intro!: gr0I)
    with True False show ?thesis
      by (auto simp: ap last decode_def Let_def full_encoded_block_size_def split: option.split)
  next
    case ds: False
    have st: "store_at (8 * ?n) b (a @ replicate (nat ?ds) 0) = Some (a @ b)"
      if "decode_fun (take (11 * ?n) e) = Some a" "decode_block ?last ?l = Some b" for a b
      using length_decode_fun [OF that(1)] decode_block_length [OF that(2) l11] n
      by (simp add: store_at_def)
    have "decoded_block_sizes 0 = 0"
      by (simp add: decoded_block_sizes_def decoded_block_sizes_data_code)
    then show ?thesis
      using False ds full st
      by (auto simp: ap last decode_def Let_def full_encoded_block_size_def full_block_size_def
          mult.commute split: option.split)
  qed
qed (simp add: decode_def)

lemma decode_encode_fun: "decode_fun (encode_fun d) = Some d"
proof (induction d rule: encode_fun.induct)
  case (1 d)
  show ?case
  proof (cases "d = []")
    case False
    let ?b = "take 8 d" and ?e = "block_letters (take 8 d) @ encode_fun (drop 8 d)"
    have b: "0 < length ?b" "length ?b \<le> 8" using False by auto
    have e: "encode_fun d = ?e" using False by (subst encode_fun.simps) simp
    have le: "length (block_letters ?b) = encoded_block_sizes ! length ?b" by simp
    have ne: "?e \<noteq> []"
      using b(1) block_fits [OF b(2)] power_strict_increasing [of 0 "length ?b" "256::nat"]
        length_block_letters [of ?b] by (auto simp del: length_block_letters)
    show ?thesis
    proof (cases "8 \<le> length d")
      case True
      then have "length (block_letters ?b) = 11" by simp
      moreover from this have "decode_block (block_letters ?b) 11 = Some ?b"
        using decode_block_letters [OF b, of 11 "block_letters ?b"] True by simp
      ultimately show ?thesis
        using 1 [OF False] by (simp add: e decode_fun_block del: length_block_letters)
    next
      case small: False
      then have "encode_fun d = block_letters d" "?b = d" by (simp_all add: e)
      moreover have "decode_block (block_letters d) (encoded_block_sizes ! length d) = Some d"
        using decode_block_letters [OF b, of "encoded_block_sizes ! length d" "block_letters d"] small by simp
      moreover have "encoded_block_sizes ! length d \<le> 11"
        using decoded_block_sizes_encoded [of "length d"] small by simp
      ultimately show ?thesis
        using ne by (subst decode_fun.simps) (simp add: e)
    qed
  qed simp
qed

lemma encode_decode_fun: "decode_fun e = Some d \<Longrightarrow> encode_fun d = e"
proof (induction e arbitrary: d rule: length_induct)
  case (1 e)
  show ?case
  proof (cases "e = []")
    case False
    let ?sz = "length (take 11 e)"
    obtain b r where br: "decode_block (take 11 e) ?sz = Some b" "decode_fun (drop 11 e) = Some r" "d = b @ r"
      using 1(2) False
      by (cases "decode_block (take 11 e) ?sz"; cases "decode_fun (drop 11 e)";
          simp add: decode_fun.simps [of e])
    note c = decode_block_canonical [OF br(1)]
    have r: "encode_fun r = drop 11 e" using 1(1) br(2) False by simp
    show ?thesis
    proof (cases "11 \<le> length e")
      case True
      then have "length b = 8" using decode_block_length [OF br(1)] by simp
      then have "encode_fun d = block_letters b @ drop 11 e"
        using br(3) r by (simp add: encode_fun_block)
      then show ?thesis using c(4) True by simp
    next
      case small: False
      then have "r = []" using br(2) by simp
      moreover have "encode_fun b = block_letters b" using c(1,2) small by (subst encode_fun.simps) auto
      ultimately show ?thesis using c(4) br(3) small by simp
    qed
  qed (use 1 in simp)
qed

section \<open>Addresses\<close>

lemma get_varint_data_parts:
  "get_varint_data (tag :: u64) = writeVarint tag" "get_varint_data tag \<noteq> []"
  by (simp_all add: get_varint_data_def writeVarint_write_varint write_varint_nat)

context hash_function
begin

lemma length_checksum [simp]: "length (take addr_checksum_size (h m)) = 4"
  by (simp add: addr_checksum_size_def)

lemma decode_encode_addr: "Option.bind (encode_addr h tag d) (decode_addr h) = Some (tag, d)"
proof -
  let ?buf = "get_varint_data tag @ d"
  have "decode (encode_fun (?buf @ take addr_checksum_size (h ?buf))) = Some (?buf @ take addr_checksum_size (h ?buf))"
    by (simp add: decode_is_fun decode_encode_fun)
  moreover have "read_varint ?buf = (int (length (get_varint_data tag)), tag)"
    using read_varint_readVarint(1) [OF _ readVarint_write, of tag d] by (simp add: get_varint_data_parts)
  ultimately show ?thesis
    using get_varint_data_parts(2) [of tag]
    by (simp add: encode_addr_def decode_addr_def Let_def encode_is_fun) (simp add: addr_checksum_size_def)
qed

end

context hash_function
begin

lemma encode_decode_addr:
  assumes "decode_addr h addr = Some (tag, d)" "d \<noteq> []"
  shows "encode_addr h tag d = Some addr"
proof -
  obtain a where a: "decode addr = Some a" "\<not> length a \<le> 4"
    using assms(1) by (auto simp: decode_addr_def addr_checksum_size_def split: option.splits if_splits)
  define body where "body = take (length a - 4) a"
  obtain n and t :: u64 where n: "read_varint body = (n, t)" by fastforce
  have *: "take 4 (h body) = drop (length a - 4) a" "0 < n" "t = tag" "d = drop (nat n) body"
    using assms(1) a n
    by (auto simp: decode_addr_def addr_checksum_size_def Let_def body_def split: if_splits)
  have "nat n < length body" using *(4) assms(2) by auto
  from readVarint_read_varint(2) [OF _ n _ this] *(2-4) have "readVarint body = Inr (tag, d)" by simp
  then have "body = get_varint_data tag @ d"
    using readVarint_canonical [of body tag d] by (simp add: get_varint_data_parts)
  moreover have "a = body @ take 4 (h body)"
    by (simp add: *(1)) (simp add: body_def)
  moreover have "encode_fun a = addr"
    using a(1) encode_decode_fun by (simp add: decode_is_fun)
  ultimately show ?thesis
    by (simp add: encode_addr_def Let_def encode_is_fun addr_checksum_size_def)
qed

end

section \<open>Properties\<close>

text \<open>C25. Base-58 coding never writes outside of its buffer and decoding inverts encoding, for
  data of every length.\<close>

theorem base58_decode_encode: "\<exists>e. encode d = Some e \<and> decode e = Some d"
  by (simp add: encode_is_fun decode_is_fun decode_encode_fun)

text \<open>C24. Base-58 decoding is canonical: a text that decodes to some data is the text of that
  data, so no two texts decode to the same data.\<close>

theorem base58_canonical:
  assumes "decode e = Some d"
  shows "encode d = Some e"
  using assms by (simp add: encode_is_fun decode_is_fun encode_decode_fun)

theorem base58_canonical_witness:
  "decode (bytes_of ''5Q'') = Some [0xFF] \<and> encode [0xFF] = Some (bytes_of ''5Q'')"
proof -
  have "decode (bytes_of ''5Q'') = Some [0xFF]" by code_simp
  with base58_canonical [OF this] show ?thesis by blast
qed

text \<open>An address encodes to a text that decodes to its tag and its data.\<close>

lemma address_roundtrip:
  "\<exists>a. encode_addr cn_fast_hash tag d = Some a \<and> decode_addr cn_fast_hash a = Some (tag, d)"
  using cn_fast.decode_encode_addr [of tag d] by (auto simp: bind_eq_Some_conv)

text \<open>An address is not malleable: a text that decodes to a tag and nonempty data is the
  text of that tag and data, so an account has one textual address for each prefix.\<close>

lemma address_canonical:
  assumes "decode_addr cn_fast_hash a = Some (tag, d)" "d \<noteq> []"
  shows "encode_addr cn_fast_hash tag d = Some a"
  using cn_fast.encode_decode_addr [OF assms] .

end
