(* ===== verification/CoreTypes.thy ===== *)
theory CoreTypes
  imports Prelude
begin

text \<open>The data types of transactions, blocks and accounts, \<open>src/include/cryptonote.h\<close>. A variant is
  a datatype, a struct a record, and a struct that derives from another a record extension. A
  32-byte value (hash, key, key image) and a 64-byte signature are byte lists; the predicates
  \<open>pod32\<close> and \<open>pod64\<close> state their length.\<close>

type_synonym hash = bytes
type_synonym public_key = bytes
type_synonym secret_key = bytes
type_synonym key_image = bytes
type_synonym key_derivation = bytes
type_synonym signature = bytes

definition pod32 :: "bytes \<Rightarrow> bool" where
  "pod32 b \<longleftrightarrow> length b = 32"

definition pod64 :: "bytes \<Rightarrow> bool" where
  "pod64 b \<longleftrightarrow> length b = 64"

definition NULL_HASH :: hash where
  "NULL_HASH = replicate 32 0"

definition NULL_PUBLIC_KEY :: public_key where
  "NULL_PUBLIC_KEY = replicate 32 0"

definition NULL_SECRET_KEY :: secret_key where
  "NULL_SECRET_KEY = replicate 32 0"

datatype TransactionInput =
    BaseInput (blockIndex: u32)
  | KeyInput (input_amount: u64) (outputIndexes: "u32 list") (keyImage: key_image)

datatype TransactionOutputTarget = KeyOutput (target_key: public_key)

record TransactionOutput =
  out_amount :: u64
  out_target :: TransactionOutputTarget

record TransactionPrefix =
  tx_version :: byte
  unlockTime :: u64
  inputs :: "TransactionInput list"
  outputs :: "TransactionOutput list"
  extra :: bytes

record Transaction = TransactionPrefix +
  signatures :: "signature list list"

type_synonym BaseTransaction = TransactionPrefix

record ParentBlock =
  pb_majorVersion :: byte
  pb_minorVersion :: byte
  pb_previousBlockHash :: hash
  pb_transactionCount :: u16
  baseTransactionBranch :: "hash list"
  pb_baseTransaction :: BaseTransaction
  blockchainBranch :: "hash list"

record BlockHeader =
  majorVersion :: byte
  minorVersion :: byte
  nonce :: u32
  timestamp :: u64
  previousBlockHash :: hash

record BlockTemplate = BlockHeader +
  parentBlock :: ParentBlock
  baseTransaction :: Transaction
  transactionHashes :: "hash list"

record AccountPublicAddress =
  spendPublicKey :: public_key
  viewPublicKey :: public_key

record AccountKeys =
  account_address :: AccountPublicAddress
  spendSecretKey :: secret_key
  viewSecretKey :: secret_key

record KeyPair =
  kp_publicKey :: public_key
  kp_secretKey :: secret_key

record RawBlock =
  rb_block :: bytes
  rb_transactions :: "bytes list"

end
