(* ===== verification/BinarySerializer.thy ===== *)
theory BinarySerializer
  imports Varint CoreTypes
begin

text \<open>The binary serializers, \<open>src/src/serialization/binary_output_stream_serializer.cpp\<close> and
  \<open>binary_input_stream_serializer.cpp\<close>, and the container overloads of
  \<open>serialization_overloads.h\<close>. A \<open>serialize\<close> function of the source that runs in both directions
  is two definitions here, \<open>write_...\<close> and \<open>read_...\<close>: the first returns the bytes it appends to
  the output stream, the second takes the bytes that remain and returns the value and the rest,
  or the exception.

  The contract of such a pair is the locale \<open>codec\<close>: a well-formed value is read back from what was
  written for it, and whatever is read was written for a well-formed value (no second
  encoding). Its lemma \<open>container_codec\<close> lifts the contract to the containers.\<close>

section \<open>Definitions\<close>

datatype ser_error =
    StreamFailure stream_error
  | WrongTransactionVersion
  | UnknownVariantTag
  | UnexpectedSignaturesSize
  | SignaturesNotExpected
  | InvalidBlobSize
  | TransactionHashError
  | WrongTransactionsNumber
  | WrongBranchSize
  | NoMergeMiningTag
  | WrongTagDepth
  | WrongMajorVersion
  | FailedToUnpack

type_synonym 'a reader = "bytes \<Rightarrow> ser_error + ('a \<times> bytes)"

definition liftE :: "stream_error + 'a \<Rightarrow> ser_error + 'a" where
  "liftE r = map_sum StreamFailure id r"

subsection \<open>Output\<close>

definition out_beginArray :: "nat \<Rightarrow> bytes" where
  "out_beginArray sz = writeVarint (of_nat sz :: u64)"

definition out_uint8 :: "byte \<Rightarrow> bytes" where
  "out_uint8 v = writeVarint (ucast v :: u64)"

definition out_uint16 :: "u16 \<Rightarrow> bytes" where
  "out_uint16 v = writeVarint (ucast v :: u64)"

definition out_int16 :: "u16 \<Rightarrow> bytes" where
  "out_int16 v = writeVarint (ucast v :: u64)"

definition out_uint32 :: "u32 \<Rightarrow> bytes" where
  "out_uint32 v = writeVarint (ucast v :: u64)"

definition out_int32 :: "u32 \<Rightarrow> bytes" where
  "out_int32 v = writeVarint (ucast v :: u64)"

definition out_uint64 :: "u64 \<Rightarrow> bytes" where
  "out_uint64 v = writeVarint v"

definition out_int64 :: "u64 \<Rightarrow> bytes" where
  "out_int64 v = writeVarint v"

definition out_bool :: "bool \<Rightarrow> bytes" where
  "out_bool v = [if v then 1 else 0]"

definition out_string :: "bytes \<Rightarrow> bytes" where
  "out_string v = writeVarint (of_nat (length v) :: u64) @ v"

definition out_binary :: "bytes \<Rightarrow> bytes" where
  "out_binary v = v"

subsection \<open>Input\<close>

definition in_varint :: "'a::len word reader" where
  "in_varint i = liftE (readVarint i)"

definition in_beginArray :: "nat reader" where
  "in_beginArray i = bindE (in_varint i) (\<lambda>(sz :: u64, i'). Inr (unat sz, i'))"

definition in_uint8 :: "byte reader" where
  "in_uint8 i = in_varint i"

definition in_uint16 :: "u16 reader" where
  "in_uint16 i = in_varint i"

definition in_int16 :: "u16 reader" where
  "in_int16 i = in_varint i"

definition in_uint32 :: "u32 reader" where
  "in_uint32 i = in_varint i"

definition in_int32 :: "u32 reader" where
  "in_int32 i = in_varint i"

definition in_uint64 :: "u64 reader" where
  "in_uint64 i = in_varint i"

definition in_int64 :: "u64 reader" where
  "in_int64 i = in_varint i"

definition in_binary :: "nat \<Rightarrow> bytes reader" where
  "in_binary sz i = liftE (read_bytes sz i)"

text \<open>A one-byte value written and read with \<open>binary\<close>.\<close>

definition out_tag :: "byte \<Rightarrow> bytes" where
  "out_tag t = out_binary [t]"

definition in_tag :: "byte reader" where
  "in_tag i = bindE (in_binary 1 i) (\<lambda>(d, i'). Inr (hd d, i'))"

definition in_bool :: "bool reader" where
  "in_bool i = bindE (liftE (read_uint8 i)) (\<lambda>(b, i'). Inr (b \<noteq> 0, i'))"

text \<open>The limit on the size of a merge mining tag, \<open>src/src/config/cryptonote_config.h\<close>.\<close>

definition MAX_EXTRA_SIZE :: u64 where
  "MAX_EXTRA_SIZE = 2200"

definition in_string :: "bytes \<Rightarrow> bytes reader" where
  "in_string name i =
     bindE (in_uint64 i) (\<lambda>(sz, i').
       if sz > MAX_EXTRA_SIZE \<and> name = bytes_of ''mm_tag''
       then bindE (in_binary (unat sz) i') (\<lambda>(_, i''). Inr ([], i''))
       else if sz > 0 then in_binary (unat sz) i'
       else Inr ([], i'))"

subsection \<open>Containers\<close>

primrec read_items :: "'a reader \<Rightarrow> nat \<Rightarrow> 'a list reader" where
  "read_items rd 0 i = Inr ([], i)"
| "read_items rd (Suc n) i =
     bindE (rd i) (\<lambda>(x, i'). bindE (read_items rd n i') (\<lambda>(xs, i''). Inr (x # xs, i'')))"

definition write_container :: "('a \<Rightarrow> bytes) \<Rightarrow> 'a list \<Rightarrow> bytes" where
  "write_container wr v = out_beginArray (length v) @ concat (map wr v)"

definition read_container :: "'a reader \<Rightarrow> 'a list reader" where
  "read_container rd i = bindE (in_beginArray i) (\<lambda>(sz, i'). read_items rd sz i')"

definition write_asBinary :: "bytes \<Rightarrow> bytes" where
  "write_asBinary v = out_string v"

text \<open>The blob of a vector of bytes: \<open>sizeof(T)\<close> is one.\<close>

definition read_asBinary :: "bytes \<Rightarrow> bytes reader" where
  "read_asBinary name i =
     bindE (in_string name i) (\<lambda>(blob, i').
       if length blob mod 1 \<noteq> 0 then Inl InvalidBlobSize else Inr (blob, i'))"

section \<open>The contract of a codec\<close>

locale codec =
  fixes wr :: "'a \<Rightarrow> bytes"
    and rd :: "'a reader"
    and ok :: "'a \<Rightarrow> bool"
  assumes read_write: "ok x \<Longrightarrow> rd (wr x @ r) = Inr (x, r)"
    and read_canonical: "rd i = Inr (x, r) \<Longrightarrow> i = wr x @ r \<and> ok x"
begin

lemma wr_inj: "ok x \<Longrightarrow> ok y \<Longrightarrow> wr x @ r = wr y @ s \<Longrightarrow> x = y \<and> r = s"
  by (metis Pair_inject read_write sum.inject(2))

lemma items_read_write:
  "list_all ok xs \<Longrightarrow> read_items rd (length xs) (concat (map wr xs) @ r) = Inr (xs, r)"
  by (induction xs arbitrary: r) (simp_all add: read_write)

lemma items_canonical:
  "read_items rd n i = Inr (xs, r) \<Longrightarrow>
   i = concat (map wr xs) @ r \<and> length xs = n \<and> list_all ok xs"
proof (induction n arbitrary: i xs)
  case (Suc n)
  from Suc.prems obtain x j ys where
    x: "rd i = Inr (x, j)" and ys: "read_items rd n j = Inr (ys, r)" and "xs = x # ys"
    by auto
  with read_canonical [OF x] Suc.IH [OF ys] show ?case by simp
qed simp

end

lemma liftE_simps [simp]:
  "liftE (Inl e) = Inl (StreamFailure e)" "liftE (Inr x) = Inr x"
  "liftE r = Inr x \<longleftrightarrow> r = Inr x"
  by (auto simp: liftE_def map_sum_def split: sum.splits)

lemma writeVarint_ucast:
  assumes "8 \<le> LENGTH('a)" "LENGTH('a) \<le> 64"
  shows "writeVarint (ucast (v :: 'a::len word) :: u64) = writeVarint v"
  using assms by (simp add: writeVarint_write_varint write_varint_nat unat_ucast_up)

lemma in_varint_write [codec_simps]:
  "8 \<le> LENGTH('a) \<Longrightarrow> in_varint (writeVarint (v :: 'a::len word) @ r) = Inr (v, r)"
  by (simp add: in_varint_def readVarint_write)

lemma in_varint_canonical:
  "8 \<le> LENGTH('a) \<Longrightarrow> in_varint i = Inr (v :: 'a::len word, r) \<Longrightarrow> i = writeVarint v @ r"
  by (simp add: in_varint_def readVarint_canonical)

interpretation uint8_codec: codec out_uint8 in_uint8 "\<lambda>_. True"
  by unfold_locales
    (auto simp: out_uint8_def in_uint8_def writeVarint_ucast codec_simps dest: in_varint_canonical [rotated])

interpretation uint16_codec: codec out_uint16 in_uint16 "\<lambda>_. True"
  by unfold_locales
    (auto simp: out_uint16_def in_uint16_def writeVarint_ucast codec_simps dest: in_varint_canonical [rotated])

interpretation uint32_codec: codec out_uint32 in_uint32 "\<lambda>_. True"
  by unfold_locales
    (auto simp: out_uint32_def in_uint32_def writeVarint_ucast codec_simps dest: in_varint_canonical [rotated])

interpretation uint64_codec: codec out_uint64 in_uint64 "\<lambda>_. True"
  by unfold_locales
    (auto simp: out_uint64_def in_uint64_def codec_simps dest: in_varint_canonical [rotated])

lemma in_binary_write [codec_simps]: "length d = n \<Longrightarrow> in_binary n (d @ r) = Inr (d, r)"
  by (simp add: in_binary_def read_bytes_append)

lemma in_binary_canonical: "in_binary n i = Inr (d, r) \<Longrightarrow> i = d @ r \<and> length d = n"
  by (simp add: in_binary_def read_bytes_Inr)

interpretation pod32_codec: codec out_binary "in_binary 32" pod32
  by unfold_locales (auto simp: out_binary_def pod32_def codec_simps dest: in_binary_canonical)

interpretation pod64_codec: codec out_binary "in_binary 64" pod64
  by unfold_locales (auto simp: out_binary_def pod64_def codec_simps dest: in_binary_canonical)

interpretation tag_codec: codec out_tag in_tag "\<lambda>_. True"
proof
  fix t r
  show "in_tag (out_tag t @ r) = Inr (t, r)"
    using in_binary_write [of "[t]" 1 r] by (simp add: in_tag_def out_tag_def out_binary_def)
next
  fix i t r assume "in_tag i = Inr (t, r)"
  then obtain d where "in_binary 1 i = Inr (d, r)" "t = hd d" by (auto simp: in_tag_def)
  with in_binary_canonical [of 1 i d r] show "i = out_tag t @ r \<and> True"
    by (cases d) (auto simp: out_tag_def out_binary_def)
qed

text \<open>Sizes: a container or string of fewer than \<open>2 ^ 64\<close> elements keeps its length.\<close>

abbreviation sized :: "'a list \<Rightarrow> bool" where
  "sized xs \<equiv> length xs < 18446744073709551616"

lemma in_beginArray_write [codec_simps]:
  "n < 18446744073709551616 \<Longrightarrow> in_beginArray (out_beginArray n @ r) = Inr (n, r)"
  by (simp add: in_beginArray_def out_beginArray_def codec_simps unat_of_nat_small)

lemma in_beginArray_canonical:
  assumes "in_beginArray i = Inr (n, r)"
  shows "i = out_beginArray n @ r \<and> n < 18446744073709551616"
proof -
  from assms obtain s :: u64 where "in_varint i = Inr (s, r)" "n = unat s"
    by (auto simp: in_beginArray_def)
  then show ?thesis
    using in_varint_canonical [of i s r] unat_lt_64 [of s] by (simp add: out_beginArray_def)
qed

context codec
begin

lemma container_codec:
  "codec (write_container wr) (read_container rd) (\<lambda>xs. sized xs \<and> list_all ok xs)"
proof
  fix xs r assume "sized xs \<and> list_all ok xs"
  then show "read_container rd (write_container wr xs @ r) = Inr (xs, r)"
    by (simp add: read_container_def write_container_def codec_simps items_read_write)
next
  fix i xs r assume "read_container rd i = Inr (xs, r)"
  then obtain n j where "in_beginArray i = Inr (n, j)" "read_items rd n j = Inr (xs, r)"
    by (auto simp: read_container_def)
  then show "i = write_container wr xs @ r \<and> sized xs \<and> list_all ok xs"
    by (auto simp: write_container_def dest!: in_beginArray_canonical items_canonical)
qed

end

lemma string_codec:
  assumes "name \<noteq> bytes_of ''mm_tag''"
  shows "codec out_string (in_string name) sized"
proof
  fix x :: bytes and r assume "sized x"
  then show "in_string name (out_string x @ r) = Inr (x, r)"
    using assms
    by (cases "x = []") (auto simp: in_string_def out_string_def in_uint64_def codec_simps
        unat_of_nat_small word_gt_0 word_eq_unat)
next
  fix i x r assume "in_string name i = Inr (x, r)"
  then obtain s where s: "in_varint i = Inr (s :: u64, if s > 0 then x @ r else r)"
      "x = [] \<or> s > 0" "length x = unat s"
    using assms
    by (auto simp: in_string_def in_uint64_def word_gt_0 split: if_splits dest!: in_binary_canonical)
  then show "i = out_string x @ r \<and> sized x"
    using in_varint_canonical [of i s] unat_lt_64 [of s]
    by (cases "s > 0") (auto simp: out_string_def word_gt_0)
qed

end
