(* ===== verification/TxSerialization.thy ===== *)
theory TxSerialization
  imports BinarySerializer Keccak
begin

text \<open>The serialization of transactions and accounts, \<open>src/src/cryptonote_core/cryptonote_serialization.cpp\<close>,
  and the functions of \<open>cryptonote_tools.h\<close> that turn an object into a byte array, back, and into
  its hash. Each pair of a writer and a reader interprets the locale \<open>codec\<close> with the
  well-formedness predicate of its type, so blobs of transactions are read back and have no
  second form. The parts of a block are in the theory \<open>BlockSerialization\<close>.\<close>

section \<open>Definitions\<close>

definition CURRENT_TRANSACTION_VERSION :: byte where
  "CURRENT_TRANSACTION_VERSION = 1"

definition TRANSACTION_VERSION_2 :: byte where
  "TRANSACTION_VERSION_2 = 2"

primrec getSignaturesCount :: "TransactionInput \<Rightarrow> nat" where
  "getSignaturesCount (BaseInput b) = 0"
| "getSignaturesCount (KeyInput a offs k) = length offs"

primrec input_variant_tag :: "TransactionInput \<Rightarrow> byte" where
  "input_variant_tag (BaseInput b) = 0xff"
| "input_variant_tag (KeyInput a offs k) = 0x2"

primrec target_variant_tag :: "TransactionOutputTarget \<Rightarrow> byte" where
  "target_variant_tag (KeyOutput k) = 0x2"

definition write_varintVector :: "u32 list \<Rightarrow> bytes" where
  "write_varintVector v = write_container out_uint32 v"

definition read_varintVector :: "u32 list reader" where
  "read_varintVector i = read_container in_uint32 i"

subsection \<open>Inputs and outputs\<close>

primrec write_input_value :: "TransactionInput \<Rightarrow> bytes" where
  "write_input_value (BaseInput b) = out_uint32 b"
| "write_input_value (KeyInput a offs k) = out_uint64 a @ write_varintVector offs @ out_binary k"

definition read_BaseInput :: "TransactionInput reader" where
  "read_BaseInput i = bindE (in_uint32 i) (\<lambda>(b, i). Inr (BaseInput b, i))"

definition read_KeyInput :: "TransactionInput reader" where
  "read_KeyInput i =
     bindE (in_uint64 i) (\<lambda>(a, i).
     bindE (read_varintVector i) (\<lambda>(offs, i).
     bindE (in_binary 32 i) (\<lambda>(k, i). Inr (KeyInput a offs k, i))))"

definition getVariantValue_input :: "byte \<Rightarrow> TransactionInput reader" where
  "getVariantValue_input tag i =
     (if tag = 0xff then read_BaseInput i
      else if tag = 0x2 then read_KeyInput i
      else Inl UnknownVariantTag)"

definition write_TransactionInput :: "TransactionInput \<Rightarrow> bytes" where
  "write_TransactionInput inp = out_tag (input_variant_tag inp) @ write_input_value inp"

definition read_TransactionInput :: "TransactionInput reader" where
  "read_TransactionInput i = bindE (in_tag i) (\<lambda>(tag, i). getVariantValue_input tag i)"

definition getVariantValue_target :: "byte \<Rightarrow> TransactionOutputTarget reader" where
  "getVariantValue_target tag i =
     (if tag = 0x2 then bindE (in_binary 32 i) (\<lambda>(k, i). Inr (KeyOutput k, i))
      else Inl UnknownVariantTag)"

definition write_TransactionOutputTarget :: "TransactionOutputTarget \<Rightarrow> bytes" where
  "write_TransactionOutputTarget t = out_tag (target_variant_tag t) @ out_binary (target_key t)"

definition read_TransactionOutputTarget :: "TransactionOutputTarget reader" where
  "read_TransactionOutputTarget i = bindE (in_tag i) (\<lambda>(tag, i). getVariantValue_target tag i)"

definition write_TransactionOutput :: "TransactionOutput \<Rightarrow> bytes" where
  "write_TransactionOutput o' = out_uint64 (out_amount o') @ write_TransactionOutputTarget (out_target o')"

definition read_TransactionOutput :: "TransactionOutput reader" where
  "read_TransactionOutput i =
     bindE (in_uint64 i) (\<lambda>(a, i).
     bindE (read_TransactionOutputTarget i) (\<lambda>(t, i). Inr (\<lparr> out_amount = a, out_target = t \<rparr>, i)))"

subsection \<open>Transactions\<close>

definition write_TransactionPrefix :: "'a TransactionPrefix_scheme \<Rightarrow> bytes" where
  "write_TransactionPrefix t =
     out_uint8 (tx_version t) @ out_uint64 (unlockTime t) @
     write_container write_TransactionInput (inputs t) @
     write_container write_TransactionOutput (outputs t) @
     write_asBinary (extra t)"

text \<open>The fields after the version, which \<open>TransactionPrefix\<close> and \<open>BaseTransaction\<close> share.\<close>

definition read_prefix_fields :: "byte \<Rightarrow> TransactionPrefix reader" where
  "read_prefix_fields v i =
     bindE (in_uint64 i) (\<lambda>(u, i).
     bindE (read_container read_TransactionInput i) (\<lambda>(ins, i).
     bindE (read_container read_TransactionOutput i) (\<lambda>(outs, i).
     bindE (read_asBinary (bytes_of ''extra'') i) (\<lambda>(e, i).
       Inr (\<lparr> tx_version = v, unlockTime = u, inputs = ins, outputs = outs, extra = e \<rparr>, i)))))"

definition read_TransactionPrefix :: "TransactionPrefix reader" where
  "read_TransactionPrefix i =
     bindE (in_uint8 i) (\<lambda>(v, i).
       if CURRENT_TRANSACTION_VERSION < v then Inl WrongTransactionVersion
       else read_prefix_fields v i)"

definition write_BaseTransaction :: "BaseTransaction \<Rightarrow> bytes" where
  "write_BaseTransaction t =
     write_TransactionPrefix t @
     (if tx_version t \<ge> TRANSACTION_VERSION_2 then out_uint64 0 else [])"

definition read_BaseTransaction :: "BaseTransaction reader" where
  "read_BaseTransaction i =
     bindE (in_uint8 i) (\<lambda>(v, i).
     bindE (read_prefix_fields v i) (\<lambda>(t, i).
       if tx_version t \<ge> TRANSACTION_VERSION_2
       then bindE (in_uint64 i) (\<lambda>(ignored, i). Inr (t, i))
       else Inr (t, i)))"

primrec read_signatures :: "bool \<Rightarrow> TransactionInput list \<Rightarrow> signature list list reader" where
  "read_signatures notExpected [] i = Inr ([], i)"
| "read_signatures notExpected (inp # ins) i =
     (if notExpected then
        if getSignaturesCount inp = 0 then read_signatures notExpected ins i
        else Inl SignaturesNotExpected
      else
        bindE (read_items (in_binary 64) (getSignaturesCount inp) i) (\<lambda>(s, i).
        bindE (read_signatures notExpected ins i) (\<lambda>(ss, i). Inr (s # ss, i))))"

definition read_Transaction :: "Transaction reader" where
  "read_Transaction i =
     bindE (read_TransactionPrefix i) (\<lambda>(p, i).
       let sigSize = length (inputs p);
           resized = \<not> (sigSize = 1 \<and> is_BaseInput (inputs p ! 0));
           signaturesNotExpected = (if resized then sigSize = 0 else True)
       in bindE (read_signatures signaturesNotExpected (inputs p) i) (\<lambda>(ss, i).
            Inr (TransactionPrefix.extend p (Transaction.fields ss), i)))"

fun write_signatures :: "bool \<Rightarrow> TransactionInput list \<Rightarrow> signature list list \<Rightarrow> ser_error + bytes" where
  "write_signatures notExpected [] ss = Inr []"
| "write_signatures True (inp # ins) ss =
     (if getSignaturesCount inp = 0 then write_signatures True ins ss
      else Inl SignaturesNotExpected)"
| "write_signatures False (inp # ins) ss =
     (if getSignaturesCount inp \<noteq> length (hd ss) then Inl UnexpectedSignaturesSize
      else bindE (write_signatures False ins (tl ss)) (\<lambda>w. Inr (concat (map out_binary (hd ss)) @ w)))"

definition write_Transaction :: "Transaction \<Rightarrow> ser_error + bytes" where
  "write_Transaction t =
     (let signaturesNotExpected = (signatures t = []) in
      if \<not> signaturesNotExpected \<and> length (inputs t) \<noteq> length (signatures t)
      then Inl UnexpectedSignaturesSize
      else bindE (write_signatures signaturesNotExpected (inputs t) (signatures t)) (\<lambda>w.
             Inr (write_TransactionPrefix t @ w)))"

subsection \<open>Accounts and raw blocks\<close>

definition write_AccountPublicAddress :: "AccountPublicAddress \<Rightarrow> bytes" where
  "write_AccountPublicAddress a = out_binary (spendPublicKey a) @ out_binary (viewPublicKey a)"

definition read_AccountPublicAddress :: "AccountPublicAddress reader" where
  "read_AccountPublicAddress i =
     bindE (in_binary 32 i) (\<lambda>(s, i). bindE (in_binary 32 i) (\<lambda>(v, i).
       Inr (\<lparr> spendPublicKey = s, viewPublicKey = v \<rparr>, i)))"

definition write_AccountKeys :: "AccountKeys \<Rightarrow> bytes" where
  "write_AccountKeys k =
     write_AccountPublicAddress (account_address k) @ out_binary (spendSecretKey k) @ out_binary (viewSecretKey k)"

definition read_AccountKeys :: "AccountKeys reader" where
  "read_AccountKeys i =
     bindE (read_AccountPublicAddress i) (\<lambda>(a, i).
     bindE (in_binary 32 i) (\<lambda>(s, i). bindE (in_binary 32 i) (\<lambda>(v, i).
       Inr (\<lparr> account_address = a, spendSecretKey = s, viewSecretKey = v \<rparr>, i))))"

definition write_KeyPair :: "KeyPair \<Rightarrow> bytes" where
  "write_KeyPair k = out_binary (kp_secretKey k) @ out_binary (kp_publicKey k)"

definition read_KeyPair :: "KeyPair reader" where
  "read_KeyPair i =
     bindE (in_binary 32 i) (\<lambda>(s, i). bindE (in_binary 32 i) (\<lambda>(p, i).
       Inr (\<lparr> kp_publicKey = p, kp_secretKey = s \<rparr>, i)))"

definition write_blob :: "bytes \<Rightarrow> bytes" where
  "write_blob b = out_uint64 (of_nat (length b)) @ out_binary b"

definition read_blob :: "bytes reader" where
  "read_blob i = bindE (in_uint64 i) (\<lambda>(sz, i). in_binary (unat sz) i)"

definition write_RawBlock :: "RawBlock \<Rightarrow> bytes" where
  "write_RawBlock b =
     write_blob (rb_block b) @ out_uint64 (of_nat (length (rb_transactions b))) @
     concat (map write_blob (rb_transactions b))"

definition read_RawBlock :: "RawBlock reader" where
  "read_RawBlock i =
     bindE (read_blob i) (\<lambda>(b, i).
     bindE (in_uint64 i) (\<lambda>(n, i).
     bindE (read_items read_blob (unat n) i) (\<lambda>(ts, i).
       Inr (\<lparr> rb_block = b, rb_transactions = ts \<rparr>, i))))"

subsection \<open>Byte arrays and hashes of objects\<close>

text \<open>A \<open>toBinaryArray\<close> is given as its result: the bytes, or the exception of the serializer.\<close>

definition toBinaryArray :: "ser_error + bytes \<Rightarrow> bytes option" where
  "toBinaryArray w = (case w of Inl e \<Rightarrow> None | Inr ba \<Rightarrow> Some ba)"

definition fromBinaryArray :: "'a reader \<Rightarrow> bytes \<Rightarrow> ser_error + 'a" where
  "fromBinaryArray rd ba =
     bindE (rd ba) (\<lambda>(x, rest). if rest \<noteq> [] then Inl FailedToUnpack else Inr x)"

definition getBinaryArrayHash :: "bytes \<Rightarrow> hash" where
  "getBinaryArrayHash ba = cn_fast_hash ba"

definition getObjectBinarySize :: "ser_error + bytes \<Rightarrow> bool \<times> u64" where
  "getObjectBinarySize w =
     (case toBinaryArray w of None \<Rightarrow> (False, -1) | Some ba \<Rightarrow> (True, of_nat (length ba)))"

definition getObjectHash :: "ser_error + bytes \<Rightarrow> bool \<times> hash" where
  "getObjectHash w =
     (case toBinaryArray w of None \<Rightarrow> (False, NULL_HASH) | Some ba \<Rightarrow> (True, getBinaryArrayHash ba))"

section \<open>Well-formedness and the codecs\<close>

primrec wf_input :: "TransactionInput \<Rightarrow> bool" where
  "wf_input (BaseInput b) \<longleftrightarrow> True"
| "wf_input (KeyInput a offs k) \<longleftrightarrow> sized offs \<and> pod32 k"

definition wf_output :: "TransactionOutput \<Rightarrow> bool" where
  "wf_output o' \<longleftrightarrow> pod32 (target_key (out_target o'))"

text \<open>The part of a well-formed transaction prefix that does not depend on its version.\<close>

definition wf_fields :: "'a TransactionPrefix_scheme \<Rightarrow> bool" where
  "wf_fields t \<longleftrightarrow> sized (inputs t) \<and> list_all wf_input (inputs t) \<and>
     sized (outputs t) \<and> list_all wf_output (outputs t) \<and> sized (extra t)"

definition wf_prefix :: "'a TransactionPrefix_scheme \<Rightarrow> bool" where
  "wf_prefix t \<longleftrightarrow> tx_version t \<le> CURRENT_TRANSACTION_VERSION \<and> wf_fields t"

definition unsigned_inputs :: "TransactionInput list \<Rightarrow> bool" where
  "unsigned_inputs ins \<longleftrightarrow> ins = [] \<or> (\<exists>b. ins = [BaseInput b])"

definition wf_signatures :: "TransactionInput list \<Rightarrow> signature list list \<Rightarrow> bool" where
  "wf_signatures ins ss \<longleftrightarrow>
     list_all2 (\<lambda>inp s. length s = getSignaturesCount inp \<and> list_all pod64 s) ins ss"

definition wf_transaction :: "Transaction \<Rightarrow> bool" where
  "wf_transaction t \<longleftrightarrow> wf_prefix t \<and>
     (if unsigned_inputs (inputs t) then signatures t = [] else wf_signatures (inputs t) (signatures t))"

interpretation varintVector_codec: codec write_varintVector read_varintVector "sized"
  using uint32_codec.container_codec
  by (simp add: write_varintVector_def [abs_def] read_varintVector_def [abs_def] list_all_iff)

lemmas codec_reads [codec_simps] =
  uint8_codec.read_write uint16_codec.read_write uint32_codec.read_write uint64_codec.read_write
  pod32_codec.read_write pod64_codec.read_write varintVector_codec.read_write tag_codec.read_write

lemmas codec_canonical =
  uint8_codec.read_canonical uint16_codec.read_canonical uint32_codec.read_canonical
  uint64_codec.read_canonical pod32_codec.read_canonical pod64_codec.read_canonical
  varintVector_codec.read_canonical tag_codec.read_canonical

interpretation input_codec: codec write_TransactionInput read_TransactionInput wf_input
proof
  fix x r assume "wf_input x"
  then show "read_TransactionInput (write_TransactionInput x @ r) = Inr (x, r)"
    by (cases x) (simp_all add: read_TransactionInput_def write_TransactionInput_def codec_simps
        getVariantValue_input_def read_BaseInput_def read_KeyInput_def)
next
  fix i x r assume "read_TransactionInput i = Inr (x, r)"
  then show "i = write_TransactionInput x @ r \<and> wf_input x"
    by (auto simp: read_TransactionInput_def getVariantValue_input_def read_BaseInput_def read_KeyInput_def
        write_TransactionInput_def split: if_splits dest!: codec_canonical)
qed

interpretation output_codec: codec write_TransactionOutput read_TransactionOutput wf_output
proof
  fix x r assume "wf_output x"
  then show "read_TransactionOutput (write_TransactionOutput x @ r) = Inr (x, r)"
    by (cases "out_target x") (simp add: read_TransactionOutput_def write_TransactionOutput_def codec_simps wf_output_def
        read_TransactionOutputTarget_def write_TransactionOutputTarget_def getVariantValue_target_def)
next
  fix i x r assume "read_TransactionOutput i = Inr (x, r)"
  then show "i = write_TransactionOutput x @ r \<and> wf_output x"
    by (auto simp: read_TransactionOutput_def read_TransactionOutputTarget_def getVariantValue_target_def
        write_TransactionOutput_def write_TransactionOutputTarget_def wf_output_def
        split: if_splits dest!: codec_canonical)
qed

lemma extra_codec: "codec write_asBinary (read_asBinary (bytes_of ''extra'')) sized"
proof -
  have "bytes_of ''extra'' \<noteq> bytes_of ''mm_tag''" by (simp add: bytes_of_def)
  from string_codec [OF this] show ?thesis
    by (simp add: write_asBinary_def [abs_def] read_asBinary_def [abs_def])
qed


interpretation extra: codec write_asBinary "read_asBinary (bytes_of ''extra'')" sized
  by (rule extra_codec)

interpretation inputs_codec: codec "write_container write_TransactionInput"
  "read_container read_TransactionInput" "\<lambda>xs. sized xs \<and> list_all wf_input xs"
  by (rule input_codec.container_codec)

interpretation outputs_codec: codec "write_container write_TransactionOutput"
  "read_container read_TransactionOutput" "\<lambda>xs. sized xs \<and> list_all wf_output xs"
  by (rule output_codec.container_codec)

lemmas tx_reads [codec_simps] =
  extra.read_write inputs_codec.read_write outputs_codec.read_write

lemmas tx_canonical = codec_canonical
  extra.read_canonical inputs_codec.read_canonical outputs_codec.read_canonical

definition prefix_fields_bytes :: "'a TransactionPrefix_scheme \<Rightarrow> bytes" where
  "prefix_fields_bytes t =
     out_uint64 (unlockTime t) @ write_container write_TransactionInput (inputs t) @
     write_container write_TransactionOutput (outputs t) @ write_asBinary (extra t)"

lemma write_TransactionPrefix_split:
  "write_TransactionPrefix t = out_uint8 (tx_version t) @ prefix_fields_bytes t"
  by (simp add: write_TransactionPrefix_def prefix_fields_bytes_def)

lemma read_prefix_fields_write [codec_simps]:
  assumes "wf_fields t"
  shows "read_prefix_fields v (prefix_fields_bytes t @ r) =
    Inr (\<lparr> tx_version = v, unlockTime = unlockTime t, inputs = inputs t, outputs = outputs t, extra = extra t \<rparr>, r)"
  using assms by (simp add: read_prefix_fields_def prefix_fields_bytes_def wf_fields_def codec_simps)

lemma read_prefix_fields_canonical:
  assumes "read_prefix_fields v i = Inr (t, r)"
  shows "i = prefix_fields_bytes t @ r \<and> wf_fields t \<and> tx_version t = v"
  using assms by (auto simp: read_prefix_fields_def prefix_fields_bytes_def wf_fields_def dest!: tx_canonical)

interpretation prefix_codec: codec write_TransactionPrefix read_TransactionPrefix wf_prefix
proof
  fix t :: TransactionPrefix and r assume "wf_prefix t"
  then show "read_TransactionPrefix (write_TransactionPrefix t @ r) = Inr (t, r)"
    by (simp add: write_TransactionPrefix_split read_TransactionPrefix_def wf_prefix_def codec_simps
        not_less [symmetric])
next
  fix i t r assume "read_TransactionPrefix i = Inr (t, r)"
  then show "i = write_TransactionPrefix t @ r \<and> wf_prefix t"
    by (auto simp: read_TransactionPrefix_def write_TransactionPrefix_split wf_prefix_def not_less
        split: if_splits dest!: codec_canonical read_prefix_fields_canonical)
qed

lemma read_BaseTransaction_write [codec_simps]:
  "wf_fields t \<Longrightarrow> read_BaseTransaction (write_BaseTransaction t @ r) = Inr (t, r)"
  by (simp add: read_BaseTransaction_def write_BaseTransaction_def write_TransactionPrefix_split codec_simps)

lemma read_BaseTransaction_wf: "read_BaseTransaction i = Inr (t, r) \<Longrightarrow> wf_fields t"
  by (auto simp: read_BaseTransaction_def split: if_splits dest!: read_prefix_fields_canonical)

text \<open>Signatures: the writer succeeds on well-formed ones, the reader inverts it.\<close>

lemma signatures_unsigned:
  "unsigned_inputs ins \<Longrightarrow> write_signatures True ins ss = Inr [] \<and> read_signatures True ins r = Inr ([], r)"
  by (auto simp: unsigned_inputs_def)

definition signature_bytes :: "signature list list \<Rightarrow> bytes" where
  "signature_bytes ss = concat (map (\<lambda>s. concat (map out_binary s)) ss)"

lemma signatures_write:
  "wf_signatures ins ss \<Longrightarrow> write_signatures False ins ss = Inr (signature_bytes ss) \<and>
     read_signatures False ins (signature_bytes ss @ r) = Inr (ss, r)"
  unfolding wf_signatures_def
proof (induction ins ss rule: list_all2_induct)
  case (Cons inp ins s ss)
  then show ?case
    using pod64_codec.items_read_write [of s] by (simp add: signature_bytes_def)
qed (simp_all add: signature_bytes_def)

lemma signatures_canonical:
  "read_signatures False ins i = Inr (ss, r) \<Longrightarrow> wf_signatures ins ss \<and> i = signature_bytes ss @ r"
  unfolding wf_signatures_def
proof (induction ins arbitrary: i ss)
  case (Cons inp ins)
  then obtain s j ts where s: "read_items (in_binary 64) (getSignaturesCount inp) i = Inr (s, j)"
    and ts: "read_signatures False ins j = Inr (ts, r)" and "ss = s # ts" by auto
  with pod64_codec.items_canonical [OF s] Cons.IH [OF ts] show ?case
    by (simp add: signature_bytes_def)
qed (simp add: signature_bytes_def)

definition transaction_bytes :: "Transaction \<Rightarrow> bytes" where
  "transaction_bytes t = write_TransactionPrefix t @ signature_bytes (signatures t)"

lemma signed_inputs_wf:
  assumes "\<not> unsigned_inputs ins" "wf_signatures ins ss"
  shows "ss \<noteq> []" "length ins = length ss" "ins \<noteq> []" "\<not> (length ins = 1 \<and> is_BaseInput (ins ! 0))"
proof -
  show l: "length ins = length ss"
    using assms(2) by (simp add: wf_signatures_def list_all2_lengthD)
  show "ins \<noteq> []" using assms(1) by (simp add: unsigned_inputs_def)
  with l show "ss \<noteq> []" by auto
  show "\<not> (length ins = 1 \<and> is_BaseInput (ins ! 0))"
  proof
    assume "length ins = 1 \<and> is_BaseInput (ins ! 0)"
    then obtain b where "ins = [BaseInput b]"
      by (cases ins) (auto simp: is_BaseInput_def)
    with assms(1) show False by (simp add: unsigned_inputs_def)
  qed
qed

lemma write_Transaction_wf:
  assumes "wf_transaction t"
  shows "write_Transaction t = Inr (transaction_bytes t)"
proof (cases "unsigned_inputs (inputs t)")
  case True
  with assms show ?thesis
    by (simp add: wf_transaction_def write_Transaction_def transaction_bytes_def signatures_unsigned
        signature_bytes_def)
next
  case False
  with assms have w: "wf_signatures (inputs t) (signatures t)" by (simp add: wf_transaction_def)
  with signed_inputs_wf [OF False w] signatures_write [OF w] show ?thesis
    by (simp add: write_Transaction_def transaction_bytes_def)
qed

lemma truncate_prefix [simp]:
  "write_TransactionPrefix (TransactionPrefix.truncate t) = write_TransactionPrefix t"
  "wf_prefix (TransactionPrefix.truncate t) = wf_prefix t"
  by (simp_all add: write_TransactionPrefix_def wf_prefix_def wf_fields_def TransactionPrefix.truncate_def)

interpretation transaction_codec: codec transaction_bytes read_Transaction wf_transaction
proof
  fix t r assume wf: "wf_transaction t"
  let ?p = "TransactionPrefix.truncate t"
  have p: "read_TransactionPrefix (write_TransactionPrefix t @ s) = Inr (?p, s)" for s
    using prefix_codec.read_write [of ?p s] wf by (simp add: wf_transaction_def)
  have e: "TransactionPrefix.extend ?p (Transaction.fields (signatures t)) = t" "inputs ?p = inputs t"
    by (simp_all add: TransactionPrefix.defs Transaction.defs)
  show "read_Transaction (transaction_bytes t @ r) = Inr (t, r)"
  proof (cases "unsigned_inputs (inputs t)")
    case True
    then have s: "signatures t = []" using wf by (simp add: wf_transaction_def)
    have "inputs t = [] \<or> length (inputs t) = 1 \<and> is_BaseInput (inputs t ! 0)"
      using True by (auto simp: unsigned_inputs_def)
    with p e s signatures_unsigned [OF True] show ?thesis
      by (auto simp: read_Transaction_def transaction_bytes_def Let_def signature_bytes_def)
  next
    case False
    with wf have w: "wf_signatures (inputs t) (signatures t)" by (simp add: wf_transaction_def)
    with p e signed_inputs_wf [OF False w] signatures_write [OF w, of r] show ?thesis
      by (auto simp: read_Transaction_def transaction_bytes_def Let_def)
  qed
next
  fix i t r assume "read_Transaction i = Inr (t, r)"
  then obtain p j ss where p: "read_TransactionPrefix i = Inr (p, j)"
    and ss: "read_signatures (if \<not> (length (inputs p) = 1 \<and> is_BaseInput (inputs p ! 0))
      then length (inputs p) = 0 else True) (inputs p) j = Inr (ss, r)"
    and t: "t = TransactionPrefix.extend p (Transaction.fields ss)"
    by (auto simp: read_Transaction_def Let_def)
  have f: "inputs t = inputs p" "signatures t = ss" "wf_prefix t = wf_prefix p"
    "write_TransactionPrefix t = write_TransactionPrefix p"
    by (simp_all add: t TransactionPrefix.defs Transaction.defs wf_prefix_def wf_fields_def
        write_TransactionPrefix_def)
  have u: "(if \<not> (length (inputs p) = 1 \<and> is_BaseInput (inputs p ! 0))
      then length (inputs p) = 0 else True) = unsigned_inputs (inputs p)"
    by (cases "inputs p") (auto simp: unsigned_inputs_def is_BaseInput_def)
  show "i = transaction_bytes t @ r \<and> wf_transaction t"
  proof (cases "unsigned_inputs (inputs p)")
    case True
    with ss [unfolded u] signatures_unsigned [OF True, of ss j] have "ss = []" "j = r" by auto
    with prefix_codec.read_canonical [OF p] f True show ?thesis
      by (simp add: transaction_bytes_def wf_transaction_def signature_bytes_def)
  next
    case False
    with ss [unfolded u] have "read_signatures False (inputs p) j = Inr (ss, r)" by simp
    from signatures_canonical [OF this] prefix_codec.read_canonical [OF p] f False show ?thesis
      by (simp add: transaction_bytes_def wf_transaction_def)
  qed
qed

definition wf_address :: "AccountPublicAddress \<Rightarrow> bool" where
  "wf_address a \<longleftrightarrow> pod32 (spendPublicKey a) \<and> pod32 (viewPublicKey a)"

definition wf_keys :: "AccountKeys \<Rightarrow> bool" where
  "wf_keys k \<longleftrightarrow> wf_address (account_address k) \<and> pod32 (spendSecretKey k) \<and> pod32 (viewSecretKey k)"

definition wf_keypair :: "KeyPair \<Rightarrow> bool" where
  "wf_keypair k \<longleftrightarrow> pod32 (kp_publicKey k) \<and> pod32 (kp_secretKey k)"

definition wf_rawBlock :: "RawBlock \<Rightarrow> bool" where
  "wf_rawBlock b \<longleftrightarrow> sized (rb_block b) \<and> sized (rb_transactions b) \<and> list_all sized (rb_transactions b)"

interpretation address_codec: codec write_AccountPublicAddress read_AccountPublicAddress wf_address
proof
  fix x r assume "wf_address x"
  then show "read_AccountPublicAddress (write_AccountPublicAddress x @ r) = Inr (x, r)"
    by (simp add: read_AccountPublicAddress_def write_AccountPublicAddress_def wf_address_def codec_simps)
next
  fix i x r assume "read_AccountPublicAddress i = Inr (x, r)"
  then show "i = write_AccountPublicAddress x @ r \<and> wf_address x"
    by (auto simp: read_AccountPublicAddress_def write_AccountPublicAddress_def wf_address_def
        dest!: pod32_codec.read_canonical)
qed

interpretation keys_codec: codec write_AccountKeys read_AccountKeys wf_keys
proof
  fix x r assume "wf_keys x"
  then show "read_AccountKeys (write_AccountKeys x @ r) = Inr (x, r)"
    by (simp add: read_AccountKeys_def write_AccountKeys_def wf_keys_def codec_simps address_codec.read_write)
next
  fix i x r assume "read_AccountKeys i = Inr (x, r)"
  then show "i = write_AccountKeys x @ r \<and> wf_keys x"
    by (auto simp: read_AccountKeys_def write_AccountKeys_def wf_keys_def
        dest!: pod32_codec.read_canonical address_codec.read_canonical)
qed

interpretation keypair_codec: codec write_KeyPair read_KeyPair wf_keypair
proof
  fix x r assume "wf_keypair x"
  then show "read_KeyPair (write_KeyPair x @ r) = Inr (x, r)"
    by (simp add: read_KeyPair_def write_KeyPair_def wf_keypair_def codec_simps)
next
  fix i x r assume "read_KeyPair i = Inr (x, r)"
  then show "i = write_KeyPair x @ r \<and> wf_keypair x"
    by (auto simp: read_KeyPair_def write_KeyPair_def wf_keypair_def dest!: pod32_codec.read_canonical)
qed

interpretation blob_codec: codec write_blob read_blob sized
proof
  fix x :: bytes and r assume "sized x"
  then show "read_blob (write_blob x @ r) = Inr (x, r)"
    by (simp add: read_blob_def write_blob_def codec_simps unat_of_nat_small out_binary_def)
next
  fix i x r assume "read_blob i = Inr (x, r)"
  then obtain n :: u64 and j where n: "in_uint64 i = Inr (n, j)" and x: "in_binary (unat n) j = Inr (x, r)"
    by (auto simp: read_blob_def)
  from in_binary_canonical [OF x] have "of_nat (length x) = n" "sized x"
    using unat_lt_64 [of n] by auto
  with uint64_codec.read_canonical [OF n] in_binary_canonical [OF x]
  show "i = write_blob x @ r \<and> sized x"
    by (simp add: write_blob_def out_binary_def)
qed

interpretation rawBlock_codec: codec write_RawBlock read_RawBlock wf_rawBlock
proof
  fix x r assume "wf_rawBlock x"
  then show "read_RawBlock (write_RawBlock x @ r) = Inr (x, r)"
    by (simp add: read_RawBlock_def write_RawBlock_def wf_rawBlock_def codec_simps unat_of_nat_small
        blob_codec.read_write blob_codec.items_read_write)
next
  fix i x r assume "read_RawBlock i = Inr (x, r)"
  then obtain b j n k ts where b: "read_blob i = Inr (b, j)" and n: "in_uint64 j = Inr (n, k)"
    and ts: "read_items read_blob (unat n) k = Inr (ts, r)"
    and x: "x = \<lparr> rb_block = b, rb_transactions = ts \<rparr>"
    by (auto simp: read_RawBlock_def)
  from blob_codec.items_canonical [OF ts] have "of_nat (length ts) = n" "sized ts"
    using unat_lt_64 [of n] by auto
  with blob_codec.read_canonical [OF b] uint64_codec.read_canonical [OF n]
    blob_codec.items_canonical [OF ts] x
  show "i = write_RawBlock x @ r \<and> wf_rawBlock x"
    by (simp add: write_RawBlock_def wf_rawBlock_def)
qed

text \<open>Whole byte arrays.\<close>

context codec
begin

lemma fromBinaryArray_iff: "fromBinaryArray rd ba = Inr x \<longleftrightarrow> ok x \<and> ba = wr x"
  using read_write [of x "[]"] read_canonical [of ba x "[]"]
  by (auto simp: fromBinaryArray_def bindE_eq_Inr split: if_splits)

end

text \<open>A transaction with one signed input.\<close>

definition sample_transaction :: Transaction where
  "sample_transaction =
     \<lparr> tx_version = 1, unlockTime = 300, inputs = [KeyInput 500 [7, 3] (replicate 32 9)],
       outputs = [\<lparr> out_amount = 490, out_target = KeyOutput (replicate 32 5) \<rparr>], extra = [1, 2],
       signatures = [[replicate 64 1, replicate 64 2]] \<rparr>"

lemma wf_sample_transaction: "wf_transaction sample_transaction"
  by (simp add: sample_transaction_def wf_transaction_def wf_prefix_def wf_fields_def wf_output_def
      CURRENT_TRANSACTION_VERSION_def unsigned_inputs_def wf_signatures_def pod32_def pod64_def)

section \<open>Properties\<close>

text \<open>C7. The blob of a well-formed transaction is read back as that transaction, and the reader
  stops at its end.\<close>

theorem transaction_roundtrip:
  assumes "wf_transaction t"
  shows "\<exists>w. write_Transaction t = Inr w \<and> read_Transaction (w @ r) = Inr (t, r) \<and>
    fromBinaryArray read_Transaction w = Inr t"
  using write_Transaction_wf [OF assms] transaction_codec.read_write [OF assms]
    transaction_codec.fromBinaryArray_iff assms by blast

theorem transaction_roundtrip_witness:
  "\<exists>w. write_Transaction sample_transaction = Inr w \<and>
     read_Transaction (w @ [7]) = Inr (sample_transaction, [7]) \<and>
     fromBinaryArray read_Transaction w = Inr sample_transaction"
  by (rule transaction_roundtrip [OF wf_sample_transaction])

text \<open>C8. Transaction blobs are not malleable: a byte array that parses as a transaction is exactly
  the array the transaction serializes to (so it has the same size and hash), and the parsed
  transaction is well formed: its version is supported and every input has one signature for
  each member of its ring.\<close>

theorem transaction_blob_canonical:
  assumes "fromBinaryArray read_Transaction ba = Inr t"
  shows "write_Transaction t = Inr ba \<and> wf_transaction t \<and>
    getObjectHash (write_Transaction t) = (True, cn_fast_hash ba)"
  using assms write_Transaction_wf [of t] transaction_codec.fromBinaryArray_iff [of ba t]
  by (simp add: getObjectHash_def toBinaryArray_def getBinaryArrayHash_def)

theorem transaction_blob_canonical_witness:
  "\<exists>ba. fromBinaryArray read_Transaction ba = Inr sample_transaction \<and>
     write_Transaction sample_transaction = Inr ba"
proof -
  have "fromBinaryArray read_Transaction (transaction_bytes sample_transaction) = Inr sample_transaction"
    using transaction_codec.fromBinaryArray_iff wf_sample_transaction by blast
  with transaction_blob_canonical [OF this] show ?thesis by blast
qed

end
