(* ===== verification/TreeHash.thy ===== *)
theory TreeHash
  imports Keccak CoreTypes
begin

text \<open>Merkle trees of transaction hashes, \<open>src/src/crypto/tree-hash.c\<close>. The arrays of hashes are lists;
  \<open>count\<close> is the length of the list of leaves and a positive \<open>size_t\<close>. A loop that combines pairs
  in place is a fold over its index that updates the list. The hash function is the argument
  \<open>h\<close>.

  The reference is the root of a complete binary tree; the theory shows that \<open>tree_hash\<close> computes
  it on the leaves padded to a power of two the CryptoNote way (the last leaves are paired
  first), that \<open>tree_depth\<close> is the binary logarithm, and that the branch \<open>tree_branch\<close> extracts for
  the first leaf proves it: \<open>tree_hash_from_branch\<close> recomputes the root.\<close>

section \<open>Definitions\<close>

text \<open>\<open>nr\<close> is the parameter \<open>count\<close> of the source.\<close>

text \<open>\<open>for (i = 1; i < 64; i <<= 1) cnt |= cnt >> i; cnt &= ~(cnt >> 1);\<close>\<close>

definition tree_hash_cnt :: "u64 \<Rightarrow> u64" where
  "tree_hash_cnt nr =
     (let cnt = fold (\<lambda>i cnt. cnt OR drop_bit i cnt) [1, 2, 4, 8, 16, 32] (nr - 1)
      in cnt AND NOT (drop_bit 1 cnt))"

text \<open>The array \<open>ints\<close> after the copy and the first loop: \<open>k\<close> leaves as they are, then the
  hashes of the pairs that follow, up to \<open>cnt\<close> entries.\<close>

definition tree_first_level :: "(bytes \<Rightarrow> bytes) \<Rightarrow> hash list \<Rightarrow> nat \<Rightarrow> nat \<Rightarrow> hash list" where
  "tree_first_level h hs k cnt =
     take k hs @ map (\<lambda>m. h (hs ! (k + 2 * m) @ hs ! (k + 2 * m + 1))) [0..<cnt - k]"

definition tree_level_inplace :: "(bytes \<Rightarrow> bytes) \<Rightarrow> nat \<Rightarrow> nat \<Rightarrow> hash list \<Rightarrow> hash list" where
  "tree_level_inplace h i0 cnt ints =
     fold (\<lambda>j ints. ints[j := h (ints ! (i0 + 2 * j) @ ints ! (i0 + 2 * j + 1))]) [0..<cnt] ints"

function tree_hash_loop :: "(bytes \<Rightarrow> bytes) \<Rightarrow> nat \<Rightarrow> hash list \<Rightarrow> hash list" where
  "tree_hash_loop h cnt ints =
     (if cnt > 2 then tree_hash_loop h (cnt div 2) (tree_level_inplace h 0 (cnt div 2) ints)
      else ints)"
  by pat_completeness auto
termination
  by (relation "measure (\<lambda>(_, cnt, _). cnt)") auto

declare tree_hash_loop.simps [simp del]

definition tree_hash :: "(bytes \<Rightarrow> bytes) \<Rightarrow> hash list \<Rightarrow> hash" where
  "tree_hash h hs =
     (let nr = length hs in
      if nr = 1 then hs ! 0
      else if nr = 2 then h (hs ! 0 @ hs ! 1)
      else let cnt = unat (tree_hash_cnt (of_nat nr));
               ints = tree_first_level h hs (2 * cnt - nr) cnt;
               ints = tree_hash_loop h cnt ints
           in h (ints ! 0 @ ints ! 1))"

definition tree_depth :: "u64 \<Rightarrow> nat" where
  "tree_depth nr =
     snd (fold (\<lambda>i (nr, depth).
            if drop_bit i nr > 0 then (drop_bit i nr, depth + i) else (nr, depth))
          [32, 16, 8, 4, 2, 1] (nr, 0))"

definition tree_branch_cnt :: "u64 \<Rightarrow> u64 \<times> nat" where
  "tree_branch_cnt nr =
     fold (\<lambda>i (cnt, depth).
            if push_bit i cnt \<le> nr then (push_bit i cnt, depth + i) else (cnt, depth))
          [32, 16, 8, 4, 2, 1] (1, 0)"

text \<open>The loop fills \<open>branch[depth - 1]\<close>, ..., \<open>branch[0]\<close>: the result lists \<open>branch[0]\<close> first.\<close>

primrec tree_branch_loop :: "(bytes \<Rightarrow> bytes) \<Rightarrow> nat \<Rightarrow> nat \<Rightarrow> hash list \<Rightarrow> hash list" where
  "tree_branch_loop h 0 cnt ints = []"
| "tree_branch_loop h (Suc depth) cnt ints =
     (let cnt = cnt div 2
      in tree_branch_loop h depth cnt (tree_level_inplace h 1 (cnt - 1) ints) @ [ints ! 0])"

definition tree_branch :: "(bytes \<Rightarrow> bytes) \<Rightarrow> hash list \<Rightarrow> hash list" where
  "tree_branch h hs =
     (let nr = length hs; (cnt, depth) = tree_branch_cnt (of_nat nr);
          ints = tree_first_level h (tl hs) (2 * unat cnt - nr - 1) (unat cnt - 1)
      in tree_branch_loop h depth (unat cnt) ints)"

text \<open>The test of a bit of \<open>path\<close>, which may be a null pointer.\<close>

definition path_bit :: "bytes option \<Rightarrow> nat \<Rightarrow> bool" where
  "path_bit path depth =
     (case path of None \<Rightarrow> False
      | Some p \<Rightarrow> p ! (depth div 8) AND push_bit (depth mod 8) 1 \<noteq> 0)"

primrec tree_from_branch_loop ::
  "(bytes \<Rightarrow> bytes) \<Rightarrow> hash list \<Rightarrow> bytes option \<Rightarrow> hash \<Rightarrow> nat \<Rightarrow> bool \<Rightarrow> hash \<times> hash \<Rightarrow> hash \<times> hash" where
  "tree_from_branch_loop h branch path leaf 0 from_leaf buffer = buffer"
| "tree_from_branch_loop h branch path leaf (Suc depth) from_leaf buffer =
     (let leaf_value = (if from_leaf then leaf else h (fst buffer @ snd buffer));
          buffer = (if path_bit path depth then (branch ! depth, leaf_value)
                    else (leaf_value, branch ! depth))
      in tree_from_branch_loop h branch path leaf depth False buffer)"

definition tree_hash_from_branch ::
  "(bytes \<Rightarrow> bytes) \<Rightarrow> hash list \<Rightarrow> nat \<Rightarrow> hash \<Rightarrow> bytes option \<Rightarrow> hash" where
  "tree_hash_from_branch h branch depth leaf path =
     (if depth = 0 then leaf
      else let (b0, b1) = tree_from_branch_loop h branch path leaf depth True ([], [])
           in h (b0 @ b1))"

section \<open>The counts\<close>

text \<open>The position of the highest bit.\<close>

lemma floor_log_exists:
  "0 < n \<Longrightarrow> \<exists>m. 2 ^ m \<le> n \<and> n < 2 * 2 ^ m" for n :: nat
  using ex_power_ivl1 [of 2 n] by auto

lemma floor_log_unique:
  fixes n :: nat
  assumes "2 ^ m \<le> n" "n < 2 * 2 ^ m" "2 ^ k \<le> n" "n < 2 * 2 ^ k"
  shows "m = k"
proof (rule ccontr)
  assume "m \<noteq> k"
  then consider "Suc m \<le> k" | "Suc k \<le> m" by linarith
  then show False
  proof cases
    case 1
    from power_increasing [OF this, of "2 :: nat"] assms show False by simp
  next
    case 2
    from power_increasing [OF this, of "2 :: nat"] assms show False by simp
  qed
qed

lemma highest_bit:
  assumes "2 ^ m \<le> unat (c :: u64)" "unat c < 2 * 2 ^ m"
  shows "bit c n \<Longrightarrow> n \<le> m" "bit c m"
proof -
  have "unat c div 2 ^ m = 1"
    using assms by (auto intro!: div_nat_eqI)
  then have "bit (unat c) m" by (simp add: bit_nat_def)
  then show "bit c m" by (simp add: bit_unsigned_iff)
  show "bit c n \<Longrightarrow> n \<le> m"
  proof (rule ccontr)
    assume "bit c n" "\<not> n \<le> m"
    then have "2 ^ Suc m \<le> (2 :: nat) ^ n" by (intro power_increasing) auto
    then have "unat c div 2 ^ n = 0" using assms(2) by simp
    moreover have "bit (unat c) n" using \<open>bit c n\<close> by (simp add: bit_unsigned_iff bit_imp_le_length)
    ultimately show False by (simp add: bit_nat_def)
  qed
qed

lemma smear_step:
  assumes "\<And>n. bit c' n \<longleftrightarrow> (\<exists>k < s. bit c (n + k))" "t = s + s"
  shows "bit (c' OR drop_bit s c') n \<longleftrightarrow> (\<exists>k < t. bit (c :: u64) (n + k))"
proof -
  have "(\<exists>k < s. bit c (n + k)) \<or> (\<exists>k < s. bit c (n + s + k)) \<longleftrightarrow> (\<exists>k < s + s. bit c (n + k))" (is "?l \<longleftrightarrow> ?r")
  proof
    assume ?r
    then obtain k where k: "k < s + s" "bit c (n + k)" by blast
    show ?l
    proof (cases "k < s")
      case False
      then have "k - s < s" "n + s + (k - s) = n + k" using k by auto
      with k show ?thesis by metis
    qed (use k in blast)
  qed (metis add.assoc add_less_cancel_left trans_less_add1)
  then show ?thesis
    by (simp add: bit_or_iff bit_drop_bit_eq assms add.commute add.left_commute)
qed

lemma smear_bits:
  "bit (fold (\<lambda>i cnt. cnt OR drop_bit i cnt) [1, 2, 4, 8, 16, 32] (c :: u64)) n \<longleftrightarrow>
   (\<exists>k<64. bit c (n + k))"
proof -
  have 1: "bit c n \<longleftrightarrow> (\<exists>k<1. bit c (n + k))" for n by simp
  have 2: "2 = 1 + (1::nat)" "4 = 2 + (2::nat)" "8 = 4 + (4::nat)" "16 = 8 + (8::nat)"
    "32 = 16 + (16::nat)" "64 = 32 + (32::nat)" by simp_all
  note s1 = smear_step [OF 1 2(1)]
  note s2 = smear_step [OF s1 2(2)]
  note s3 = smear_step [OF s2 2(3)]
  note s4 = smear_step [OF s3 2(4)]
  note s5 = smear_step [OF s4 2(5)]
  show ?thesis
    unfolding fold_simps by (rule smear_step [OF s5 2(6)])
qed

lemma tree_hash_cnt_power:
  assumes "2 ^ m \<le> unat nr - 1" "unat nr - 1 < 2 * 2 ^ m"
  shows "tree_hash_cnt nr = 2 ^ m"
proof -
  let ?c = "nr - 1"
  have "nr \<noteq> 0" using assms(1) by (cases "nr = 0") auto
  then have c: "unat ?c = unat nr - 1" by (simp add: unat_minus_one)
  note hb = highest_bit [of m ?c, unfolded c, OF assms]
  have "m < 64" using hb(2) bit_imp_le_length by fastforce
  define w where "w = fold (\<lambda>i cnt. cnt OR drop_bit i cnt) [1, 2, 4, 8, 16, 32] ?c"
  have wb: "bit w n \<longleftrightarrow> (\<exists>k<64. bit ?c (n + k))" for n
    unfolding w_def by (rule smear_bits)
  have s: "bit w n \<longleftrightarrow> n \<le> m" for n
  proof
    show "bit w n \<Longrightarrow> n \<le> m" unfolding wb using hb(1) by fastforce
    assume "n \<le> m"
    then have "n + (m - n) = m" "m - n < 64" using \<open>m < 64\<close> by auto
    with hb(2) show "bit w n" unfolding wb by metis
  qed
  show ?thesis
    unfolding tree_hash_cnt_def Let_def w_def [symmetric]
    by (rule bit_word_eqI) (auto simp: bit_and_iff bit_not_iff bit_drop_bit_eq s bit_exp_iff)
qed

text \<open>The loops over 32, 16, ..., 1 halve the bound that \<open>P\<close> states.\<close>

lemma halving_fold:
  assumes step: "\<And>i x. 0 < i \<Longrightarrow> P (i + i) x \<Longrightarrow> P i (f i x)" and "P 64 x"
  shows "P (1 :: nat) (fold f [32, 16, 8, 4, 2, 1] x)"
proof -
  have "P 32 (f 32 x)" using step [of 32] \<open>P 64 x\<close> by simp
  then have "P 16 (f 16 (f 32 x))" using step [of 16] by simp
  then have "P 8 (f 8 (f 16 (f 32 x)))" using step [of 8] by simp
  then have "P 4 (f 4 (f 8 (f 16 (f 32 x))))" using step [of 4] by simp
  then have "P 2 (f 2 (f 4 (f 8 (f 16 (f 32 x)))))" using step [of 2] by simp
  then have "P 1 (f 1 (f 2 (f 4 (f 8 (f 16 (f 32 x))))))" using step [of 1] by (simp add: numeral_2_eq_2)
  then show ?thesis by simp
qed

lemma tree_depth_log:
  assumes "0 < unat nr"
  shows "2 ^ tree_depth nr \<le> unat nr" "unat nr < 2 * 2 ^ tree_depth nr"
proof -
  define P where "P = (\<lambda>i (c :: u64, d). unat nr div 2 ^ d = unat c \<and> 0 < unat c \<and> unat c < 2 ^ i)"
  let ?f = "\<lambda>i (c :: u64, d). if drop_bit i c > 0 then (drop_bit i c, d + i) else (c, d)"
  have "P 1 (fold ?f [32, 16, 8, 4, 2, 1] (nr, 0))"
  proof (rule halving_fold [of P ?f])
    show "P 64 (nr, 0)" using assms unat_lt_64 [of nr] by (simp add: P_def)
    fix i :: nat and x assume i: "0 < i" and P: "P (i + i) x"
    obtain c d where x: "x = (c, d)" by fastforce
    have u: "unat (drop_bit i c) = unat c div 2 ^ i" by (rule unat_drop_bit)
    show "P i (?f i x)"
    proof (cases "unat c div 2 ^ i = 0")
      case True
      then have "unat c < 2 ^ i" by (simp add: div_eq_0_iff)
      moreover have "\<not> drop_bit i c > 0" using True u by (simp add: word_gt_0 word_eq_unat)
      ultimately show ?thesis using P by (simp add: P_def x)
    next
      case False
      then have "drop_bit i c > 0" using u by (auto simp: word_gt_0 word_eq_unat)
      moreover have "unat c div 2 ^ i < 2 ^ i"
        using P by (simp add: P_def x less_mult_imp_div_less power_add)
      moreover have "unat nr div 2 ^ (d + i) = unat c div 2 ^ i"
        using P by (simp add: P_def x power_add div_mult2_eq)
      ultimately show ?thesis using u False by (simp add: P_def x)
    qed
  qed
  moreover obtain c d where fd: "fold ?f [32, 16, 8, 4, 2, 1] (nr, 0) = (c, d)" by fastforce
  moreover have "tree_depth nr = d" unfolding tree_depth_def fd by simp
  ultimately have "unat nr div 2 ^ tree_depth nr = 1" by (auto simp: P_def)
  moreover have "unat nr mod 2 ^ tree_depth nr < 2 ^ tree_depth nr" by simp
  moreover note div_mod_decomp [of "unat nr" "2 ^ tree_depth nr"]
  ultimately have "unat nr = 2 ^ tree_depth nr + unat nr mod 2 ^ tree_depth nr"
    "unat nr mod 2 ^ tree_depth nr < 2 ^ tree_depth nr" by simp_all
  then show "2 ^ tree_depth nr \<le> unat nr" "unat nr < 2 * 2 ^ tree_depth nr"
    by linarith+
qed

lemma tree_branch_cnt_log:
  assumes "0 < unat nr" "tree_branch_cnt nr = (cnt, depth)"
  shows "unat cnt = 2 ^ depth" "2 ^ depth \<le> unat nr" "unat nr < 2 * 2 ^ depth"
proof -
  define P where "P = (\<lambda>i (c :: u64, d). unat c = 2 ^ d \<and> 2 ^ d \<le> unat nr \<and> unat nr < 2 ^ (d + i) \<and> d + i \<le> 64)"
  let ?f = "\<lambda>i (c :: u64, d). if push_bit i c \<le> nr then (push_bit i c, d + i) else (c, d)"
  have "P 1 (fold ?f [32, 16, 8, 4, 2, 1] (1, 0))"
  proof (rule halving_fold [of P ?f])
    show "P 64 (1, 0)" using assms(1) unat_lt_64 [of nr] by (simp add: P_def)
    fix i :: nat and x assume i: "0 < i" and P: "P (i + i) x"
    obtain c d where x: "x = (c, d)" by fastforce
    have "(2 :: nat) ^ (d + i) < 2 ^ 64"
      using P i by (intro power_strict_increasing) (auto simp: P_def x)
    then have u: "unat (push_bit i c) = 2 ^ (d + i)"
      using P by (simp add: P_def x unat_push_bit_mod power_add)
    show "P i (?f i x)"
      using P i u by (auto simp: P_def x word_le_unat add.assoc)
  qed
  then show "unat cnt = 2 ^ depth" "2 ^ depth \<le> unat nr" "unat nr < 2 * 2 ^ depth"
    unfolding assms(2) [unfolded tree_branch_cnt_def] by (auto simp: P_def)
qed

section \<open>The reference tree\<close>

fun pair_up :: "(bytes \<Rightarrow> bytes) \<Rightarrow> hash list \<Rightarrow> hash list" where
  "pair_up h (x # y # xs) = h (x @ y) # pair_up h xs"
| "pair_up h xs = []"

text \<open>The root of a complete tree of \<open>2 ^ d\<close> leaves.\<close>

primrec merkle_root :: "(bytes \<Rightarrow> bytes) \<Rightarrow> nat \<Rightarrow> hash list \<Rightarrow> hash" where
  "merkle_root h 0 xs = hd xs"
| "merkle_root h (Suc d) xs = merkle_root h d (pair_up h xs)"

text \<open>The complete level of \<open>2 ^ d\<close> entries that \<open>n\<close> leaves are reduced to: the last leaves are paired.\<close>

definition merkle_level :: "(bytes \<Rightarrow> bytes) \<Rightarrow> nat \<Rightarrow> hash list \<Rightarrow> hash list" where
  "merkle_level h d hs = (let k = 2 * 2 ^ d - length hs in take k hs @ pair_up h (drop k hs))"

definition merkle_tree_hash :: "(bytes \<Rightarrow> bytes) \<Rightarrow> hash list \<Rightarrow> hash" where
  "merkle_tree_hash h hs =
     (let d = tree_depth (of_nat (length hs)) in merkle_root h d (merkle_level h d hs))"

lemma length_pair_up [simp]: "length (pair_up h xs) = length xs div 2"
  by (induction h xs rule: pair_up.induct) auto

lemma nth_pair_up: "2 * j + 1 < length xs \<Longrightarrow> pair_up h xs ! j = h (xs ! (2 * j) @ xs ! (2 * j + 1))"
proof (induction h xs arbitrary: j rule: pair_up.induct)
  case (1 h x y xs)
  then show ?case by (cases j) auto
qed auto

lemma pair_up_map:
  "pair_up h xs = map (\<lambda>j. h (xs ! (2 * j) @ xs ! (2 * j + 1))) [0..<length xs div 2]"
  by (rule nth_equalityI) (auto simp: nth_pair_up)

lemma pair_up_snoc: "even (length xs) \<Longrightarrow> pair_up h (xs @ [a, b]) = pair_up h xs @ [h (a @ b)]"
  by (induction h xs rule: pair_up.induct) auto

lemma first_level:
  assumes "k \<le> length hs" "length hs = k + 2 * (cnt - k)"
  shows "tree_first_level h hs k cnt = take k hs @ pair_up h (drop k hs)"
  using assms by (simp add: tree_first_level_def pair_up_map ac_simps)

text \<open>The loop in place computes a level: it reads at or above the index it writes.\<close>

lemma level_inplace:
  assumes "i0 + 2 * cnt \<le> length ints" "i0 \<le> 1"
  shows "take cnt (tree_level_inplace h i0 cnt ints) = pair_up h (take (2 * cnt) (drop i0 ints))
    \<and> length (tree_level_inplace h i0 cnt ints) = length ints
    \<and> drop cnt (tree_level_inplace h i0 cnt ints) = drop cnt ints"
  using assms
proof (induction cnt)
  case 0
  then show ?case by (simp add: tree_level_inplace_def)
next
  case (Suc cnt)
  let ?r = "tree_level_inplace h i0 cnt ints"
  have le: "i0 + 2 * cnt \<le> length ints" using Suc.prems(1) by simp
  have IH: "take cnt ?r = pair_up h (take (2 * cnt) (drop i0 ints))" "length ?r = length ints"
    "drop cnt ?r = drop cnt ints"
    using Suc.IH [OF le Suc.prems(2)] by blast+
  have rd: "?r ! k = ints ! k" if "cnt \<le> k" "k < length ints" for k
    using that nth_drop [of cnt ?r "k - cnt"] nth_drop [of cnt ints "k - cnt"] IH(2,3) by simp
  let ?v = "h (?r ! (i0 + 2 * cnt) @ ?r ! (i0 + 2 * cnt + 1))"
  have v: "?v = h (ints ! (i0 + 2 * cnt) @ ints ! (i0 + 2 * cnt + 1))"
    using Suc.prems by (simp add: rd)
  have step: "tree_level_inplace h i0 (Suc cnt) ints = ?r[cnt := ?v]"
    by (simp add: tree_level_inplace_def)
  have "take (Suc cnt) (?r[cnt := ?v]) = take cnt ?r @ [?v]"
    using Suc.prems IH(2) by (simp add: take_Suc_conv_app_nth)
  moreover have "pair_up h (take (2 * Suc cnt) (drop i0 ints)) = pair_up h (take (2 * cnt) (drop i0 ints)) @ [?v]"
  proof -
    have "take (2 * Suc cnt) (drop i0 ints) =
        take (2 * cnt) (drop i0 ints) @ [ints ! (i0 + 2 * cnt), ints ! (i0 + 2 * cnt + 1)]"
      using Suc.prems(1) by (simp add: take_Suc_conv_app_nth add.assoc)
    then show ?thesis
      unfolding v using Suc.prems(1) by (simp only:) (rule pair_up_snoc, simp add: min_def)
  qed
  moreover have "drop (Suc cnt) (?r[cnt := ?v]) = drop (Suc cnt) ints"
    using arg_cong [OF IH(3), of tl] by (simp only: drop_update_cancel lessI tl_drop flip: drop_Suc)
  ultimately show ?case
    using step IH by simp
qed

lemma tree_hash_loop_root:
  "2 * 2 ^ d \<le> length ints \<Longrightarrow>
   (let r = tree_hash_loop h (2 * 2 ^ d) ints in h (r ! 0 @ r ! 1)) =
     merkle_root h (Suc d) (take (2 * 2 ^ d) ints)"
proof (induction d arbitrary: ints)
  case 0
  then show ?case
    by (cases ints; cases "tl ints") (auto simp: tree_hash_loop.simps numeral_2_eq_2)
next
  case (Suc d)
  have len: "0 + 2 * (2 * 2 ^ d) \<le> length ints" using Suc.prems by simp
  note lvl = level_inplace [OF len, of h, simplified]
  have "2 * 2 ^ d \<le> length (tree_level_inplace h 0 (2 * 2 ^ d) ints)"
    using lvl Suc.prems by simp
  note IH = Suc.IH [OF this]
  have "tree_hash_loop h (2 * 2 ^ Suc d) ints =
      tree_hash_loop h (2 * 2 ^ d) (tree_level_inplace h 0 (2 * 2 ^ d) ints)"
  proof -
    have "2 < 2 * (2 :: nat) ^ Suc d" using one_le_power [of "2 :: nat" d] unfolding power_Suc by linarith
    then show ?thesis by (subst tree_hash_loop.simps) (simp only: if_True, simp)
  qed
  then show ?case using IH lvl by simp
qed

lemma merkle_level_pairs: "length hs = 2 * 2 ^ d \<Longrightarrow> merkle_level h d hs = pair_up h hs"
  and merkle_level_full: "length hs = 2 ^ d \<Longrightarrow> merkle_level h d hs = hs"
  by (simp_all add: merkle_level_def)

lemma tree_depth_unique:
  "\<lbrakk>2 ^ d \<le> unat nr; unat nr < 2 * 2 ^ d\<rbrakk> \<Longrightarrow> tree_depth nr = d"
  using tree_depth_log [of nr] floor_log_unique [of "tree_depth nr" "unat nr" d]
  by (cases "nr = 0") auto

lemma unat_power2_64: "2 ^ m < (2 :: nat) ^ 64 \<Longrightarrow> unat (2 ^ m :: u64) = 2 ^ m"
  using unat_of_nat_small [of "2 ^ m", where 'a = 64] by simp

lemma tree_hash_merkle:
  assumes "0 < length hs" "length hs < 2 ^ 64"
  shows "tree_hash h hs = merkle_tree_hash h hs"
proof -
  let ?nr = "of_nat (length hs) :: u64"
  have u: "unat ?nr = length hs" using assms(2) by (intro unat_of_nat_small) simp
  have rec_hash: "tree_hash h hs = merkle_root h (Suc m) (take k hs @ pair_up h (drop k hs))"
    if m: "2 ^ Suc m < length hs" "length hs \<le> 2 * 2 ^ Suc m"
      and k: "k = 2 * 2 ^ Suc m - length hs" for m k
  proof -
    have "2 ^ Suc m \<le> unat ?nr - 1" "unat ?nr - 1 < 2 * 2 ^ Suc m"
      using m u by linarith+
    then have cnt: "unat (tree_hash_cnt ?nr) = 2 * 2 ^ m"
      using tree_hash_cnt_power [of "Suc m" ?nr] m(1) assms(2) unat_power2_64 [of "Suc m"] by simp
    have "tree_first_level h hs k (2 * 2 ^ m) = take k hs @ pair_up h (drop k hs)"
      using m k by (intro first_level) auto
    moreover from this have "length (tree_first_level h hs k (2 * 2 ^ m)) = 2 * 2 ^ m"
      using m k by simp
    moreover have "2 < length hs"
      using m(1) one_le_power [of "2 :: nat" m] unfolding power_Suc by linarith
    ultimately show ?thesis
      using m cnt tree_hash_loop_root [of m "tree_first_level h hs k (2 * 2 ^ m)" h]
      by (simp add: tree_hash_def k Let_def)
  qed
  define d where "d = tree_depth ?nr"
  have d: "2 ^ d \<le> length hs" "length hs < 2 * 2 ^ d"
    using tree_depth_log [of ?nr] assms(1) u unfolding d_def by simp_all
  have goal: "merkle_tree_hash h hs = merkle_root h d (merkle_level h d hs)"
    by (simp add: merkle_tree_hash_def d_def Let_def)
  show ?thesis
  proof (cases "length hs = 2 ^ d")
    case full: True
    consider "d = 0" | "d = 1" | m where "d = Suc (Suc m)"
      by (cases d; cases "d - 1") auto
    then show ?thesis
    proof cases
      case 1
      then show ?thesis using full unfolding goal
        by (cases hs) (auto simp: merkle_level_full tree_hash_def)
    next
      case 2
      then show ?thesis using full unfolding goal
        by (cases hs; cases "tl hs") (auto simp: merkle_level_full tree_hash_def)
    next
      case (3 m)
      then show ?thesis using full rec_hash [of m 0] by (simp add: goal merkle_level_full)
    qed
  next
    case False
    then obtain m where "d = Suc m" using d by (cases d) auto
    then show ?thesis
      using False d rec_hash [of m "2 * 2 ^ d - length hs"] by (simp add: goal merkle_level_def Let_def)
  qed
qed

section \<open>Branches\<close>

text \<open>The fold of a branch when the leaf is the first one.\<close>

primrec climb :: "(bytes \<Rightarrow> bytes) \<Rightarrow> hash list \<Rightarrow> nat \<Rightarrow> hash \<Rightarrow> hash" where
  "climb h branch 0 v = v"
| "climb h branch (Suc d) v = climb h branch d (h (v @ branch ! d))"

lemma from_branch_loop_climb:
  "(let (b0, b1) = tree_from_branch_loop h branch None leaf d False b in h (b0 @ b1)) =
     climb h branch d (h (fst b @ snd b))"
  by (induction d arbitrary: b) (auto simp: path_bit_def Let_def split_beta)

lemma tree_hash_from_branch_climb: "tree_hash_from_branch h branch d leaf None = climb h branch d leaf"
proof (cases d)
  case (Suc d')
  then show ?thesis
    using from_branch_loop_climb [of h branch leaf d' "(leaf, branch ! d')"]
    by (simp add: tree_hash_from_branch_def path_bit_def)
qed (simp add: tree_hash_from_branch_def)

lemma length_tree_branch_loop [simp]: "length (tree_branch_loop h d cnt ints) = d"
  by (induction d arbitrary: cnt ints) (auto simp: Let_def)

lemma climb_cong: "(\<And>i. i < d \<Longrightarrow> b ! i = b' ! i) \<Longrightarrow> climb h b d v = climb h b' d v"
  by (induction d arbitrary: v) auto

lemma climb_branch_loop:
  "2 ^ d - 1 \<le> length ints \<Longrightarrow>
   climb h (tree_branch_loop h d (2 ^ d) ints) d x = merkle_root h d (x # take (2 ^ d - 1) ints)"
proof (induction d arbitrary: ints x)
  case (Suc d)
  have nz: "0 < (2 :: nat) ^ d" by simp
  obtain y ys where ints: "ints = y # ys" using Suc.prems nz by (cases ints) auto
  let ?lvl = "tree_level_inplace h 1 (2 ^ d - 1) ints"
  have "1 + 2 * (2 ^ d - 1) \<le> length ints" using Suc.prems nz unfolding power_Suc by linarith
  note lvl = level_inplace [OF this, of h]
  have "2 ^ d - 1 \<le> length ?lvl" using lvl Suc.prems by simp
  note IH = Suc.IH [OF this, of "h (x @ y)"]
  have tk: "take (2 ^ Suc d - 1) ints = y # take (2 * (2 ^ d - 1)) (drop 1 ints)"
  proof -
    have "2 ^ Suc d - 1 = Suc (2 * ((2 :: nat) ^ d - 1))" using nz unfolding power_Suc by linarith
    then show ?thesis by (simp only: ints) simp
  qed
  have "climb h (tree_branch_loop h (Suc d) (2 ^ Suc d) ints) (Suc d) x =
      climb h (tree_branch_loop h d (2 ^ d) ?lvl @ [y]) d (h (x @ y))"
    by (simp add: Let_def nth_append ints)
  also have "\<dots> = climb h (tree_branch_loop h d (2 ^ d) ?lvl) d (h (x @ y))"
    by (rule climb_cong) (simp add: nth_append)
  also have "\<dots> = merkle_root h (Suc d) (x # take (2 ^ Suc d - 1) ints)"
    unfolding IH tk using lvl by simp
  finally show ?case .
qed simp

lemma tree_branch_proves_first:
  assumes "0 < length hs" "length hs < 2 ^ 64"
  shows "tree_hash_from_branch h (tree_branch h hs) (tree_depth (of_nat (length hs))) (hs ! 0) None =
    tree_hash h hs"
proof -
  let ?nr = "of_nat (length hs) :: u64"
  obtain x xs where hs: "hs = x # xs" using assms(1) by (cases hs) auto
  obtain cnt d where cd: "tree_branch_cnt ?nr = (cnt, d)" by fastforce
  have u: "unat ?nr = length hs" using assms(2) by (intro unat_of_nat_small) simp
  have c: "unat cnt = 2 ^ d" "2 ^ d \<le> length hs" "length hs < 2 * 2 ^ d"
    using tree_branch_cnt_log [OF _ cd] assms(1) u by simp_all
  have dep: "tree_depth ?nr = d" using c u by (intro tree_depth_unique) simp_all
  let ?k = "2 * 2 ^ d - length hs - 1"
  let ?ints = "tree_first_level h xs ?k (2 ^ d - 1)"
  have ints: "?ints = take ?k xs @ pair_up h (drop ?k xs)"
    using c by (intro first_level) (auto simp: hs)
  have lvl: "x # ?ints = merkle_level h d hs"
  proof -
    have "2 * 2 ^ d - length hs = Suc ?k" using c by simp
    then show ?thesis unfolding ints merkle_level_def by (simp add: hs Let_def)
  qed
  have br: "tree_branch h hs = tree_branch_loop h d (2 ^ d) ?ints"
    unfolding tree_branch_def Let_def cd prod.case c by (simp add: hs)
  have "length ?ints = 2 ^ d - 1" using c unfolding ints by (auto simp: hs)
  then have "climb h (tree_branch h hs) d x = merkle_root h d (x # ?ints)"
    using climb_branch_loop [of d ?ints h x] br by simp
  then show ?thesis
    unfolding tree_hash_from_branch_climb tree_hash_merkle [OF assms] merkle_tree_hash_def Let_def dep lvl
    by (simp add: hs)
qed

text \<open>The root that a branch leads to from a value, and the inputs that are hashed on the way, the
  lowest first.\<close>

abbreviation node_input :: "hash list \<Rightarrow> bytes option \<Rightarrow> nat \<Rightarrow> hash \<Rightarrow> bytes" where
  "node_input branch path d v \<equiv> (if path_bit path d then branch ! d @ v else v @ branch ! d)"

primrec climb_path :: "(bytes \<Rightarrow> bytes) \<Rightarrow> hash list \<Rightarrow> bytes option \<Rightarrow> nat \<Rightarrow> hash \<Rightarrow> hash" where
  "climb_path h branch path 0 v = v"
| "climb_path h branch path (Suc d) v = climb_path h branch path d (h (node_input branch path d v))"

primrec node_inputs :: "(bytes \<Rightarrow> bytes) \<Rightarrow> hash list \<Rightarrow> bytes option \<Rightarrow> nat \<Rightarrow> hash \<Rightarrow> bytes list" where
  "node_inputs h branch path 0 v = []"
| "node_inputs h branch path (Suc d) v =
     node_input branch path d v # node_inputs h branch path d (h (node_input branch path d v))"

lemma from_branch_loop_climbs:
  "(let (b0, b1) = tree_from_branch_loop h branch path leaf d False b in h (b0 @ b1)) =
   climb_path h branch path d (h (fst b @ snd b))"
  by (induction d arbitrary: b) (simp_all add: Let_def split_beta)

lemma tree_hash_from_branch_climbs: "tree_hash_from_branch h branch d leaf path = climb_path h branch path d leaf"
  using from_branch_loop_climbs [of h branch path leaf]
  by (cases d) (simp_all add: tree_hash_from_branch_def Let_def)

lemma climb_path_binding:
  assumes len: "\<And>m. length (h m) = 32"
    and "\<And>i. i < d \<Longrightarrow> length (branch ! i) = 32 \<and> length (branch' ! i) = 32"
    and "length v = 32" "length v' = 32" "v \<noteq> v'"
    and "climb_path h branch path d v = climb_path h branch' path d v'"
  shows "\<exists>i<d. node_inputs h branch path d v ! i \<noteq> node_inputs h branch' path d v' ! i \<and>
    h (node_inputs h branch path d v ! i) = h (node_inputs h branch' path d v' ! i)"
  using assms(2-)
proof (induction d arbitrary: v v')
  case (Suc d)
  let ?m = "node_input branch path d v" and ?m' = "node_input branch' path d v'"
  have ne: "?m \<noteq> ?m'" using Suc.prems(1) [of d] Suc.prems(2-4) by auto
  show ?case
  proof (cases "h ?m = h ?m'")
    case True
    then show ?thesis using ne by (intro exI [of _ 0]) simp
  next
    case False
    then have "\<exists>i<d. node_inputs h branch path d (h ?m) ! i \<noteq> node_inputs h branch' path d (h ?m') ! i \<and>
        h (node_inputs h branch path d (h ?m) ! i) = h (node_inputs h branch' path d (h ?m') ! i)"
      by (intro Suc.IH) (use Suc.prems len in simp_all)
    then obtain i where "i < d" "node_inputs h branch path d (h ?m) ! i \<noteq> node_inputs h branch' path d (h ?m') ! i"
        "h (node_inputs h branch path d (h ?m) ! i) = h (node_inputs h branch' path d (h ?m') ! i)"
      by blast
    then show ?thesis by (intro exI [of _ "Suc i"]) simp
  qed
qed simp

section \<open>Properties\<close>

text \<open>C6. \<open>tree_hash\<close> is the Merkle root: for every non-empty list of leaves, the value that the bit
  tricks, the first pass and the loop in place compute is the root of the complete binary tree
  over the leaves, the last of which are paired first when their number is not a power of two.\<close>

theorem tree_hash_is_merkle_root:
  assumes "0 < length hs" "length hs < 2 ^ 64"
  shows "tree_hash h hs = merkle_tree_hash h hs"
  by (rule tree_hash_merkle [OF assms])

theorem tree_hash_is_merkle_root_witness:
  "tree_hash (\<lambda>m. 255 # m) [[1], [2], [3]] = merkle_tree_hash (\<lambda>m. 255 # m) [[1], [2], [3]]"
  by (rule tree_hash_is_merkle_root) simp_all

text \<open>C13. The branch of the first leaf is a proof of membership: folding the branch that \<open>tree_branch\<close>
  extracts over the first leaf, at the depth \<open>tree_depth\<close> gives, recomputes the tree hash.\<close>

theorem merkle_branch_complete:
  assumes "0 < length hs" "length hs < 2 ^ 64"
  shows "tree_hash_from_branch h (tree_branch h hs) (tree_depth (of_nat (length hs))) (hs ! 0) None =
    tree_hash h hs"
  by (rule tree_branch_proves_first [OF assms])

theorem merkle_branch_complete_witness:
  "tree_hash_from_branch (\<lambda>m. 255 # m) (tree_branch (\<lambda>m. 255 # m) [[1], [2], [3]])
     (tree_depth (of_nat (length [[1], [2], [3 :: byte]]))) ([[1], [2], [3]] ! 0) None =
   tree_hash (\<lambda>m. 255 # m) [[1], [2], [3]]"
  by (rule merkle_branch_complete) simp_all

text \<open>C12. A branch binds its leaf: when two different 32-byte leaves climb to the same root along the
  same path, with any branches of 32-byte hashes, then at some level the two computations hash different
  inputs to the same value. The colliding pair is one of the pairs that were hashed.\<close>

theorem merkle_branch_sound:
  assumes "\<And>m. length (h m) = 32"
    and "\<And>i. i < d \<Longrightarrow> length (branch ! i) = 32 \<and> length (branch' ! i) = 32"
    and "length leaf = 32" "length leaf' = 32" "leaf \<noteq> leaf'"
    and "tree_hash_from_branch h branch d leaf path = tree_hash_from_branch h branch' d leaf' path"
  shows "\<exists>i<d. node_inputs h branch path d leaf ! i \<noteq> node_inputs h branch' path d leaf' ! i \<and>
    h (node_inputs h branch path d leaf ! i) = h (node_inputs h branch' path d leaf' ! i)"
  using assms unfolding tree_hash_from_branch_climbs by (rule climb_path_binding)

theorem merkle_branch_sound_witness:
  "\<exists>i<1. node_inputs (\<lambda>_. replicate 32 0) [replicate 32 5] None 1 (replicate 32 1) ! i \<noteq>
         node_inputs (\<lambda>_. replicate 32 0) [replicate 32 6] None 1 (replicate 32 2) ! i"
  using merkle_branch_sound [of "\<lambda>_. replicate 32 0" 1 "[replicate 32 5]" "[replicate 32 6]" "replicate 32 1"
    "replicate 32 2" None]
  by (auto simp: tree_hash_from_branch_def path_bit_def numeral_eq_Suc)

text \<open>\<open>tree_depth\<close> is the binary logarithm rounded down, for every non-zero count of the machine word's width;
  it is below 64.\<close>

lemma tree_depth_is_log:
  assumes "nr \<noteq> 0"
  shows "2 ^ tree_depth nr \<le> unat nr \<and> unat nr < 2 * 2 ^ tree_depth nr \<and> tree_depth nr < 64"
proof -
  have "0 < unat nr" using assms by (simp add: unat_gt_0)
  note log = tree_depth_log [OF this]
  have "(2 :: nat) ^ tree_depth nr < 2 ^ 64" using order.strict_trans1 [OF log(1) unat_lt_64] by simp
  then show ?thesis using log power_less_imp_less_exp [of "2 :: nat" "tree_depth nr" 64] by simp
qed

end
