(* ===== verification/StringTools.thy ===== *)
theory StringTools
  imports Prelude
begin

text \<open>Strings, \<open>src/src/common/string_tools.cpp\<close> and \<open>string_tools.h\<close>: hexadecimal text, splitting at
  a delimiter, IP addresses, time intervals and trimming. A string is a list of bytes. An
  overload that throws returns a sum; one that returns a \<open>bool\<close> and writes through a reference
  returns the truth value with what it wrote, also when it fails half-way.

  The theory shows that the overloads agree, that hexadecimal text is read back, which text is
  accepted, and that an address and port that were printed are parsed back. The overload of
  \<open>extract\<close> with an offset returns the wrong part of the text.\<close>

section \<open>Numbers in decimal\<close>

text \<open>\<open>std::to_string\<close>, \<open>operator<<\<close> and \<open>%d\<close> on a number that is not negative.\<close>

fun to_string :: "nat \<Rightarrow> bytes" where
  "to_string n = (if n < 10 then [of_nat (48 + n)] else to_string (n div 10) @ [of_nat (48 + n mod 10)])"

declare to_string.simps [simp del]

definition isdigit :: "byte \<Rightarrow> bool" where
  "isdigit c \<longleftrightarrow> 48 \<le> c \<and> c \<le> 57"

definition dec_value :: "bytes \<Rightarrow> nat" where
  "dec_value cs = foldl (\<lambda>n c. 10 * n + (unat c - 48)) 0 cs"

section \<open>Hexadecimal text\<close>

datatype string_error =
    FromHexInvalidCharacter
  | FromHexInvalidStringSize
  | FromHexInvalidBufferSize
  | FromStringFailed
  | UndefinedNumber

definition characterValues :: bytes where
  "characterValues =
     replicate 48 0xff @ [0x00, 0x01, 0x02, 0x03, 0x04, 0x05, 0x06, 0x07, 0x08, 0x09] @
     replicate 7 0xff @ [0x0a, 0x0b, 0x0c, 0x0d, 0x0e, 0x0f] @
     replicate 26 0xff @ [0x0a, 0x0b, 0x0c, 0x0d, 0x0e, 0x0f] @ replicate 153 0xff"

definition fromHex_char :: "byte \<Rightarrow> string_error + byte" where
  "fromHex_char character =
     (let v = characterValues ! unat character
      in if v > 0x0f then Inl FromHexInvalidCharacter else Inr v)"

definition fromHex_char_opt :: "byte \<Rightarrow> byte option" where
  "fromHex_char_opt character =
     (if characterValues ! unat character > 0x0f then None else Some (characterValues ! unat character))"

text \<open>The loop of the overloads that throw, at index \<open>i\<close> of the buffer \<open>dat\<close>.\<close>

fun fromHex_fill :: "nat \<Rightarrow> bytes \<Rightarrow> bytes \<Rightarrow> string_error + bytes" where
  "fromHex_fill i (c1 # c2 # str) dat =
     bindE (fromHex_char c1) (\<lambda>v1. bindE (fromHex_char c2) (\<lambda>v2.
       fromHex_fill (Suc i) str (dat[i := push_bit 4 v1 OR v2])))"
| "fromHex_fill i _ dat = Inr dat"

definition fromHex_buffer :: "bytes \<Rightarrow> bytes \<Rightarrow> u64 \<Rightarrow> string_error + bytes \<times> nat" where
  "fromHex_buffer str dat bufferSize =
     bindE (guardE (even (length str)) FromHexInvalidStringSize) (\<lambda>_.
     bindE (guardE (length str div 2 \<le> unat bufferSize) FromHexInvalidBufferSize) (\<lambda>_.
     bindE (fromHex_fill 0 str dat) (\<lambda>dat. Inr (dat, length str div 2))))"

text \<open>The loop of the overloads that return a truth value: the buffer keeps what was written before
  the bad character.\<close>

fun fromHex_try :: "nat \<Rightarrow> bytes \<Rightarrow> bytes \<Rightarrow> bool \<times> bytes" where
  "fromHex_try i (c1 # c2 # str) dat =
     (case fromHex_char_opt c1 of None \<Rightarrow> (False, dat)
      | Some value1 \<Rightarrow>
          (case fromHex_char_opt c2 of None \<Rightarrow> (False, dat)
           | Some value2 \<Rightarrow> fromHex_try (Suc i) str (dat[i := push_bit 4 value1 OR value2])))"
| "fromHex_try i _ dat = (True, dat)"

definition fromHex_bool :: "bytes \<Rightarrow> bytes \<Rightarrow> u64 \<Rightarrow> nat \<Rightarrow> bool \<times> bytes \<times> nat" where
  "fromHex_bool str dat bufferSize sz =
     (if odd (length str) then (False, dat, sz)
      else if length str div 2 > unat bufferSize then (False, dat, sz)
      else let (r, dat) = fromHex_try 0 str dat
           in if r then (True, dat, length str div 2) else (False, dat, sz))"

definition fromHex_vector :: "bytes \<Rightarrow> string_error + bytes" where
  "fromHex_vector str =
     bindE (guardE (even (length str)) FromHexInvalidStringSize) (\<lambda>_.
     fromHex_fill 0 str (replicate (length str div 2) 0))"

fun fromHex_push :: "bytes \<Rightarrow> bytes \<Rightarrow> bool \<times> bytes" where
  "fromHex_push (c1 # c2 # str) dat =
     (case fromHex_char_opt c1 of None \<Rightarrow> (False, dat)
      | Some value1 \<Rightarrow>
          (case fromHex_char_opt c2 of None \<Rightarrow> (False, dat)
           | Some value2 \<Rightarrow> fromHex_push str (dat @ [push_bit 4 value1 OR value2])))"
| "fromHex_push _ dat = (True, dat)"

definition fromHex_append :: "bytes \<Rightarrow> bytes \<Rightarrow> bool \<times> bytes" where
  "fromHex_append str dat = (if odd (length str) then (False, dat) else fromHex_push str dat)"

text \<open>\<open>podFromHex\<close> writes into the bytes \<open>val\<close> of a value; \<open>sizeof(val)\<close> is their number.\<close>

definition podFromHex :: "bytes \<Rightarrow> bytes \<Rightarrow> bool \<times> bytes" where
  "podFromHex str val =
     (let (r, val', outSize) = fromHex_bool str val (of_nat (length val)) 0
      in (r \<and> outSize = length val, val'))"

definition hex_digits :: bytes where
  "hex_digits = bytes_of ''0123456789abcdef''"

fun toHex :: "bytes \<Rightarrow> bytes" where
  "toHex [] = []"
| "toHex (b # dat) =
     hex_digits ! unat (drop_bit 4 b) # hex_digits ! unat (b AND 15) # toHex dat"

fun toHex_append :: "bytes \<Rightarrow> bytes \<Rightarrow> bytes" where
  "toHex_append [] str = str"
| "toHex_append (b # dat) str =
     toHex_append dat (str @ [hex_digits ! unat (drop_bit 4 b)] @ [hex_digits ! unat (b AND 15)])"

definition podToHex :: "bytes \<Rightarrow> bytes" where
  "podToHex s = toHex s"

section \<open>Splitting\<close>

text \<open>\<open>text.find(delimiter, offset)\<close>.\<close>

fun find_char :: "byte \<Rightarrow> bytes \<Rightarrow> nat option" where
  "find_char d [] = None"
| "find_char d (c # str) = (if c = d then Some 0 else map_option Suc (find_char d str))"

definition find_from :: "byte \<Rightarrow> bytes \<Rightarrow> nat \<Rightarrow> nat option" where
  "find_from d str offset = map_option (\<lambda>p. offset + p) (find_char d (drop offset str))"

text \<open>The extracted part and the new value of \<open>text\<close>.\<close>

definition extract_text :: "bytes \<Rightarrow> byte \<Rightarrow> bytes \<times> bytes" where
  "extract_text str delimiter =
     (case find_from delimiter str 0 of
        Some delimiterPosition \<Rightarrow> (take delimiterPosition str, drop (delimiterPosition + 1) str)
      | None \<Rightarrow> (str, []))"

text \<open>The extracted part and the new value of \<open>offset\<close>.\<close>

definition extract_offset :: "bytes \<Rightarrow> byte \<Rightarrow> nat \<Rightarrow> bytes \<times> nat" where
  "extract_offset str delimiter offset =
     (case find_from delimiter str offset of
        Some delimiterPosition \<Rightarrow>
          (let offset = delimiterPosition + 1
           in (take delimiterPosition (drop offset str), offset))
      | None \<Rightarrow> (let offset = length str in (drop offset str, offset)))"

lemma find_char_bound: "find_char d str = Some p \<Longrightarrow> p < length str"
  by (induction str arbitrary: p) (auto split: if_splits)

text \<open>The reader of one value, \<open>fromString<T>\<close>, is an argument: the template's type gives it.\<close>

function fromDelimitedString ::
  "(bytes \<Rightarrow> string_error + 'a) \<Rightarrow> bytes \<Rightarrow> byte \<Rightarrow> nat \<Rightarrow> 'a list \<Rightarrow> string_error + 'a list" where
  "fromDelimitedString fromString source delimiter offset dat =
     (if offset = length source then Inr dat
      else let (part, offset) = extract_offset source delimiter offset
           in case fromString part of Inl e \<Rightarrow> Inl e
              | Inr v \<Rightarrow> fromDelimitedString fromString source delimiter offset (dat @ [v]))"
  by pat_completeness auto
termination
  by (relation "measure (\<lambda>(_, source, _, offset, _).
        if offset > length source then 1 else length source - offset)")
    (auto simp: extract_offset_def find_from_def Let_def split: option.splits
      dest!: find_char_bound)

section \<open>Addresses, intervals, trimming\<close>

definition ipAddressToString :: "u32 \<Rightarrow> bytes" where
  "ipAddressToString ip =
     to_string (unat (ip AND 0xFF)) @ bytes_of ''.'' @
     to_string (unat (drop_bit 8 ip AND 0xFF)) @ bytes_of ''.'' @
     to_string (unat (drop_bit 16 ip AND 0xFF)) @ bytes_of ''.'' @
     to_string (unat (drop_bit 24 ip AND 0xFF))"

definition isspace :: "byte \<Rightarrow> bool" where
  "isspace c \<longleftrightarrow> c = 32 \<or> (9 \<le> c \<and> c \<le> 13)"

text \<open>The directive \<open>%d\<close> of \<open>sscanf\<close>: spaces, a sign, digits. \<open>Inr None\<close> is a matching failure; a
  number outside the range of \<open>int\<close> has no defined result.\<close>

definition scan_d :: "bytes \<Rightarrow> string_error + (u32 \<times> bytes) option" where
  "scan_d str =
     (let str = dropWhile isspace str;
          (neg, str) = (case str of c # cs \<Rightarrow> if c = 45 then (True, cs) else if c = 43 then (False, cs)
                                     else (False, str) | [] \<Rightarrow> (False, []));
          digits = takeWhile isdigit str;
          v = (if neg then - int (dec_value digits) else int (dec_value digits))
      in if digits = [] then Inr None
         else if - (2 ^ 31) \<le> v \<and> v < 2 ^ 31 then Inr (Some (word_of_int v, dropWhile isdigit str))
         else Inl UndefinedNumber)"

text \<open>An ordinary character of the format.\<close>

definition scan_char :: "byte \<Rightarrow> bytes \<Rightarrow> bytes option" where
  "scan_char c str = (case str of d # str \<Rightarrow> if d = c then Some str else None | [] \<Rightarrow> None)"

text \<open>The conversions of a format that consists of \<open>%d\<close> directives, each but the last followed by one
  character; the result are the values assigned.\<close>

fun scan_format :: "byte list \<Rightarrow> bytes \<Rightarrow> string_error + u32 list" where
  "scan_format seps str =
     bindE (scan_d str) (\<lambda>r.
       case r of None \<Rightarrow> Inr []
       | Some (v, str) \<Rightarrow>
           (case seps of [] \<Rightarrow> Inr [v]
            | c # seps \<Rightarrow>
                (case scan_char c str of None \<Rightarrow> Inr [v]
                 | Some str \<Rightarrow> bindE (scan_format seps str) (\<lambda>vs. Inr (v # vs)))))"

text \<open>\<open>None\<close> is the result \<open>false\<close>; otherwise the address and the port.\<close>

definition parseIpAddressAndPort :: "bytes \<Rightarrow> string_error + (u32 \<times> u32) option" where
  "parseIpAddressAndPort addr =
     bindE (scan_format (bytes_of ''...:'') addr) (\<lambda>v.
       if length v \<noteq> 5 then Inr None
       else if \<exists>x \<in> set (take 4 v). x > 0xff then Inr None
       else Inr (Some (push_bit 24 (v ! 3) OR push_bit 16 (v ! 2) OR push_bit 8 (v ! 1) OR v ! 0, v ! 4)))"

text \<open>\<open>std::setw(2)\<close> with \<open>std::setfill('0')\<close>.\<close>

definition setw2 :: "bytes \<Rightarrow> bytes" where
  "setw2 s = replicate (2 - length s) 48 @ s"

definition timeIntervalToString :: "u64 \<Rightarrow> bytes" where
  "timeIntervalToString intervalInSeconds =
     (let tl = intervalInSeconds;
          days = tl div (60 * 60 * 24); tl = tl mod (60 * 60 * 24);
          hours = tl div (60 * 60); tl = tl mod (60 * 60);
          minutes = tl div 60; tl = tl mod 60;
          seconds = tl
      in bytes_of ''d'' @ to_string (unat days) @ bytes_of ''.h'' @ setw2 (to_string (unat hours)) @
         bytes_of ''.m'' @ setw2 (to_string (unat minutes)) @
         bytes_of ''.s'' @ setw2 (to_string (unat seconds)))"

text \<open>\<open>" \t\n\r\f\v"\<close>\<close>

definition whitespace :: bytes where
  "whitespace = [32, 9, 10, 13, 12, 11]"

fun find_first_not_of :: "bytes \<Rightarrow> bytes \<Rightarrow> nat option" where
  "find_first_not_of ws [] = None"
| "find_first_not_of ws (c # str) =
     (if c \<in> set ws then map_option Suc (find_first_not_of ws str) else Some 0)"

definition find_last_not_of :: "bytes \<Rightarrow> bytes \<Rightarrow> nat option" where
  "find_last_not_of ws str =
     map_option (\<lambda>p. length str - 1 - p) (find_first_not_of ws (rev str))"

text \<open>\<open>npos + 1\<close> is zero, and erasing from zero leaves nothing.\<close>

definition rightTrim :: "bytes \<Rightarrow> bytes" where
  "rightTrim str =
     (case find_last_not_of whitespace str of Some p \<Rightarrow> take (p + 1) str | None \<Rightarrow> [])"

definition leftTrim :: "bytes \<Rightarrow> bytes" where
  "leftTrim str =
     (case find_first_not_of whitespace str of Some p \<Rightarrow> drop p str | None \<Rightarrow> [])"

definition trim :: "bytes \<Rightarrow> bytes" where
  "trim str = leftTrim (rightTrim str)"

section \<open>Decimal numbers\<close>

lemma to_string_small: "n < 10 \<Longrightarrow> to_string n = [of_nat (48 + n)]"
  and to_string_large: "\<not> n < 10 \<Longrightarrow> to_string n = to_string (n div 10) @ [of_nat (48 + n mod 10)]"
  by (subst to_string.simps, simp)+

lemma unat_digit [simp]: "n < 10 \<Longrightarrow> unat (of_nat (48 + n) :: byte) = 48 + n"
  by (simp add: unat_of_nat_small del: of_nat_add)

lemma isdigit_digit: "n < 10 \<Longrightarrow> isdigit (of_nat (48 + n))"
  unfolding isdigit_def word_le_unat unat_digit by simp

lemma to_string_digits: "c \<in> set (to_string n) \<Longrightarrow> isdigit c"
proof (induction n arbitrary: c rule: to_string.induct)
  case (1 n)
  then show ?case
    by (cases "n < 10") (auto simp: to_string_small to_string_large isdigit_digit simp del: of_nat_add)
qed

lemma to_string_nonempty [simp]: "to_string n \<noteq> []"
  by (cases "n < 10") (simp_all add: to_string_small to_string_large)

lemma dec_value_snoc [simp]: "dec_value (cs @ [c]) = 10 * dec_value cs + (unat c - 48)"
  by (simp add: dec_value_def)

lemma dec_value_to_string [simp]: "dec_value (to_string n) = n"
proof (induction n rule: to_string.induct)
  case (1 n)
  show ?case
  proof (cases "n < 10")
    case True
    then show ?thesis using unat_digit [of n] by (simp add: to_string_small dec_value_def del: unat_digit of_nat_add)
  next
    case False
    then show ?thesis using 1 by (simp add: to_string_large del: of_nat_add)
  qed
qed

lemma length_to_string: "n < 10 ^ k \<Longrightarrow> 0 < k \<Longrightarrow> length (to_string n) \<le> k"
proof (induction n arbitrary: k rule: to_string.induct)
  case (1 n)
  show ?case
  proof (cases "n < 10")
    case True
    then show ?thesis using 1 by (simp add: to_string_small)
  next
    case False
    then obtain j where k: "k = Suc j" "0 < j" using 1 by (cases k; cases "k - 1") auto
    have "n div 10 < 10 ^ j" using 1(2) k by (simp add: less_mult_imp_div_less)
    then show ?thesis using False 1(1) k by (simp add: to_string_large)
  qed
qed

section \<open>Hexadecimal text\<close>

text \<open>The reference reader.\<close>

fun hex_decode :: "bytes \<Rightarrow> bytes option" where
  "hex_decode (c1 # c2 # str) =
     (case (fromHex_char_opt c1, fromHex_char_opt c2, hex_decode str) of
        (Some v1, Some v2, Some d) \<Rightarrow> Some ((push_bit 4 v1 OR v2) # d) | _ \<Rightarrow> None)"
| "hex_decode [] = Some []"
| "hex_decode [c] = None"

lemma fromHex_char_agree:
  "fromHex_char c = (case fromHex_char_opt c of None \<Rightarrow> Inl FromHexInvalidCharacter | Some v \<Rightarrow> Inr v)"
  by (simp add: fromHex_char_def fromHex_char_opt_def)

lemma hex_decode_length: "hex_decode str = Some d \<Longrightarrow> length str = 2 * length d"
  by (induction str arbitrary: d rule: hex_decode.induct) (auto split: option.splits)

lemma fromHex_fill_decode:
  "even (length str) \<Longrightarrow> i + length str div 2 \<le> length dat \<Longrightarrow>
   fromHex_fill i str dat =
     (case hex_decode str of None \<Rightarrow> Inl FromHexInvalidCharacter
      | Some d \<Rightarrow> Inr (take i dat @ d @ drop (i + length d) dat))"
  by (induction i str dat rule: fromHex_fill.induct)
    (auto simp: fromHex_char_agree upd_conv_take_nth_drop take_Suc_conv_app_nth nth_append
      min_def Suc_le_eq ac_simps split: option.splits dest!: hex_decode_length)

lemma fromHex_push_decode:
  "even (length str) \<Longrightarrow>
   (case hex_decode str of None \<Rightarrow> \<not> fst (fromHex_push str dat)
    | Some d \<Rightarrow> fromHex_push str dat = (True, dat @ d))"
  by (induction str dat rule: fromHex_push.induct) (auto split: option.splits)

lemma fromHex_try_fill: "fromHex_try i str dat = (True, d) \<longleftrightarrow> fromHex_fill i str dat = Inr d"
  by (induction i str dat rule: fromHex_fill.induct) (auto simp: fromHex_char_agree split: option.splits)

lemma fromHex_vector_decode:
  "fromHex_vector str = Inr d \<longleftrightarrow> hex_decode str = Some d"
proof (cases "even (length str)")
  case True
  then show ?thesis
    using fromHex_fill_decode [of str 0 "replicate (length str div 2) 0"]
    by (auto simp: fromHex_vector_def split: option.splits dest: hex_decode_length)
next
  case False
  then show ?thesis by (auto simp: fromHex_vector_def dest: hex_decode_length)
qed

lemma fromHex_append_decode:
  "fromHex_append str dat = (True, dat') \<longleftrightarrow> (\<exists>d. hex_decode str = Some d \<and> dat' = dat @ d)"
proof (cases "even (length str)")
  case True
  then show ?thesis
    using fromHex_push_decode [of str dat] by (auto simp: fromHex_append_def split: option.splits)
next
  case False
  then show ?thesis by (auto simp: fromHex_append_def dest: hex_decode_length)
qed

lemma podFromHex_decode:
  assumes "length val < 2 ^ 64"
  shows "podFromHex str val = (True, val') \<longleftrightarrow> hex_decode str = Some val' \<and> length val' = length val"
proof -
  let ?n = "of_nat (length val) :: u64"
  have n: "unat ?n = length val" using assms by (intro unat_of_nat_small) simp
  show ?thesis
  proof (cases "even (length str) \<and> length str div 2 = length val")
    case True
    then have "fromHex_fill 0 str val =
        (case hex_decode str of None \<Rightarrow> Inl FromHexInvalidCharacter | Some d \<Rightarrow> Inr d)"
      using fromHex_fill_decode [of str 0 val] by (auto split: option.splits dest: hex_decode_length)
    then show ?thesis
      using True fromHex_try_fill [of 0 str val val'] n
      by (auto simp: podFromHex_def fromHex_bool_def split: prod.splits option.splits if_splits
          dest: hex_decode_length)
  next
    case False
    then show ?thesis using n
      by (auto simp: podFromHex_def fromHex_bool_def split: prod.splits if_splits dest: hex_decode_length)
  qed
qed

text \<open>Lower case of a letter.\<close>

definition to_lower :: "byte \<Rightarrow> byte" where
  "to_lower c = (if 65 \<le> c \<and> c \<le> 90 then c + 32 else c)"

lemma characterValues_table:
  "characterValues = map (\<lambda>k. if 48 \<le> k \<and> k < 58 then of_nat (k - 48)
     else if 65 \<le> k \<and> k < 71 then of_nat (k - 55)
     else if 97 \<le> k \<and> k < 103 then of_nat (k - 87) else 255) [0..<256]"
  by code_simp

lemma characterValues_nth:
  "characterValues ! unat (c :: byte) =
     (if 48 \<le> unat c \<and> unat c < 58 then of_nat (unat c - 48)
      else if 65 \<le> unat c \<and> unat c < 71 then of_nat (unat c - 55)
      else if 97 \<le> unat c \<and> unat c < 103 then of_nat (unat c - 87) else 255)"
  unfolding characterValues_table using unat_lt_8 [of c] by (simp only: nth_map length_upt nth_upt) simp

lemma nibble_table:
  "list_all (\<lambda>n. fromHex_char_opt (hex_digits ! n) = Some (of_nat n)) [0..<16]"
  by code_simp

lemma hex_digits_table:
  "list_all (\<lambda>n. hex_digits ! n = (if n < 10 then of_nat (48 + n) else of_nat (87 + n))) [0..<16]"
  by code_simp

lemma nibbles_join: "push_bit 4 (drop_bit 4 b) OR (b AND 15) = (b :: byte)"
proof -
  have "b AND 15 = take_bit 4 b"
    using take_bit_eq_mask [of 4 b] by (simp add: mask_eq_exp_minus_1)
  then show ?thesis by (auto intro!: bit_word_eqI simp: bit_simps)
qed

lemma nibble_bounds: "unat (drop_bit 4 b) < 16" "unat (b AND 15) < 16" for b :: byte
proof -
  show "unat (drop_bit 4 b) < 16" using unat_lt_8 [of b] by (simp add: unat_drop_bit)
  have "b AND 15 \<le> 15" by (rule word_and_le1)
  then show "unat (b AND 15) < 16" by (simp add: word_le_unat)
qed

lemma fromHex_digit: "n < 16 \<Longrightarrow> fromHex_char_opt (hex_digits ! n) = Some (of_nat n)"
  using nibble_table by (simp add: list_all_iff)

lemma hex_digits_nth:
  "n < 16 \<Longrightarrow> hex_digits ! n = (if n < 10 then of_nat (48 + n) else of_nat (87 + n))"
  using hex_digits_table by (simp add: list_all_iff)

lemma digit_fromHex:
  assumes "fromHex_char_opt c = Some v"
  shows "hex_digits ! unat v = to_lower c \<and> unat v < 16"
proof -
  let ?k = "unat c"
  have v: "v = characterValues ! ?k" "\<not> characterValues ! ?k > 15"
    using assms by (auto simp: fromHex_char_opt_def split: if_splits)
  have small: "unat (of_nat n :: byte) = n" if "n < 16" for n using that by (simp add: unat_of_nat_small)
  consider "48 \<le> ?k" "?k < 58" | "65 \<le> ?k" "?k < 71" | "97 \<le> ?k" "?k < 103"
    | "characterValues ! ?k = 255"
    using characterValues_nth [of c] by metis
  then show ?thesis
  proof cases
    case 1
    then have "v = of_nat (?k - 48)" unfolding v(1) characterValues_nth by (simp only: simp_thms if_True)
    then have "unat v = ?k - 48" using 1 small [of "?k - 48"] by simp
    then show ?thesis using 1
      by (auto simp: hex_digits_nth to_lower_def word_le_unat simp del: of_nat_add)
  next
    case 2
    then have "v = of_nat (?k - 55)" unfolding v(1) characterValues_nth by (auto simp del: of_nat_diff)
    then have "unat v = ?k - 55" using 2 small [of "?k - 55"] by simp
    moreover have "of_nat (32 + ?k) = c + 32" by simp
    ultimately show ?thesis using 2
      by (auto simp: hex_digits_nth to_lower_def word_le_unat)
  next
    case 3
    then have "v = of_nat (?k - 87)" unfolding v(1) characterValues_nth by (auto simp del: of_nat_diff)
    then have "unat v = ?k - 87" using 3 small [of "?k - 87"] by simp
    then show ?thesis using 3
      by (auto simp: hex_digits_nth to_lower_def word_le_unat simp del: of_nat_add)
  qed (use v in simp)
qed

lemma hex_decode_toHex [simp]: "hex_decode (toHex d) = Some d"
  by (induction d) (simp_all add: fromHex_digit nibble_bounds nibbles_join)

lemma toHex_hex_decode: "hex_decode str = Some d \<Longrightarrow> toHex d = map to_lower str"
proof (induction str arbitrary: d rule: hex_decode.induct)
  case (1 c1 c2 str)
  then obtain v1 v2 e where v: "fromHex_char_opt c1 = Some v1" "fromHex_char_opt c2 = Some v2"
    "hex_decode str = Some e" "d = (push_bit 4 v1 OR v2) # e"
    by (auto split: option.splits)
  note b = digit_fromHex [OF v(1)] digit_fromHex [OF v(2)]
  let ?b = "push_bit 4 v1 OR v2"
  have u: "unat ?b = unat v2 + unat v1 * 2 ^ 4"
    using unat_or_push_bit [of v2 4 v1] b by (simp add: or.commute)
  have hi: "drop_bit 4 ?b = v1"
    unfolding word_eq_unat unat_drop_bit u using b by simp
  have "?b AND 15 = take_bit 4 ?b"
    using take_bit_eq_mask [of 4 ?b] by (simp add: mask_eq_exp_minus_1)
  also have "\<dots> = v2"
    unfolding word_eq_unat unsigned_take_bit_eq u take_bit_eq_mod [of 4 "unat v2 + unat v1 * 2 ^ 4"]
    using b by simp
  finally have lo: "?b AND 15 = v2" .
  show ?case using v b hi lo "1.IH" by simp
qed auto

lemma toHex_append_toHex: "toHex_append dat str = str @ toHex dat"
  by (induction dat str rule: toHex_append.induct) auto

lemma length_toHex [simp]: "length (toHex d) = 2 * length d"
  by (induction d) auto

section \<open>Addresses\<close>

lemma isdigit_props: "isdigit c \<Longrightarrow> \<not> isspace c \<and> c \<noteq> 45 \<and> c \<noteq> 43"
  by (auto simp: isdigit_def isspace_def word_le_unat)

lemma to_string_Cons: "\<exists>c cs. to_string n = c # cs \<and> isdigit c"
  using to_string_digits [of _ n] to_string_nonempty [of n] by (cases "to_string n") auto

lemma scan_d_to_string:
  assumes "n < 2 ^ 31" "rest = [] \<or> \<not> isdigit (hd rest)"
  shows "scan_d (to_string n @ rest) = Inr (Some (of_nat n, rest))"
proof -
  have tw: "takeWhile isdigit (to_string n @ rest) = to_string n"
    using assms(2) to_string_digits by (cases rest) (auto simp: takeWhile_tail)
  have dw: "dropWhile isdigit (to_string n @ rest) = rest"
    using assms(2) to_string_digits by (cases rest) (auto simp: dropWhile_append)
  obtain c cs where c: "to_string n = c # cs" "isdigit c" using to_string_Cons by blast
  note c' = isdigit_props [OF c(2)]
  have sp: "dropWhile isspace (to_string n @ rest) = to_string n @ rest" using c c' by simp
  have "(case to_string n @ rest of c # cs \<Rightarrow> if c = 45 then (True, cs) else if c = 43 then (False, cs)
      else (False, to_string n @ rest) | [] \<Rightarrow> (False, [])) = (False, to_string n @ rest)"
    using c c' by simp
  then show ?thesis
    using assms(1) unfolding scan_d_def Let_def sp by (simp add: tw dw)
qed

lemma scan_format_step:
  assumes "n < 2 ^ 31" "\<not> isdigit c"
  shows "scan_format (c # seps) (to_string n @ c # rest) =
    bindE (scan_format seps rest) (\<lambda>vs. Inr (of_nat n # vs))"
  using scan_d_to_string [OF assms(1), of "c # rest"] assms(2)
  by (subst scan_format.simps) (simp add: scan_char_def)

lemma scan_format_last:
  "n < 2 ^ 31 \<Longrightarrow> scan_format [] (to_string n) = Inr [of_nat n]"
  using scan_d_to_string [of n "[]"] by simp

lemma ip_bytes_join:
  "push_bit 24 (drop_bit 24 ip AND 0xFF) OR push_bit 16 (drop_bit 16 ip AND 0xFF) OR
   push_bit 8 (drop_bit 8 ip AND 0xFF) OR (ip AND 0xFF) = (ip :: u32)"
  by (rule u32_bit_eqI) (simp add: bit_simps)

lemma ip_byte_bounds: "(x :: u32) AND 0xFF \<le> 0xFF" "unat (x AND 0xFF) < 2 ^ 31"
proof -
  show "x AND 0xFF \<le> 0xFF" by (rule word_and_le1)
  then show "unat (x AND 0xFF) < 2 ^ 31" by (simp add: word_le_unat)
qed

lemma scan_ip:
  assumes "port < 2 ^ 31" "a < 2 ^ 31" "b < 2 ^ 31" "c < 2 ^ 31" "d < 2 ^ 31"
  shows "scan_format (bytes_of ''...:'') (to_string a @ bytes_of ''.'' @ to_string b @ bytes_of ''.'' @
    to_string c @ bytes_of ''.'' @ to_string d @ bytes_of '':'' @ to_string port) =
    Inr [of_nat a, of_nat b, of_nat c, of_nat d, of_nat port]"
proof -
  have sep: "bytes_of ''...:'' = [46, 46, 46, 58]" "bytes_of ''.'' = [46]" "bytes_of '':'' = [58]"
    "\<not> isdigit 46" "\<not> isdigit 58" by (simp_all add: bytes_of_def isdigit_def)
  show ?thesis unfolding sep append.simps
    by (simp only: scan_format_step scan_format_last assms sep(4,5) not_False_eq_True bindE_simps)
qed

lemma printed_ip_parsed:
  assumes "unat port < 2 ^ 31"
  shows "parseIpAddressAndPort (ipAddressToString ip @ bytes_of '':'' @ to_string (unat port)) =
    Inr (Some (ip, port))"
proof -
  have "scan_format (bytes_of ''...:'') (ipAddressToString ip @ bytes_of '':'' @ to_string (unat port)) =
      Inr [ip AND 0xFF, drop_bit 8 ip AND 0xFF, drop_bit 16 ip AND 0xFF, drop_bit 24 ip AND 0xFF, port]"
    unfolding ipAddressToString_def append.assoc
    by (subst scan_ip) (use assms ip_byte_bounds in simp_all)
  then show ?thesis
    using ip_bytes_join [of ip] ip_byte_bounds(1) leD
    unfolding parseIpAddressAndPort_def by (auto simp: not_less)
qed

section \<open>Trimming\<close>

lemma find_first_dropWhile:
  "(case find_first_not_of ws str of Some p \<Rightarrow> drop p str | None \<Rightarrow> []) = dropWhile (\<lambda>c. c \<in> set ws) str"
  by (induction str) (auto split: option.splits)

lemma leftTrim_dropWhile: "leftTrim str = dropWhile (\<lambda>c. c \<in> set whitespace) str"
  by (simp add: leftTrim_def find_first_dropWhile)

lemma find_first_bound: "find_first_not_of ws str = Some p \<Longrightarrow> p < length str"
  by (induction str arbitrary: p) (auto split: if_splits)

lemma rightTrim_dropWhile: "rightTrim str = rev (dropWhile (\<lambda>c. c \<in> set whitespace) (rev str))"
  unfolding find_first_dropWhile [symmetric] rightTrim_def find_last_not_of_def
  by (auto simp: rev_drop Suc_diff_Suc dest: find_first_bound split: option.splits)

lemma trim_parts:
  "\<exists>l r. set l \<subseteq> set whitespace \<and> set r \<subseteq> set whitespace \<and> str = l @ trim str @ r"
proof -
  let ?P = "\<lambda>c. c \<in> set whitespace"
  let ?l = "takeWhile ?P (rightTrim str)" and ?r = "rev (takeWhile ?P (rev str))"
  have "str = rightTrim str @ ?r"
    unfolding rightTrim_dropWhile rev_append [symmetric] takeWhile_dropWhile_id by simp
  also have "rightTrim str = ?l @ trim str"
    unfolding trim_def leftTrim_dropWhile takeWhile_dropWhile_id ..
  finally show ?thesis
    by (intro exI [of _ ?l] exI [of _ ?r]) (auto dest: set_takeWhileD)
qed

lemma trim_ends:
  assumes "trim str \<noteq> []"
  shows "hd (trim str) \<notin> set whitespace" "last (trim str) \<notin> set whitespace"
proof -
  let ?P = "\<lambda>c. c \<in> set whitespace"
  have ne: "dropWhile ?P (rightTrim str) \<noteq> []" using assms by (simp add: trim_def leftTrim_dropWhile)
  then show "hd (trim str) \<notin> set whitespace"
    unfolding trim_def leftTrim_dropWhile by (rule hd_dropWhile)
  have "last (trim str) = last (rightTrim str)"
    unfolding trim_def leftTrim_dropWhile using ne
    by (metis last_appendR takeWhile_dropWhile_id)
  moreover have "rightTrim str \<noteq> []" using ne by auto
  then have "dropWhile ?P (rev str) \<noteq> []" by (simp add: rightTrim_dropWhile)
  then have "last (rightTrim str) \<notin> set whitespace"
    using hd_dropWhile [of ?P "rev str"] by (simp add: rightTrim_dropWhile last_rev)
  ultimately show "last (trim str) \<notin> set whitespace" by simp
qed

section \<open>Splitting\<close>

lemma find_char_Some:
  "find_char d str = Some p \<longleftrightarrow> p < length str \<and> str ! p = d \<and> d \<notin> set (take p str)"
proof (induction str arbitrary: p)
  case (Cons c str)
  then show ?case by (cases p) auto
qed simp

lemma find_char_None: "find_char d str = None \<longleftrightarrow> d \<notin> set str"
  by (induction str) auto

lemma extract_text_splits:
  assumes "extract_text str d = (part, rest)"
  shows "d \<notin> set part" "if d \<in> set str then str = part @ d # rest else str = part \<and> rest = []"
proof -
  have "d \<notin> set part \<and> (if d \<in> set str then str = part @ d # rest else str = part \<and> rest = [])"
  proof (cases "find_char d str")
    case None
    then show ?thesis using assms
      by (simp add: extract_text_def find_from_def find_char_None [symmetric])
  next
    case (Some p)
    then have p: "p < length str" "str ! p = d" "d \<notin> set (take p str)" by (simp_all add: find_char_Some)
    have "part = take p str" "rest = drop (Suc p) str"
      using assms Some by (simp_all add: extract_text_def find_from_def)
    then show ?thesis
      using p id_take_nth_drop [OF p(1)] nth_mem [OF p(1)] by simp
  qed
  then show "d \<notin> set part" "if d \<in> set str then str = part @ d # rest else str = part \<and> rest = []"
    by blast+
qed

text \<open>The overload with an offset returns what follows the delimiter.\<close>

lemma extract_offset_after:
  assumes "d \<notin> set a"
  shows "extract_offset (a @ d # b) d 0 = (take (length a) b, Suc (length a))"
proof -
  have "find_char d (a @ d # b) = Some (length a)"
    unfolding find_char_Some using assms by simp
  then show ?thesis by (simp add: extract_offset_def find_from_def)
qed

section \<open>Properties\<close>

text \<open>Hexadecimal text: the overloads of \<open>fromHex\<close> give back the bytes that \<open>toHex\<close> printed, and
  the text that is accepted is, up to upper-case letters, the text that \<open>toHex\<close> prints for the
  result; \<open>podFromHex\<close> also insists on the size of the value.\<close>

lemma hex_text_correct:
  assumes "length val < 2 ^ 64"
  shows "fromHex_vector (toHex d) = Inr d
    \<and> fromHex_append (toHex d) dat = (True, dat @ d)
    \<and> (fromHex_vector str = Inr d \<longrightarrow> toHex d = map to_lower str)
    \<and> (podFromHex str val = (True, val') \<longrightarrow> length val' = length val \<and> podToHex val' = map to_lower str)
    \<and> (length val' = length val \<longrightarrow> podFromHex (podToHex val') val = (True, val'))"
  using assms
  by (simp add: fromHex_vector_decode fromHex_append_decode podFromHex_decode podToHex_def toHex_hex_decode)

text \<open>An address and a port below \<open>2 ^ 31\<close> that were printed, the address by \<open>ipAddressToString\<close>, are
  what \<open>parseIpAddressAndPort\<close> reads.\<close>

lemma ip_address_roundtrip:
  assumes "unat port < 2 ^ 31"
  shows "parseIpAddressAndPort (ipAddressToString ip @ bytes_of '':'' @ to_string (unat port)) =
    Inr (Some (ip, port))"
  by (rule printed_ip_parsed [OF assms])

text \<open>\<open>trim\<close> removes the white space at both ends and nothing else: what it removes is white space,
  and what is left neither begins nor ends with it.\<close>

lemma trim_correct:
  "(\<exists>l r. set l \<subseteq> set whitespace \<and> set r \<subseteq> set whitespace \<and> str = l @ trim str @ r)
   \<and> (trim str = [] \<or> hd (trim str) \<notin> set whitespace \<and> last (trim str) \<notin> set whitespace)"
  using trim_parts trim_ends by auto

end
