(* ===== verification/TransactionExtra.thy ===== *)
theory TransactionExtra
  imports TxSerialization StringTools
begin

text \<open>The extra field of a transaction, \<open>src/src/cryptonote_core/transaction_extra.cpp\<close>: parsing into
  fields, writing fields, public keys, merge mining tags and payment ids. The parser returns its
  truth value together with the fields it has pushed, since callers use the fields also when it
  fails. The theory shows that what the parser delivers is always well formed, that written
  fields are parsed back, and that payment ids survive the way into and out of an extra field.\<close>

section \<open>Definitions\<close>

definition TX_EXTRA_PADDING_MAX_COUNT :: nat where
  "TX_EXTRA_PADDING_MAX_COUNT = 255"

definition TX_EXTRA_NONCE_MAX_COUNT :: nat where
  "TX_EXTRA_NONCE_MAX_COUNT = 255"

definition TX_EXTRA_TAG_PADDING :: byte where
  "TX_EXTRA_TAG_PADDING = 0x00"

definition TX_EXTRA_TAG_PUBKEY :: byte where
  "TX_EXTRA_TAG_PUBKEY = 0x01"

definition TX_EXTRA_NONCE :: byte where
  "TX_EXTRA_NONCE = 0x02"

definition TX_EXTRA_MERGE_MINING_TAG :: byte where
  "TX_EXTRA_MERGE_MINING_TAG = 0x03"

definition TX_EXTRA_NONCE_PAYMENT_ID :: byte where
  "TX_EXTRA_NONCE_PAYMENT_ID = 0x00"

record TransactionExtraMergeMiningTag =
  mm_depth :: u64
  merkleRoot :: hash

datatype TransactionExtraField =
    TransactionExtraPadding nat
  | TransactionExtraPublicKey public_key
  | TransactionExtraNonce bytes
  | ExtraMergeMiningTag TransactionExtraMergeMiningTag

subsection \<open>The merge mining tag\<close>

definition doSerialize_write :: "TransactionExtraMergeMiningTag \<Rightarrow> bytes" where
  "doSerialize_write tag = out_uint64 (mm_depth tag) @ out_binary (merkleRoot tag)"

definition doSerialize_read :: "TransactionExtraMergeMiningTag reader" where
  "doSerialize_read i =
     bindE (in_uint64 i) (\<lambda>(depth, i).
     bindE (in_binary 32 i) (\<lambda>(root, i). Inr (\<lparr> mm_depth = depth, merkleRoot = root \<rparr>, i)))"

definition write_MergeMiningTag :: "TransactionExtraMergeMiningTag \<Rightarrow> bytes" where
  "write_MergeMiningTag tag = out_string (doSerialize_write tag)"

text \<open>Bytes of the field after the root are not looked at.\<close>

definition read_MergeMiningTag :: "TransactionExtraMergeMiningTag reader" where
  "read_MergeMiningTag i =
     bindE (in_string (bytes_of ''mm_tag'') i) (\<lambda>(field, i).
     bindE (doSerialize_read field) (\<lambda>(tag, _). Inr (tag, i)))"

subsection \<open>Parsing\<close>

record extra_seen =
  seen_tx_extra_tag_padding :: bool
  seen_tx_extra_tag_pubkey :: bool
  seen_tx_extra_nonce :: bool
  seen_tx_extra_merge_mining_tag :: bool

text \<open>The loop over the padding; \<open>None\<close> is a byte that is not zero.\<close>

fun padding_loop :: "nat \<Rightarrow> bytes \<Rightarrow> (nat \<times> bytes) option" where
  "padding_loop sz [] = Some (sz, [])"
| "padding_loop sz (b # i) =
     (if sz \<le> TX_EXTRA_PADDING_MAX_COUNT then if b \<noteq> 0 then None else padding_loop (Suc sz) i
      else Some (sz, b # i))"

definition read_extra_nonce :: "bytes reader" where
  "read_extra_nonce i =
     bindE (liftE (read_uint8 i)) (\<lambda>(sz, i). if sz > 0 then in_binary (unat sz) i else Inr ([], i))"

lemma padding_loop_length: "padding_loop sz i = Some (n, j) \<Longrightarrow> length j \<le> length i"
  by (induction sz i rule: padding_loop.induct) (auto split: if_splits)

lemma in_varint_length: "in_varint i = Inr (v :: u64, r) \<Longrightarrow> length r \<le> length i"
  using in_varint_canonical [of i v r] by simp

lemma in_binary_length: "in_binary n i = Inr (d, r) \<Longrightarrow> length r \<le> length i"
  by (auto dest: in_binary_canonical)

lemma in_string_length: "in_string name i = Inr (d, r) \<Longrightarrow> length r \<le> length i"
  by (auto simp: in_string_def in_uint64_def split: if_splits dest!: in_varint_length in_binary_length)

lemma read_MergeMiningTag_length: "read_MergeMiningTag i = Inr (t, r) \<Longrightarrow> length r \<le> length i"
  by (auto simp: read_MergeMiningTag_def dest: in_string_length)

lemma read_extra_nonce_length: "read_extra_nonce i = Inr (d, r) \<Longrightarrow> length r \<le> length i"
  by (auto simp: read_extra_nonce_def read_uint8_def read_bytes_def split: if_splits dest!: in_binary_length)

function parse_extra_loop ::
  "extra_seen \<Rightarrow> TransactionExtraField list \<Rightarrow> bytes \<Rightarrow> bool \<times> TransactionExtraField list" where
  "parse_extra_loop seen fs [] = (True, fs)"
| "parse_extra_loop seen fs (c # i) =
     (if c = TX_EXTRA_TAG_PADDING then
        if seen_tx_extra_tag_padding seen then (True, fs)
        else (case padding_loop 1 i of
                None \<Rightarrow> (False, fs)
              | Some (sz, i') \<Rightarrow>
                  if sz > TX_EXTRA_PADDING_MAX_COUNT then (False, fs)
                  else parse_extra_loop (seen \<lparr> seen_tx_extra_tag_padding := True \<rparr>)
                         (fs @ [TransactionExtraPadding sz]) i')
      else if c = TX_EXTRA_TAG_PUBKEY then
        if seen_tx_extra_tag_pubkey seen then (True, fs)
        else (case in_binary 32 i of
                Inl e \<Rightarrow> (False, fs)
              | Inr (k, i') \<Rightarrow>
                  parse_extra_loop (seen \<lparr> seen_tx_extra_tag_pubkey := True \<rparr>)
                    (fs @ [TransactionExtraPublicKey k]) i')
      else if c = TX_EXTRA_NONCE then
        if seen_tx_extra_nonce seen then (True, fs)
        else (case read_extra_nonce i of
                Inl e \<Rightarrow> (False, fs)
              | Inr (n, i') \<Rightarrow>
                  parse_extra_loop (seen \<lparr> seen_tx_extra_nonce := True \<rparr>)
                    (fs @ [TransactionExtraNonce n]) i')
      else if c = TX_EXTRA_MERGE_MINING_TAG then
        if seen_tx_extra_merge_mining_tag seen then parse_extra_loop seen fs i
        else (case read_MergeMiningTag i of
                Inl e \<Rightarrow> (False, fs)
              | Inr (t, i') \<Rightarrow>
                  parse_extra_loop (seen \<lparr> seen_tx_extra_merge_mining_tag := True \<rparr>)
                    (fs @ [ExtraMergeMiningTag t]) i')
      else parse_extra_loop seen fs i)"
  by pat_completeness auto
termination
  by (relation "measure (\<lambda>(_, _, i). length i)")
    (auto dest!: padding_loop_length in_binary_length read_extra_nonce_length
      read_MergeMiningTag_length)

definition parseTransactionExtra :: "bytes \<Rightarrow> bool \<times> TransactionExtraField list" where
  "parseTransactionExtra transactionExtra =
     (if transactionExtra = [] then (True, [])
      else parse_extra_loop
        \<lparr> seen_tx_extra_tag_padding = False, seen_tx_extra_tag_pubkey = False,
          seen_tx_extra_nonce = False, seen_tx_extra_merge_mining_tag = False \<rparr> [] transactionExtra)"

subsection \<open>Writing\<close>

definition addTransactionPublicKeyToExtra :: "bytes \<Rightarrow> public_key \<Rightarrow> bool \<times> bytes" where
  "addTransactionPublicKeyToExtra tx_extra tx_pub_key =
     (True, tx_extra @ [TX_EXTRA_TAG_PUBKEY] @ tx_pub_key)"

definition addExtraNonceToTransactionExtra :: "bytes \<Rightarrow> bytes \<Rightarrow> bool \<times> bytes" where
  "addExtraNonceToTransactionExtra tx_extra extra_nonce =
     (if length extra_nonce > TX_EXTRA_NONCE_MAX_COUNT then (False, tx_extra)
      else (True, tx_extra @ [TX_EXTRA_NONCE] @ [of_nat (length extra_nonce)] @ extra_nonce))"

definition appendMergeMiningTagToExtra :: "bytes \<Rightarrow> TransactionExtraMergeMiningTag \<Rightarrow> bool \<times> bytes" where
  "appendMergeMiningTagToExtra tx_extra mm_tag =
     (case toBinaryArray (Inr (write_MergeMiningTag mm_tag)) of
        None \<Rightarrow> (False, tx_extra)
      | Some blob \<Rightarrow> (True, tx_extra @ [TX_EXTRA_MERGE_MINING_TAG] @ blob))"

primrec ExtraSerializerVisitor :: "bytes \<Rightarrow> TransactionExtraField \<Rightarrow> bool \<times> bytes" where
  "ExtraSerializerVisitor ext (TransactionExtraPadding sz) =
     (if sz > TX_EXTRA_PADDING_MAX_COUNT then (False, ext) else (True, ext @ replicate sz 0))"
| "ExtraSerializerVisitor ext (TransactionExtraPublicKey k) = addTransactionPublicKeyToExtra ext k"
| "ExtraSerializerVisitor ext (TransactionExtraNonce n) = addExtraNonceToTransactionExtra ext n"
| "ExtraSerializerVisitor ext (ExtraMergeMiningTag t) = appendMergeMiningTagToExtra ext t"

primrec writeTransactionExtra :: "bytes \<Rightarrow> TransactionExtraField list \<Rightarrow> bool \<times> bytes" where
  "writeTransactionExtra tx_extra [] = (True, tx_extra)"
| "writeTransactionExtra tx_extra (tag # tags) =
     (let (r, tx_extra) = ExtraSerializerVisitor tx_extra tag
      in if r then writeTransactionExtra tx_extra tags else (False, tx_extra))"

subsection \<open>Finding fields\<close>

text \<open>\<open>findTransactionExtraFieldByType\<close> for a type whose values \<open>sel\<close> extracts.\<close>

primrec findTransactionExtraFieldByType ::
  "(TransactionExtraField \<Rightarrow> 'a option) \<Rightarrow> TransactionExtraField list \<Rightarrow> 'a option" where
  "findTransactionExtraFieldByType sel [] = None"
| "findTransactionExtraFieldByType sel (f # fs) =
     (case sel f of Some x \<Rightarrow> Some x | None \<Rightarrow> findTransactionExtraFieldByType sel fs)"

definition as_public_key :: "TransactionExtraField \<Rightarrow> public_key option" where
  "as_public_key f = (case f of TransactionExtraPublicKey k \<Rightarrow> Some k | _ \<Rightarrow> None)"

definition as_nonce :: "TransactionExtraField \<Rightarrow> bytes option" where
  "as_nonce f = (case f of TransactionExtraNonce n \<Rightarrow> Some n | _ \<Rightarrow> None)"

definition as_mm_tag :: "TransactionExtraField \<Rightarrow> TransactionExtraMergeMiningTag option" where
  "as_mm_tag f = (case f of ExtraMergeMiningTag t \<Rightarrow> Some t | _ \<Rightarrow> None)"

definition getTransactionPublicKeyFromExtra :: "bytes \<Rightarrow> public_key" where
  "getTransactionPublicKeyFromExtra tx_extra =
     (case findTransactionExtraFieldByType as_public_key (snd (parseTransactionExtra tx_extra)) of
        None \<Rightarrow> NULL_PUBLIC_KEY | Some k \<Rightarrow> k)"

definition getMergeMiningTagFromExtra :: "bytes \<Rightarrow> TransactionExtraMergeMiningTag option" where
  "getMergeMiningTagFromExtra tx_extra =
     findTransactionExtraFieldByType as_mm_tag (snd (parseTransactionExtra tx_extra))"

subsection \<open>Payment ids\<close>

definition setPaymentIdToTransactionExtraNonce :: "hash \<Rightarrow> bytes" where
  "setPaymentIdToTransactionExtraNonce payment_id = [TX_EXTRA_NONCE_PAYMENT_ID] @ payment_id"

definition getPaymentIdFromTransactionExtraNonce :: "bytes \<Rightarrow> hash option" where
  "getPaymentIdFromTransactionExtraNonce extra_nonce =
     (if 32 + 1 \<noteq> length extra_nonce then None
      else if TX_EXTRA_NONCE_PAYMENT_ID \<noteq> extra_nonce ! 0 then None
      else Some (take 32 (drop 1 extra_nonce)))"

text \<open>The hash that the text is read into is given: on failure it may have been written in part.\<close>

definition parsePaymentId :: "bytes \<Rightarrow> hash \<Rightarrow> bool \<times> hash" where
  "parsePaymentId paymentIdString paymentId = podFromHex paymentIdString paymentId"

text \<open>The local hash of the source is not initialised; it is used only after all of it was written.\<close>

definition createTxExtraWithPaymentId :: "bytes \<Rightarrow> bytes \<Rightarrow> bool \<times> bytes" where
  "createTxExtraWithPaymentId paymentIdString ext =
     (let (r, paymentIdBin) = parsePaymentId paymentIdString NULL_HASH in
      if \<not> r then (False, ext)
      else let extraNonce = setPaymentIdToTransactionExtraNonce paymentIdBin;
               (r, ext) = addExtraNonceToTransactionExtra ext extraNonce
           in if \<not> r then (False, ext) else (True, ext))"

definition getPaymentIdFromTxExtra :: "bytes \<Rightarrow> hash option" where
  "getPaymentIdFromTxExtra ext =
     (let (r, fs) = parseTransactionExtra ext in
      if \<not> r then None
      else case findTransactionExtraFieldByType as_nonce fs of
             Some extra_nonce \<Rightarrow> getPaymentIdFromTransactionExtraNonce extra_nonce
           | None \<Rightarrow> None)"

section \<open>Well-formed fields\<close>

primrec field_kind :: "TransactionExtraField \<Rightarrow> byte" where
  "field_kind (TransactionExtraPadding sz) = TX_EXTRA_TAG_PADDING"
| "field_kind (TransactionExtraPublicKey k) = TX_EXTRA_TAG_PUBKEY"
| "field_kind (TransactionExtraNonce n) = TX_EXTRA_NONCE"
| "field_kind (ExtraMergeMiningTag t) = TX_EXTRA_MERGE_MINING_TAG"

primrec wf_field :: "TransactionExtraField \<Rightarrow> bool" where
  "wf_field (TransactionExtraPadding sz) \<longleftrightarrow> 1 \<le> sz \<and> sz \<le> TX_EXTRA_PADDING_MAX_COUNT"
| "wf_field (TransactionExtraPublicKey k) \<longleftrightarrow> pod32 k"
| "wf_field (TransactionExtraNonce n) \<longleftrightarrow> length n \<le> TX_EXTRA_NONCE_MAX_COUNT"
| "wf_field (ExtraMergeMiningTag t) \<longleftrightarrow> pod32 (merkleRoot t)"

definition wf_extra :: "TransactionExtraField list \<Rightarrow> bool" where
  "wf_extra fs \<longleftrightarrow> list_all wf_field fs \<and> distinct (map field_kind fs)"

definition seen_kind :: "extra_seen \<Rightarrow> byte \<Rightarrow> bool" where
  "seen_kind seen k \<longleftrightarrow>
     (k = TX_EXTRA_TAG_PADDING \<and> seen_tx_extra_tag_padding seen) \<or>
     (k = TX_EXTRA_TAG_PUBKEY \<and> seen_tx_extra_tag_pubkey seen) \<or>
     (k = TX_EXTRA_NONCE \<and> seen_tx_extra_nonce seen) \<or>
     (k = TX_EXTRA_MERGE_MINING_TAG \<and> seen_tx_extra_merge_mining_tag seen)"

text \<open>The loop's invariant: the fields pushed so far are well formed and their kinds are marked.\<close>

definition extra_inv :: "extra_seen \<Rightarrow> TransactionExtraField list \<Rightarrow> bool" where
  "extra_inv seen fs \<longleftrightarrow> wf_extra fs \<and> (\<forall>f \<in> set fs. seen_kind seen (field_kind f))"

lemmas extra_tags =
  TX_EXTRA_TAG_PADDING_def TX_EXTRA_TAG_PUBKEY_def TX_EXTRA_NONCE_def TX_EXTRA_MERGE_MINING_TAG_def

lemma tags_distinct [simp]:
  "TX_EXTRA_TAG_PUBKEY \<noteq> TX_EXTRA_TAG_PADDING" "TX_EXTRA_TAG_PADDING \<noteq> TX_EXTRA_TAG_PUBKEY"
  "TX_EXTRA_NONCE \<noteq> TX_EXTRA_TAG_PADDING" "TX_EXTRA_TAG_PADDING \<noteq> TX_EXTRA_NONCE"
  "TX_EXTRA_MERGE_MINING_TAG \<noteq> TX_EXTRA_TAG_PADDING" "TX_EXTRA_TAG_PADDING \<noteq> TX_EXTRA_MERGE_MINING_TAG"
  "TX_EXTRA_NONCE \<noteq> TX_EXTRA_TAG_PUBKEY" "TX_EXTRA_TAG_PUBKEY \<noteq> TX_EXTRA_NONCE"
  "TX_EXTRA_MERGE_MINING_TAG \<noteq> TX_EXTRA_TAG_PUBKEY" "TX_EXTRA_TAG_PUBKEY \<noteq> TX_EXTRA_MERGE_MINING_TAG"
  "TX_EXTRA_MERGE_MINING_TAG \<noteq> TX_EXTRA_NONCE" "TX_EXTRA_NONCE \<noteq> TX_EXTRA_MERGE_MINING_TAG"
  by (simp_all add: extra_tags)

lemma extra_inv_push:
  assumes "extra_inv seen fs" "wf_field f" "\<not> seen_kind seen (field_kind f)"
    and "\<And>k. seen_kind seen' k \<longleftrightarrow> seen_kind seen k \<or> k = field_kind f"
  shows "extra_inv seen' (fs @ [f])"
  using assms by (auto simp: extra_inv_def wf_extra_def)

lemma seen_kind_mark:
  "seen_kind (seen \<lparr> seen_tx_extra_tag_padding := True \<rparr>) k \<longleftrightarrow> seen_kind seen k \<or> k = TX_EXTRA_TAG_PADDING"
  "seen_kind (seen \<lparr> seen_tx_extra_tag_pubkey := True \<rparr>) k \<longleftrightarrow> seen_kind seen k \<or> k = TX_EXTRA_TAG_PUBKEY"
  "seen_kind (seen \<lparr> seen_tx_extra_nonce := True \<rparr>) k \<longleftrightarrow> seen_kind seen k \<or> k = TX_EXTRA_NONCE"
  "seen_kind (seen \<lparr> seen_tx_extra_merge_mining_tag := True \<rparr>) k \<longleftrightarrow>
     seen_kind seen k \<or> k = TX_EXTRA_MERGE_MINING_TAG"
  by (auto simp: seen_kind_def extra_tags)

lemma seen_kind_tags [simp]:
  "seen_kind seen TX_EXTRA_TAG_PADDING \<longleftrightarrow> seen_tx_extra_tag_padding seen"
  "seen_kind seen TX_EXTRA_TAG_PUBKEY \<longleftrightarrow> seen_tx_extra_tag_pubkey seen"
  "seen_kind seen TX_EXTRA_NONCE \<longleftrightarrow> seen_tx_extra_nonce seen"
  "seen_kind seen TX_EXTRA_MERGE_MINING_TAG \<longleftrightarrow> seen_tx_extra_merge_mining_tag seen"
  by (auto simp: seen_kind_def extra_tags)

lemma padding_loop_ge: "padding_loop sz i = Some (n, j) \<Longrightarrow> sz \<le> n"
  by (induction sz i rule: padding_loop.induct) (auto split: if_splits)

lemma read_extra_nonce_bound: "read_extra_nonce i = Inr (n, j) \<Longrightarrow> length n \<le> 255"
proof -
  have le: "unat s \<le> 255" for s :: byte using unat_lt_8 [of s] by simp
  assume "read_extra_nonce i = Inr (n, j)"
  then show ?thesis
    by (auto simp: read_extra_nonce_def le split: if_splits dest!: in_binary_canonical)
qed

lemma read_MergeMiningTag_pod: "read_MergeMiningTag i = Inr (t, j) \<Longrightarrow> pod32 (merkleRoot t)"
  by (auto simp: read_MergeMiningTag_def doSerialize_read_def pod32_def dest!: in_binary_canonical)

lemma parse_extra_loop_wf:
  "extra_inv seen fs \<Longrightarrow> wf_extra (snd (parse_extra_loop seen fs i))"
proof (induction seen fs i rule: parse_extra_loop.induct)
  case (1 seen fs)
  then show ?case by (simp add: extra_inv_def)
next
  case (2 seen fs c i)
  have wf: "wf_extra fs" using "2.prems" by (simp add: extra_inv_def)
  consider "c = TX_EXTRA_TAG_PADDING" | "c = TX_EXTRA_TAG_PUBKEY" | "c = TX_EXTRA_NONCE"
    | "c = TX_EXTRA_MERGE_MINING_TAG"
    | "c \<noteq> TX_EXTRA_TAG_PADDING" "c \<noteq> TX_EXTRA_TAG_PUBKEY" "c \<noteq> TX_EXTRA_NONCE"
      "c \<noteq> TX_EXTRA_MERGE_MINING_TAG" by blast
  then show ?case
  proof cases
    case 1
    have "wf_extra (snd (parse_extra_loop (seen \<lparr> seen_tx_extra_tag_padding := True \<rparr>)
        (fs @ [TransactionExtraPadding sz]) i'))"
      if "\<not> seen_tx_extra_tag_padding seen" "padding_loop 1 i = Some (sz, i')"
        "\<not> sz > TX_EXTRA_PADDING_MAX_COUNT" for sz i'
      using that 1 padding_loop_ge [OF that(2)]
      by (intro "2.IH"(1) extra_inv_push [OF "2.prems"]) (auto simp: seen_kind_mark)
    then show ?thesis using 1 wf by (auto split: option.splits)
  next
    case 2
    have "wf_extra (snd (parse_extra_loop (seen \<lparr> seen_tx_extra_tag_pubkey := True \<rparr>)
        (fs @ [TransactionExtraPublicKey k]) i'))"
      if "\<not> seen_tx_extra_tag_pubkey seen" "in_binary 32 i = Inr (k, i')" for k i'
      using that 2 in_binary_canonical [OF that(2)]
      by (intro "2.IH"(2) extra_inv_push [OF "2.prems"]) (auto simp: seen_kind_mark pod32_def)
    then show ?thesis using 2 wf by (auto split: sum.splits)
  next
    case 3
    have "wf_extra (snd (parse_extra_loop (seen \<lparr> seen_tx_extra_nonce := True \<rparr>)
        (fs @ [TransactionExtraNonce n]) i'))"
      if "\<not> seen_tx_extra_nonce seen" "read_extra_nonce i = Inr (n, i')" for n i'
      using that 3 read_extra_nonce_bound [OF that(2)]
      by (intro "2.IH"(3) extra_inv_push [OF "2.prems"])
        (auto simp: seen_kind_mark TX_EXTRA_NONCE_MAX_COUNT_def)
    then show ?thesis using 3 wf by (auto split: sum.splits)
  next
    case 4
    have "wf_extra (snd (parse_extra_loop (seen \<lparr> seen_tx_extra_merge_mining_tag := True \<rparr>)
        (fs @ [ExtraMergeMiningTag t]) i'))"
      if "\<not> seen_tx_extra_merge_mining_tag seen" "read_MergeMiningTag i = Inr (t, i')" for t i'
      using that 4 read_MergeMiningTag_pod [OF that(2)]
      by (intro "2.IH"(5) extra_inv_push [OF "2.prems"]) (auto simp: seen_kind_mark)
    moreover have "wf_extra (snd (parse_extra_loop seen fs i))" if "seen_tx_extra_merge_mining_tag seen"
      using that 4 "2.prems" by (intro "2.IH"(4)) auto
    ultimately show ?thesis using 4 wf by (auto split: sum.splits)
  next
    case 5
    then show ?thesis using "2.IH"(6) "2.prems" by simp
  qed
qed

lemma parse_extra_wf: "wf_extra (snd (parseTransactionExtra ext))"
  by (auto simp: parseTransactionExtra_def wf_extra_def extra_inv_def
      intro!: parse_extra_loop_wf [unfolded wf_extra_def])

section \<open>Written fields are parsed back\<close>

lemma length_writeVarint: "length (writeVarint (v :: u64)) \<le> 10"
  using length_varint_nat [of "unat v" 10] unat_lt_64 [of v]
  by (simp add: writeVarint_write_varint write_varint_nat)

lemma in_string_small:
  assumes "length x \<le> 2200"
  shows "in_string name (out_string x @ r) = Inr (x, r)"
proof -
  have n: "unat (of_nat (length x) :: u64) = length x" using assms by (simp add: unat_of_nat_small)
  then have "\<not> of_nat (length x) > MAX_EXTRA_SIZE"
    using assms by (simp add: MAX_EXTRA_SIZE_def word_less_unat)
  then show ?thesis
    using n by (cases "x = []") (auto simp: in_string_def out_string_def in_uint64_def codec_simps
        word_gt_0 word_eq_unat)
qed

lemma read_write_MergeMiningTag:
  assumes "pod32 (merkleRoot t)"
  shows "read_MergeMiningTag (write_MergeMiningTag t @ r) = Inr (t, r)"
proof -
  have "length (doSerialize_write t) \<le> 2200"
    using assms length_writeVarint [of "mm_depth t"]
    by (simp add: doSerialize_write_def out_uint64_def out_binary_def pod32_def)
  then have "in_string (bytes_of ''mm_tag'') (write_MergeMiningTag t @ r) = Inr (doSerialize_write t, r)"
    unfolding write_MergeMiningTag_def by (rule in_string_small)
  moreover have "doSerialize_read (doSerialize_write t) = Inr (t, [])"
    using uint64_codec.read_write [of "mm_depth t"] pod32_codec.read_write [OF assms, of "[]"]
    by (simp add: doSerialize_read_def doSerialize_write_def)
  ultimately show ?thesis by (simp add: read_MergeMiningTag_def)
qed

lemma read_extra_nonce_write:
  assumes "length n \<le> 255"
  shows "read_extra_nonce (of_nat (length n) # n @ r) = Inr (n, r)"
proof -
  have u: "unat (of_nat (length n) :: byte) = length n" using assms by (simp add: unat_of_nat_small)
  have "read_uint8 (of_nat (length n) # n @ r) = Inr (of_nat (length n), n @ r)"
    by (simp add: read_uint8_def read_bytes_def)
  then show ?thesis
    using u by (cases "n = []") (auto simp: read_extra_nonce_def codec_simps word_gt_0 word_eq_unat)
qed

primrec field_bytes :: "TransactionExtraField \<Rightarrow> bytes" where
  "field_bytes (TransactionExtraPadding sz) = replicate sz 0"
| "field_bytes (TransactionExtraPublicKey k) = TX_EXTRA_TAG_PUBKEY # k"
| "field_bytes (TransactionExtraNonce n) = TX_EXTRA_NONCE # of_nat (length n) # n"
| "field_bytes (ExtraMergeMiningTag t) = TX_EXTRA_MERGE_MINING_TAG # write_MergeMiningTag t"

lemma visitor_bytes: "wf_field f \<Longrightarrow> ExtraSerializerVisitor ext f = (True, ext @ field_bytes f)"
  by (cases f) (auto simp: addTransactionPublicKeyToExtra_def addExtraNonceToTransactionExtra_def
      appendMergeMiningTagToExtra_def toBinaryArray_def)

lemma write_extra_bytes:
  "list_all wf_field fs \<Longrightarrow> writeTransactionExtra ext fs = (True, ext @ concat (map field_bytes fs))"
  by (induction fs arbitrary: ext) (simp_all add: visitor_bytes)

definition mark_kind :: "extra_seen \<Rightarrow> TransactionExtraField \<Rightarrow> extra_seen" where
  "mark_kind seen f = (case f of
      TransactionExtraPadding _ \<Rightarrow> seen \<lparr> seen_tx_extra_tag_padding := True \<rparr>
    | TransactionExtraPublicKey _ \<Rightarrow> seen \<lparr> seen_tx_extra_tag_pubkey := True \<rparr>
    | TransactionExtraNonce _ \<Rightarrow> seen \<lparr> seen_tx_extra_nonce := True \<rparr>
    | ExtraMergeMiningTag _ \<Rightarrow> seen \<lparr> seen_tx_extra_merge_mining_tag := True \<rparr>)"

lemma seen_mark_kind: "seen_kind (mark_kind seen f) k \<longleftrightarrow> seen_kind seen k \<or> k = field_kind f"
  by (cases f) (simp_all add: mark_kind_def seen_kind_mark)

lemma padding_loop_zeros:
  "sz + n \<le> 255 \<Longrightarrow> padding_loop sz (replicate n 0) = Some (sz + n, [])"
  by (induction n arbitrary: sz) (simp_all add: TX_EXTRA_PADDING_MAX_COUNT_def)

lemma parse_extra_field:
  assumes "wf_field f" "\<not> seen_kind seen (field_kind f)"
    and "field_kind f = TX_EXTRA_TAG_PADDING \<Longrightarrow> rest = []"
  shows "parse_extra_loop seen fs (field_bytes f @ rest) =
    parse_extra_loop (mark_kind seen f) (fs @ [f]) rest"
proof (cases f)
  case (TransactionExtraPadding sz)
  then obtain n where n: "sz = Suc n" "n \<le> 254"
    using assms(1) by (cases sz) (auto simp: TX_EXTRA_PADDING_MAX_COUNT_def)
  have b: "field_bytes f @ rest = TX_EXTRA_TAG_PADDING # replicate n 0"
    using TransactionExtraPadding assms(3) n by (simp add: TX_EXTRA_TAG_PADDING_def)
  have "\<not> seen_tx_extra_tag_padding seen" "rest = []" using TransactionExtraPadding assms by simp_all
  then show ?thesis
    using TransactionExtraPadding n padding_loop_zeros [of 1 n] unfolding b
    by (simp add: mark_kind_def TX_EXTRA_PADDING_MAX_COUNT_def)
next
  case (TransactionExtraPublicKey k)
  then show ?thesis
    using assms in_binary_write [of k 32 rest] by (simp add: mark_kind_def pod32_def)
next
  case (TransactionExtraNonce n)
  then show ?thesis
    using assms read_extra_nonce_write [of n rest]
    by (simp add: mark_kind_def TX_EXTRA_NONCE_MAX_COUNT_def)
next
  case (ExtraMergeMiningTag t)
  then show ?thesis
    using assms read_write_MergeMiningTag [of t rest] by (simp add: mark_kind_def)
qed

lemma parse_extra_fields:
  "\<lbrakk>wf_extra gs; \<forall>f \<in> set gs. \<not> seen_kind seen (field_kind f);
    \<forall>f \<in> set (butlast gs). field_kind f \<noteq> TX_EXTRA_TAG_PADDING\<rbrakk> \<Longrightarrow>
   parse_extra_loop seen fs (concat (map field_bytes gs)) = (True, fs @ gs)"
proof (induction gs arbitrary: seen fs)
  case (Cons f gs)
  have "parse_extra_loop (mark_kind seen f) (fs @ [f]) (concat (map field_bytes gs)) =
      (True, (fs @ [f]) @ gs)"
    using Cons.prems by (intro Cons.IH) (auto simp: wf_extra_def seen_mark_kind image_iff split: if_splits)
  moreover have "concat (map field_bytes gs) = []" if "field_kind f = TX_EXTRA_TAG_PADDING"
    using that Cons.prems(3) by (cases gs) auto
  ultimately show ?case
    using parse_extra_field [of f seen "concat (map field_bytes gs)" fs] Cons.prems
    by (simp add: wf_extra_def)
qed simp

lemma parse_written_extra:
  assumes "wf_extra fs" "\<forall>f \<in> set (butlast fs). field_kind f \<noteq> TX_EXTRA_TAG_PADDING"
  shows "\<exists>ext. writeTransactionExtra [] fs = (True, ext) \<and> parseTransactionExtra ext = (True, fs)"
proof -
  have w: "writeTransactionExtra [] fs = (True, concat (map field_bytes fs))"
    using assms(1) by (simp add: write_extra_bytes wf_extra_def)
  have "parseTransactionExtra (concat (map field_bytes fs)) = (True, fs)"
  proof (cases "concat (map field_bytes fs) = []")
    case True
    have "field_bytes f \<noteq> []" if "wf_field f" for f using that by (cases f) auto
    then have "fs = []" using True assms(1) by (cases fs) (auto simp: wf_extra_def)
    then show ?thesis by (simp add: parseTransactionExtra_def)
  next
    case False
    then show ?thesis
      unfolding parseTransactionExtra_def if_not_P [OF False]
      by (subst parse_extra_fields) (simp_all add: assms seen_kind_def)
  qed
  with w show ?thesis by blast
qed

lemma payment_id_nonce:
  assumes "pod32 pid"
  shows "getPaymentIdFromTransactionExtraNonce (setPaymentIdToTransactionExtraNonce pid) = Some pid"
  using assms by (simp add: getPaymentIdFromTransactionExtraNonce_def setPaymentIdToTransactionExtraNonce_def pod32_def)

section \<open>Properties\<close>

text \<open>C23. Whatever bytes the extra field of a transaction holds, the fields the parser delivers, also when
  it fails, are well formed: at most one of each kind, paddings of 1 to 255 bytes, keys and
  roots of 32 bytes, nonces of at most 255.\<close>

theorem parsed_extra_well_formed:
  "wf_extra (snd (parseTransactionExtra ext))"
  by (rule parse_extra_wf)

text \<open>C22. Fields that are well formed, with a padding only at the end, are written and parsed back.\<close>

theorem extra_fields_roundtrip:
  assumes "wf_extra fs" "\<forall>f \<in> set (butlast fs). field_kind f \<noteq> TX_EXTRA_TAG_PADDING"
  shows "\<exists>ext. writeTransactionExtra [] fs = (True, ext) \<and> parseTransactionExtra ext = (True, fs)"
  by (rule parse_written_extra [OF assms])

theorem extra_fields_roundtrip_witness:
  "\<exists>ext. writeTransactionExtra [] [TransactionExtraPublicKey (replicate 32 7), TransactionExtraNonce [1, 2],
       TransactionExtraPadding 3] = (True, ext)
     \<and> parseTransactionExtra ext = (True, [TransactionExtraPublicKey (replicate 32 7),
         TransactionExtraNonce [1, 2], TransactionExtraPadding 3])"
  by (rule extra_fields_roundtrip)
    (simp_all add: wf_extra_def pod32_def TX_EXTRA_NONCE_MAX_COUNT_def TX_EXTRA_PADDING_MAX_COUNT_def)

text \<open>A payment id that is put into the extra field behind the transaction's public key is found
  again, as the 32 bytes whose hexadecimal text was given, and the public key too; text that is
  not that of 32 bytes is refused and leaves the extra field as it was.\<close>

lemma payment_id_roundtrip:
  assumes "pod32 key"
  shows "(case hex_decode pidText of
      Some pid \<Rightarrow>
        if length pid = 32 then
          \<exists>ext. createTxExtraWithPaymentId pidText (TX_EXTRA_TAG_PUBKEY # key) = (True, ext)
            \<and> getPaymentIdFromTxExtra ext = Some pid \<and> getTransactionPublicKeyFromExtra ext = key
        else createTxExtraWithPaymentId pidText (TX_EXTRA_TAG_PUBKEY # key) = (False, TX_EXTRA_TAG_PUBKEY # key)
    | None \<Rightarrow> createTxExtraWithPaymentId pidText (TX_EXTRA_TAG_PUBKEY # key) = (False, TX_EXTRA_TAG_PUBKEY # key))"
proof -
  let ?pk = "TX_EXTRA_TAG_PUBKEY # key"
  have dec: "parsePaymentId pidText NULL_HASH = (True, pid) \<longleftrightarrow> hex_decode pidText = Some pid \<and> length pid = 32" for pid
    by (simp add: parsePaymentId_def podFromHex_decode NULL_HASH_def)
  have rej: "createTxExtraWithPaymentId pidText ?pk = (False, ?pk)"
    if "\<And>pid. parsePaymentId pidText NULL_HASH \<noteq> (True, pid)"
    using that by (cases "parsePaymentId pidText NULL_HASH") (auto simp: createTxExtraWithPaymentId_def)
  have acc: "\<exists>ext. createTxExtraWithPaymentId pidText ?pk = (True, ext)
      \<and> getPaymentIdFromTxExtra ext = Some pid \<and> getTransactionPublicKeyFromExtra ext = key"
    if pid: "parsePaymentId pidText NULL_HASH = (True, pid)" "length pid = 32" for pid
  proof -
    let ?n = "setPaymentIdToTransactionExtraNonce pid"
    let ?fs = "[TransactionExtraPublicKey key, TransactionExtraNonce ?n]"
    have ln: "length ?n = 33" using pid by (simp add: setPaymentIdToTransactionExtraNonce_def)
    have wf: "wf_extra ?fs" using assms ln by (simp add: wf_extra_def TX_EXTRA_NONCE_MAX_COUNT_def)
    have w: "writeTransactionExtra [] ?fs = (True, ?pk @ [TX_EXTRA_NONCE] @ [of_nat (length ?n)] @ ?n)"
      using wf write_extra_bytes [of ?fs "[]"] by (simp add: wf_extra_def del: writeTransactionExtra.simps)
    have "parseTransactionExtra (?pk @ [TX_EXTRA_NONCE] @ [of_nat (length ?n)] @ ?n) = (True, ?fs)"
      using parse_written_extra [OF wf] w by auto
    then show ?thesis
      using pid ln payment_id_nonce [of pid]
      by (auto simp: createTxExtraWithPaymentId_def addExtraNonceToTransactionExtra_def
          TX_EXTRA_NONCE_MAX_COUNT_def getPaymentIdFromTxExtra_def getTransactionPublicKeyFromExtra_def
          as_nonce_def as_public_key_def pod32_def)
  qed
  show ?thesis
  proof (cases "hex_decode pidText")
    case None
    then show ?thesis using rej dec by simp
  next
    case (Some pid)
    show ?thesis
    proof (cases "length pid = 32")
      case True
      then show ?thesis using Some acc [of pid] dec [of pid] by simp
    next
      case False
      then have "parsePaymentId pidText NULL_HASH \<noteq> (True, q)" for q using Some dec [of q] by auto
      then show ?thesis using Some False rej by simp
    qed
  qed
qed

end
