(* ===== verification/BlockSerialization.thy ===== *)
theory BlockSerialization
  imports TransactionExtra TreeHash
begin

text \<open>The serialization of blocks, \<open>src/src/cryptonote_core/cryptonote_serialization.cpp\<close>: block header,
  parent block (merge mining) and block template, with the hash of a base transaction from
  \<open>cryptonote_tools.h\<close>. A reader fills an object; a field that the format leaves out keeps the value
  the object had, which the readers take as an argument. The theory shows that blocks are read
  back, and that the number of transactions of the parent block, which is cut to 16 bits,
  gives every merge-mined block several encodings.\<close>

section \<open>Definitions\<close>

definition BLOCK_MAJOR_VERSION_1 :: byte where
  "BLOCK_MAJOR_VERSION_1 = 1"

definition BLOCK_MAJOR_VERSION_2 :: byte where
  "BLOCK_MAJOR_VERSION_2 = 2"

definition BLOCK_MAJOR_VERSION_3 :: byte where
  "BLOCK_MAJOR_VERSION_3 = 3"

definition BLOCK_MAJOR_VERSION_4 :: byte where
  "BLOCK_MAJOR_VERSION_4 = 4"

definition BLOCK_MAJOR_VERSION_5 :: byte where
  "BLOCK_MAJOR_VERSION_5 = 5"

subsection \<open>The hash of a base transaction\<close>

text \<open>The buffer: 32 bytes for the hash of the prefix, the hash of the empty ring signature base, and
  32 zero bytes.\<close>

definition base_transaction_data :: "hash \<Rightarrow> bytes" where
  "base_transaction_data prefixHash =
     prefixHash @
     [0xbc, 0x36, 0x78, 0x9e, 0x7a, 0x1e, 0x28, 0x14, 0x36, 0x46, 0x42, 0x29, 0x82, 0x8f, 0x81, 0x7d,
      0x66, 0x12, 0xf7, 0xb4, 0x77, 0xd6, 0x65, 0x91, 0xff, 0x96, 0xa9, 0xe0, 0x64, 0xbc, 0xc9, 0x8a] @
     replicate 32 0"

definition getBaseTransactionHash :: "BaseTransaction \<Rightarrow> bool \<times> hash" where
  "getBaseTransactionHash tx =
     (if tx_version tx < TRANSACTION_VERSION_2 then getObjectHash (Inr (write_BaseTransaction tx))
      else let (r, prefixHash) = getObjectHash (Inr (write_TransactionPrefix tx))
           in if r then (True, getBinaryArrayHash (base_transaction_data prefixHash))
              else (False, NULL_HASH))"

subsection \<open>The parent block\<close>

text \<open>The 4-byte nonce is written and read in its memory representation.\<close>

definition write_ParentBlock ::
  "bool \<Rightarrow> bool \<Rightarrow> ParentBlock \<Rightarrow> u64 \<Rightarrow> u32 \<Rightarrow> ser_error + bytes" where
  "write_ParentBlock hashingSerialization headerOnly pb ts nc =
     (let w0 = out_uint8 (pb_majorVersion pb) @ out_uint8 (pb_minorVersion pb) @ out_uint64 ts @
               out_binary (pb_previousBlockHash pb) @ out_binary (le_encode 4 nc);
          (r, minerTxHash) = getBaseTransactionHash (pb_baseTransaction pb)
      in if hashingSerialization \<and> \<not> r then Inl TransactionHashError
      else
      let w1 = (if hashingSerialization
                then out_binary (tree_hash_from_branch cn_fast_hash (baseTransactionBranch pb)
                       (length (baseTransactionBranch pb)) minerTxHash None)
                else []);
          txNum = ucast (pb_transactionCount pb) :: u64;
          w2 = out_uint64 txNum
      in if pb_transactionCount pb < 1 then Inl WrongTransactionsNumber
      else if headerOnly then Inr (w0 @ w1 @ w2)
      else if length (baseTransactionBranch pb) \<noteq> tree_depth (ucast (pb_transactionCount pb))
      then Inl WrongBranchSize
      else
      let w3 = concat (map out_binary (baseTransactionBranch pb)) @ write_BaseTransaction (pb_baseTransaction pb)
      in case getMergeMiningTagFromExtra (extra (pb_baseTransaction pb)) of
           None \<Rightarrow> Inl NoMergeMiningTag
         | Some mmTag \<Rightarrow>
             if mm_depth mmTag > 8 * 32 then Inl WrongTagDepth
             else if mm_depth mmTag \<noteq> of_nat (length (blockchainBranch pb)) then Inl WrongBranchSize
             else Inr (w0 @ w1 @ w2 @ w3 @ concat (map out_binary (blockchainBranch pb))))"

text \<open>The part after the header.\<close>

definition read_ParentBlock_body :: "ParentBlock \<Rightarrow> ParentBlock reader" where
  "read_ParentBlock_body pb i =
     bindE (read_items (in_binary 32) (tree_depth (ucast (pb_transactionCount pb))) i) (\<lambda>(branch, i).
     bindE (read_BaseTransaction i) (\<lambda>(tx, i).
       case getMergeMiningTagFromExtra (extra tx) of
         None \<Rightarrow> Inl NoMergeMiningTag
       | Some mmTag \<Rightarrow>
           if mm_depth mmTag > 8 * 32 then Inl WrongTagDepth
           else bindE (read_items (in_binary 32) (unat (mm_depth mmTag)) i) (\<lambda>(chain, i).
             Inr (pb \<lparr> baseTransactionBranch := branch, pb_baseTransaction := tx, blockchainBranch := chain \<rparr>, i))))"

definition read_ParentBlock ::
  "bool \<Rightarrow> bool \<Rightarrow> ParentBlock \<Rightarrow> (ParentBlock \<times> u64 \<times> u32) reader" where
  "read_ParentBlock hashingSerialization headerOnly pb i =
     bindE (in_uint8 i) (\<lambda>(maj, i).
     bindE (in_uint8 i) (\<lambda>(min, i).
     bindE (in_uint64 i) (\<lambda>(ts, i).
     bindE (in_binary 32 i) (\<lambda>(prev, i).
     bindE (in_binary 4 i) (\<lambda>(nc, i).
     bindE (if hashingSerialization
            then if fst (getBaseTransactionHash (pb_baseTransaction pb)) then in_binary 32 i
                 else Inl TransactionHashError
            else Inr ([], i)) (\<lambda>(_, i).
     bindE (in_uint64 i) (\<lambda>(txNum, i).
       let pb = pb \<lparr> pb_majorVersion := maj, pb_minorVersion := min, pb_previousBlockHash := prev,
                     pb_transactionCount := ucast txNum \<rparr>
       in if pb_transactionCount pb < 1 then Inl WrongTransactionsNumber
          else if headerOnly then Inr ((pb, ts, le_decode nc), i)
          else bindE (read_ParentBlock_body pb i) (\<lambda>(pb, i). Inr ((pb, ts, le_decode nc), i)))))))))"

subsection \<open>Block headers and blocks\<close>

definition write_BlockHeader :: "'a BlockHeader_scheme \<Rightarrow> ser_error + bytes" where
  "write_BlockHeader header =
     (if majorVersion header > BLOCK_MAJOR_VERSION_5 then Inl WrongMajorVersion
      else if majorVersion header = BLOCK_MAJOR_VERSION_1 then
        Inr (out_uint8 (majorVersion header) @ out_uint8 (minorVersion header) @
             out_uint64 (timestamp header) @ out_binary (previousBlockHash header) @
             out_binary (le_encode 4 (nonce header)))
      else if majorVersion header \<ge> BLOCK_MAJOR_VERSION_2 then
        Inr (out_uint8 (majorVersion header) @ out_uint8 (minorVersion header) @
             out_binary (previousBlockHash header))
      else Inl WrongMajorVersion)"

definition read_BlockHeader :: "'a BlockHeader_scheme \<Rightarrow> ('a BlockHeader_scheme) reader" where
  "read_BlockHeader header i =
     bindE (in_uint8 i) (\<lambda>(maj, i).
       if maj > BLOCK_MAJOR_VERSION_5 then Inl WrongMajorVersion
       else
     bindE (in_uint8 i) (\<lambda>(min, i).
       if maj = BLOCK_MAJOR_VERSION_1 then
         bindE (in_uint64 i) (\<lambda>(ts, i).
         bindE (in_binary 32 i) (\<lambda>(prev, i).
         bindE (in_binary 4 i) (\<lambda>(nc, i).
           Inr (header \<lparr> majorVersion := maj, minorVersion := min, timestamp := ts,
                         previousBlockHash := prev, nonce := le_decode nc \<rparr>, i))))
       else if maj \<ge> BLOCK_MAJOR_VERSION_2 then
         bindE (in_binary 32 i) (\<lambda>(prev, i).
           Inr (header \<lparr> majorVersion := maj, minorVersion := min, previousBlockHash := prev \<rparr>, i))
       else Inl WrongMajorVersion))"

definition write_BlockTemplate :: "BlockTemplate \<Rightarrow> ser_error + bytes" where
  "write_BlockTemplate block =
     bindE (write_BlockHeader block) (\<lambda>w0.
     bindE (if majorVersion block \<ge> BLOCK_MAJOR_VERSION_2
            then write_ParentBlock False False (parentBlock block) (timestamp block) (nonce block)
            else Inr []) (\<lambda>w1.
     bindE (write_Transaction (baseTransaction block)) (\<lambda>w2.
       Inr (w0 @ w1 @ w2 @ write_container out_binary (transactionHashes block)))))"

definition read_BlockTemplate :: "BlockTemplate \<Rightarrow> BlockTemplate reader" where
  "read_BlockTemplate block i =
     bindE (read_BlockHeader block i) (\<lambda>(block, i).
     bindE (if majorVersion block \<ge> BLOCK_MAJOR_VERSION_2
            then bindE (read_ParentBlock False False (parentBlock block) i) (\<lambda>((pb, ts, nc), i).
                   Inr (block \<lparr> parentBlock := pb, timestamp := ts, nonce := nc \<rparr>, i))
            else Inr (block, i)) (\<lambda>(block, i).
     bindE (read_Transaction i) (\<lambda>(tx, i).
     bindE (read_container (in_binary 32) i) (\<lambda>(hashes, i).
       Inr (block \<lparr> baseTransaction := tx, transactionHashes := hashes \<rparr>, i)))))"

section \<open>Blocks are read back\<close>

definition wf_parent :: "ParentBlock \<Rightarrow> bool" where
  "wf_parent pb \<longleftrightarrow> pod32 (pb_previousBlockHash pb) \<and> pb_transactionCount pb \<noteq> 0 \<and>
     length (baseTransactionBranch pb) = tree_depth (ucast (pb_transactionCount pb)) \<and>
     list_all pod32 (baseTransactionBranch pb) \<and> wf_fields (pb_baseTransaction pb) \<and>
     (case getMergeMiningTagFromExtra (extra (pb_baseTransaction pb)) of None \<Rightarrow> False
      | Some mmTag \<Rightarrow> mm_depth mmTag \<le> 256 \<and> mm_depth mmTag = of_nat (length (blockchainBranch pb))
          \<and> length (blockchainBranch pb) \<le> 256) \<and>
     list_all pod32 (blockchainBranch pb)"

definition wf_block :: "BlockTemplate \<Rightarrow> bool" where
  "wf_block b \<longleftrightarrow> BLOCK_MAJOR_VERSION_1 \<le> majorVersion b \<and> majorVersion b \<le> BLOCK_MAJOR_VERSION_5 \<and>
     pod32 (previousBlockHash b) \<and> (majorVersion b \<ge> BLOCK_MAJOR_VERSION_2 \<longrightarrow> wf_parent (parentBlock b)) \<and>
     wf_transaction (baseTransaction b) \<and> sized (transactionHashes b) \<and> list_all pod32 (transactionHashes b)"

text \<open>The bytes of a parent block in which the number of transactions is written as \<open>n\<close>.\<close>

definition parent_header_bytes :: "ParentBlock \<Rightarrow> u64 \<Rightarrow> u32 \<Rightarrow> bytes" where
  "parent_header_bytes pb ts nc =
     out_uint8 (pb_majorVersion pb) @ out_uint8 (pb_minorVersion pb) @ out_uint64 ts @
     out_binary (pb_previousBlockHash pb) @ out_binary (le_encode 4 nc)"

definition parent_body_bytes :: "ParentBlock \<Rightarrow> bytes" where
  "parent_body_bytes pb =
     concat (map out_binary (baseTransactionBranch pb)) @ write_BaseTransaction (pb_baseTransaction pb) @
     concat (map out_binary (blockchainBranch pb))"

lemma write_ParentBlock_wf:
  assumes "wf_parent pb"
  shows "write_ParentBlock False False pb ts nc =
    Inr (parent_header_bytes pb ts nc @ out_uint64 (ucast (pb_transactionCount pb)) @ parent_body_bytes pb)"
proof -
  have "\<not> pb_transactionCount pb < 1"
    using assms by (simp add: wf_parent_def word_less_unat unat_gt_0 not_less Suc_le_eq)
  then show ?thesis
    using assms by (auto simp: write_ParentBlock_def wf_parent_def parent_header_bytes_def
        parent_body_bytes_def Let_def not_less split: option.splits)
qed

lemma read_ParentBlock_body_write:
  assumes "wf_parent pb" "pb_transactionCount pb0 = pb_transactionCount pb"
  shows "read_ParentBlock_body pb0 (parent_body_bytes pb @ r) =
    Inr (pb0 \<lparr> baseTransactionBranch := baseTransactionBranch pb, pb_baseTransaction := pb_baseTransaction pb,
               blockchainBranch := blockchainBranch pb \<rparr>, r)"
proof -
  obtain t where t: "getMergeMiningTagFromExtra (extra (pb_baseTransaction pb)) = Some t"
    "\<not> mm_depth t > 256" "unat (mm_depth t) = length (blockchainBranch pb)"
    using assms(1) by (auto simp: wf_parent_def not_less unat_of_nat_small split: option.splits)
  have "read_items (in_binary 32) (tree_depth (ucast (pb_transactionCount pb)))
      (concat (map out_binary (baseTransactionBranch pb)) @ s) = Inr (baseTransactionBranch pb, s)" for s
    using pod32_codec.items_read_write [of "baseTransactionBranch pb" s] assms(1)
    by (simp add: wf_parent_def)
  moreover have "read_items (in_binary 32) (unat (mm_depth t))
      (concat (map out_binary (blockchainBranch pb)) @ r) = Inr (blockchainBranch pb, r)"
    using pod32_codec.items_read_write [of "blockchainBranch pb" r] assms(1) t
    by (simp add: wf_parent_def)
  moreover have "wf_fields (pb_baseTransaction pb)" using assms(1) by (simp add: wf_parent_def)
  ultimately show ?thesis
    using t assms(2) by (simp add: read_ParentBlock_body_def parent_body_bytes_def codec_simps)
qed

lemma read_ParentBlock_write:
  assumes "wf_parent pb" "ucast n = pb_transactionCount pb"
  shows "read_ParentBlock False False pb0
      (parent_header_bytes pb ts nc @ out_uint64 n @ parent_body_bytes pb @ r) = Inr ((pb, ts, nc), r)"
proof -
  have p: "pod32 (pb_previousBlockHash pb)" and c: "\<not> pb_transactionCount pb < 1"
    using assms by (simp_all add: wf_parent_def word_less_unat unat_gt_0 not_less Suc_le_eq)
  have n4: "in_binary 4 (out_binary (le_encode 4 nc) @ s) = Inr (le_encode 4 nc, s)" for s
    by (simp add: codec_simps out_binary_def)
  have d: "le_decode (le_encode 4 nc) = nc" by (rule le_decode_inverse) simp
  show ?thesis
    using p c assms(2)
    by (simp add: read_ParentBlock_def parent_header_bytes_def codec_simps n4 d Let_def
        read_ParentBlock_body_write [OF assms(1)])
qed

lemma write_BlockHeader_wf:
  assumes "wf_block b"
  shows "\<exists>w. write_BlockHeader b = Inr w \<and> (\<forall>(b0 :: BlockTemplate) r. read_BlockHeader b0 (w @ r) =
    Inr (if majorVersion b = BLOCK_MAJOR_VERSION_1
      then b0 \<lparr> majorVersion := majorVersion b, minorVersion := minorVersion b, timestamp := timestamp b,
        previousBlockHash := previousBlockHash b, nonce := nonce b \<rparr>
      else b0 \<lparr> majorVersion := majorVersion b, minorVersion := minorVersion b,
        previousBlockHash := previousBlockHash b \<rparr>, r))"
proof -
  have n4: "in_binary 4 (out_binary (le_encode 4 nc) @ s) = Inr (le_encode 4 nc, s)" for nc :: u32 and s
    by (simp add: codec_simps out_binary_def)
  have d: "le_decode (le_encode 4 nc) = nc" for nc :: u32 by (rule le_decode_inverse) simp
  have p: "pod32 (previousBlockHash b)" and v: "\<not> majorVersion b > BLOCK_MAJOR_VERSION_5"
    using assms by (simp_all add: wf_block_def not_less)
  show ?thesis
  proof (cases "majorVersion b = BLOCK_MAJOR_VERSION_1")
    case True
    then show ?thesis using p v
      by (simp add: write_BlockHeader_def read_BlockHeader_def codec_simps n4 d)
  next
    case False
    then have "majorVersion b \<ge> BLOCK_MAJOR_VERSION_2"
      using assms by (auto simp: wf_block_def BLOCK_MAJOR_VERSION_1_def BLOCK_MAJOR_VERSION_2_def
          word_le_unat word_eq_unat)
    then show ?thesis using False p v
      by (simp add: write_BlockHeader_def read_BlockHeader_def codec_simps)
  qed
qed

text \<open>The part of the bytes after the header; \<open>n\<close> is the number of transactions of the parent block.\<close>

definition block_rest_bytes :: "u64 \<Rightarrow> BlockTemplate \<Rightarrow> bytes" where
  "block_rest_bytes n b =
     (if majorVersion b \<ge> BLOCK_MAJOR_VERSION_2
      then parent_header_bytes (parentBlock b) (timestamp b) (nonce b) @ out_uint64 n @
           parent_body_bytes (parentBlock b)
      else []) @
     transaction_bytes (baseTransaction b) @ write_container out_binary (transactionHashes b)"

lemma write_BlockTemplate_wf:
  assumes "wf_block b" "write_BlockHeader b = Inr w"
  shows "write_BlockTemplate b = Inr (w @ block_rest_bytes (ucast (pb_transactionCount (parentBlock b))) b)"
  using assms write_ParentBlock_wf [of "parentBlock b"]
  by (auto simp: write_BlockTemplate_def block_rest_bytes_def wf_block_def write_Transaction_wf)

lemma version_split: "majorVersion b \<ge> BLOCK_MAJOR_VERSION_2 \<longleftrightarrow> majorVersion b \<noteq> BLOCK_MAJOR_VERSION_1"
  if "wf_block b"
  using that by (auto simp: wf_block_def BLOCK_MAJOR_VERSION_1_def BLOCK_MAJOR_VERSION_2_def
      word_le_unat word_eq_unat)

lemma read_BlockTemplate_write:
  assumes wf: "wf_block b" and w: "write_BlockHeader b = Inr w"
    and n: "majorVersion b \<ge> BLOCK_MAJOR_VERSION_2 \<Longrightarrow> ucast n = pb_transactionCount (parentBlock b)"
  shows "read_BlockTemplate b0 (w @ block_rest_bytes n b @ r) =
    Inr (if majorVersion b \<ge> BLOCK_MAJOR_VERSION_2 then b else b \<lparr> parentBlock := parentBlock b0 \<rparr>, r)"
proof -
  have hd: "\<And>(b0 :: BlockTemplate) r. read_BlockHeader b0 (w @ r) =
    Inr (if majorVersion b = BLOCK_MAJOR_VERSION_1
      then b0 \<lparr> majorVersion := majorVersion b, minorVersion := minorVersion b, timestamp := timestamp b,
        previousBlockHash := previousBlockHash b, nonce := nonce b \<rparr>
      else b0 \<lparr> majorVersion := majorVersion b, minorVersion := minorVersion b,
        previousBlockHash := previousBlockHash b \<rparr>, r)"
    using write_BlockHeader_wf [OF wf] w by auto
  have hs: "read_container (in_binary 32) (write_container out_binary (transactionHashes b) @ r) =
      Inr (transactionHashes b, r)"
    by (rule codec.read_write [OF pod32_codec.container_codec]) (use wf in \<open>simp add: wf_block_def\<close>)
  have tx: "read_Transaction (transaction_bytes (baseTransaction b) @ s) = Inr (baseTransaction b, s)" for s
    using wf by (simp add: wf_block_def transaction_codec.read_write)
  show ?thesis
  proof (cases "majorVersion b \<ge> BLOCK_MAJOR_VERSION_2")
    case True
    then have "wf_parent (parentBlock b)" using wf by (simp add: wf_block_def)
    from read_ParentBlock_write [OF this n [OF True]] True
    show ?thesis
      by (simp add: read_BlockTemplate_def block_rest_bytes_def hd tx hs version_split [OF wf])
  next
    case False
    then have v: "majorVersion b = BLOCK_MAJOR_VERSION_1" using version_split [OF wf] by blast
    have "\<not> BLOCK_MAJOR_VERSION_2 \<le> BLOCK_MAJOR_VERSION_1"
      by (simp add: BLOCK_MAJOR_VERSION_1_def BLOCK_MAJOR_VERSION_2_def word_le_unat)
    then show ?thesis
      by (simp add: read_BlockTemplate_def block_rest_bytes_def hd tx hs v)
  qed
qed

lemma count_back: "ucast (ucast c :: u64) = (c :: u16)"
  unfolding word_eq_unat unat_ucast_mod [of "ucast c :: u64"] unat_ucast_mod [of c]
  using unat_lt_16 [of c] by simp

lemma write_read_BlockTemplate:
  assumes "wf_block b"
  shows "\<exists>ba. write_BlockTemplate b = Inr ba \<and> fromBinaryArray (read_BlockTemplate b0) ba =
    Inr (if majorVersion b \<ge> BLOCK_MAJOR_VERSION_2 then b else b \<lparr> parentBlock := parentBlock b0 \<rparr>)"
proof -
  obtain w where w: "write_BlockHeader b = Inr w" using write_BlockHeader_wf [OF assms] by blast
  let ?n = "ucast (pb_transactionCount (parentBlock b)) :: u64"
  have "ucast ?n = pb_transactionCount (parentBlock b)" by (rule count_back)
  from read_BlockTemplate_write [OF assms w this, of b0 "[]"] write_BlockTemplate_wf [OF assms w]
  show ?thesis by (simp add: fromBinaryArray_def)
qed

lemma block_blob_second_form:
  assumes wf: "wf_block b" and v: "majorVersion b \<ge> BLOCK_MAJOR_VERSION_2"
  shows "\<exists>ba ba'. ba \<noteq> ba' \<and> write_BlockTemplate b = Inr ba \<and>
    fromBinaryArray (read_BlockTemplate b0) ba = Inr b \<and> fromBinaryArray (read_BlockTemplate b0) ba' = Inr b"
proof -
  obtain w where w: "write_BlockHeader b = Inr w" using write_BlockHeader_wf [OF wf] by blast
  let ?c = "pb_transactionCount (parentBlock b)"
  let ?n = "ucast ?c :: u64" and ?m = "ucast ?c + 65536 :: u64"
  have um: "unat ?m = unat ?c + 65536"
    using unat_lt_16 [of ?c] by (subst unat_plus_small) (simp_all add: unat_ucast_up)
  have n: "ucast ?n = ?c" by (rule count_back)
  have m: "ucast ?m = ?c" using um unat_lt_16 [of ?c] by (simp add: word_eq_unat unat_ucast_mod)
  have ne: "?n \<noteq> ?m" using um by (auto simp: word_eq_unat unat_ucast_up)
  let ?ba = "w @ block_rest_bytes ?n b" and ?ba' = "w @ block_rest_bytes ?m b"
  have "?ba \<noteq> ?ba'"
  proof
    assume "?ba = ?ba'"
    then have "out_uint64 ?n @ parent_body_bytes (parentBlock b) = out_uint64 ?m @ parent_body_bytes (parentBlock b)"
      using v by (simp add: block_rest_bytes_def)
    with uint64_codec.wr_inj ne show False by blast
  qed
  then show ?thesis
    using read_BlockTemplate_write [OF wf w n, of b0 "[]"] read_BlockTemplate_write [OF wf w m, of b0 "[]"]
      write_BlockTemplate_wf [OF wf w] v
    by (intro exI [of _ ?ba] exI [of _ ?ba']) (simp add: fromBinaryArray_def)
qed

text \<open>A merge-mined block.\<close>

definition sample_tag :: TransactionExtraMergeMiningTag where
  "sample_tag = \<lparr> mm_depth = 0, merkleRoot = replicate 32 3 \<rparr>"

definition sample_block :: BlockTemplate where
  "sample_block = \<lparr> majorVersion = 2, minorVersion = 0, nonce = 7, timestamp = 1000,
     previousBlockHash = replicate 32 1,
     parentBlock = \<lparr> pb_majorVersion = 1, pb_minorVersion = 0, pb_previousBlockHash = replicate 32 2,
       pb_transactionCount = 1, baseTransactionBranch = [],
       pb_baseTransaction = \<lparr> tx_version = 1, unlockTime = 0, inputs = [], outputs = [],
         extra = field_bytes (ExtraMergeMiningTag sample_tag) \<rparr>,
       blockchainBranch = [] \<rparr>,
     baseTransaction = sample_transaction, transactionHashes = [] \<rparr>"

lemma wf_sample_block: "wf_block sample_block"
proof -
  have wf: "wf_extra [ExtraMergeMiningTag sample_tag]" by (simp add: wf_extra_def sample_tag_def pod32_def)
  have "writeTransactionExtra [] [ExtraMergeMiningTag sample_tag] = (True, field_bytes (ExtraMergeMiningTag sample_tag))"
    using wf write_extra_bytes [of "[ExtraMergeMiningTag sample_tag]" "[]"]
    by (simp add: wf_extra_def del: field_bytes.simps writeTransactionExtra.simps)
  with parse_written_extra [OF wf]
  have "parseTransactionExtra (field_bytes (ExtraMergeMiningTag sample_tag)) = (True, [ExtraMergeMiningTag sample_tag])"
    by auto
  then have t: "getMergeMiningTagFromExtra (field_bytes (ExtraMergeMiningTag sample_tag)) = Some sample_tag"
    by (simp add: getMergeMiningTagFromExtra_def as_mm_tag_def)
  have l: "length (field_bytes (ExtraMergeMiningTag sample_tag)) < 18446744073709551616"
  proof -
    have "length (doSerialize_write sample_tag) \<le> 100"
      using length_writeVarint [of "mm_depth sample_tag"]
      by (simp add: doSerialize_write_def out_uint64_def out_binary_def sample_tag_def)
    moreover have "length (writeVarint (of_nat (length (doSerialize_write sample_tag)) :: u64)) \<le> 10"
      by (rule length_writeVarint)
    ultimately show ?thesis by (simp add: write_MergeMiningTag_def out_string_def)
  qed
  have d: "tree_depth 1 = 0" by (simp add: tree_depth_def)
  show ?thesis
    unfolding wf_block_def wf_parent_def wf_fields_def sample_block_def
    using t l d wf_sample_transaction
    by (simp add: pod32_def BLOCK_MAJOR_VERSION_1_def BLOCK_MAJOR_VERSION_2_def BLOCK_MAJOR_VERSION_5_def
        sample_tag_def word_le_unat del: field_bytes.simps)
qed

section \<open>Properties\<close>

text \<open>C18. A well-formed block is serialized, and reading the bytes into any object gives it back: all of
  it for a merge-mined block, and all but the parent block, which the first version does not
  write, for the others.\<close>

theorem block_template_roundtrip:
  assumes "wf_block b"
  shows "\<exists>ba. write_BlockTemplate b = Inr ba \<and> fromBinaryArray (read_BlockTemplate b0) ba =
    Inr (if majorVersion b \<ge> BLOCK_MAJOR_VERSION_2 then b else b \<lparr> parentBlock := parentBlock b0 \<rparr>)"
  by (rule write_read_BlockTemplate [OF assms])

theorem block_template_roundtrip_witness:
  "\<exists>ba. write_BlockTemplate sample_block = Inr ba \<and> fromBinaryArray (read_BlockTemplate sample_block) ba =
     Inr (if majorVersion sample_block \<ge> BLOCK_MAJOR_VERSION_2 then sample_block
       else sample_block \<lparr> parentBlock := parentBlock sample_block \<rparr>)"
  by (rule block_template_roundtrip [OF wf_sample_block])

text \<open>C29. Blobs of merge-mined blocks are malleable: the 64-bit number of transactions of the parent
  block is cut to 16 bits without a check, so that every such block has a second byte array
  that is accepted as the same block.\<close>

theorem block_blob_malleable:
  assumes "wf_block b" "majorVersion b \<ge> BLOCK_MAJOR_VERSION_2"
  shows "\<exists>ba ba'. ba \<noteq> ba' \<and> write_BlockTemplate b = Inr ba \<and>
    fromBinaryArray (read_BlockTemplate b0) ba = Inr b \<and> fromBinaryArray (read_BlockTemplate b0) ba' = Inr b"
  by (rule block_blob_second_form [OF assms])

theorem block_blob_malleable_witness:
  "\<exists>ba ba'. ba \<noteq> ba' \<and> write_BlockTemplate sample_block = Inr ba \<and>
     fromBinaryArray (read_BlockTemplate sample_block) ba = Inr sample_block \<and>
     fromBinaryArray (read_BlockTemplate sample_block) ba' = Inr sample_block"
  by (rule block_blob_malleable [OF wf_sample_block])
    (simp add: sample_block_def BLOCK_MAJOR_VERSION_2_def)

end
