(* ===== verification/CachedObjects.thy ===== *)
theory CachedObjects
  imports BlockSerialization
begin

text \<open>Blocks and transactions with cached serializations and hashes, \<open>src/src/cryptonote_core/cached_block.cpp\<close>
  and \<open>cached_transaction.cpp\<close>. A getter of the source is a \<open>const\<close> method that fills \<open>mutable\<close> optional
  members; here it takes the object and returns its result (or the exception) with the object
  after the call. The slow hashes of the proof of work are arguments.

  The contract of a getter is the locale \<open>memo\<close>: it returns what a function of the object
  without caches gives, and it keeps the caches consistent. Every getter interprets it, so the
  result of a call does not depend on the calls before it.\<close>

section \<open>Definitions\<close>

datatype cache_error =
    CantSerializeBlockHeader
  | CantSerializeParentBlockHeader
  | CantSerializeParentBlock
  | CantSerializeParentBlockHeaderForHashing
  | CantSerializeParentBlockForHashing
  | UnknownBlockMajorVersion
  | DeserializationError
  | SerializationFailure ser_error

subsection \<open>Blocks\<close>

record CachedBlock =
  cb_block :: BlockTemplate
  cb_blockHashingBinaryArray :: "bytes option"
  cb_parentBlockBinaryArray :: "bytes option"
  cb_parentBlockHashingBinaryArray :: "bytes option"
  cb_parentBlockBinaryArrayHeaderOnly :: "bytes option"
  cb_parentBlockHashingBinaryArrayHeaderOnly :: "bytes option"
  cb_blockIndex :: "u32 option"
  cb_transactionTreeHash :: "hash option"
  cb_blockHash :: "hash option"
  cb_blockLongHash :: "hash option"
  cb_auxiliaryBlockHeaderHash :: "hash option"

definition CachedBlock_init :: "BlockTemplate \<Rightarrow> CachedBlock" where
  "CachedBlock_init block =
     \<lparr> cb_block = block, cb_blockHashingBinaryArray = None, cb_parentBlockBinaryArray = None,
       cb_parentBlockHashingBinaryArray = None, cb_parentBlockBinaryArrayHeaderOnly = None,
       cb_parentBlockHashingBinaryArrayHeaderOnly = None, cb_blockIndex = None,
       cb_transactionTreeHash = None, cb_blockHash = None, cb_blockLongHash = None,
       cb_auxiliaryBlockHeaderHash = None \<rparr>"

text \<open>\<open>getObjectHash\<close> of a byte array: the array is serialized as a string, with its size first.\<close>

definition getObjectHash_blob :: "bytes \<Rightarrow> hash" where
  "getObjectHash_blob ba = snd (getObjectHash (Inr (out_string ba)))"

definition getTransactionTreeHash :: "CachedBlock \<Rightarrow> (cache_error + hash) \<times> CachedBlock" where
  "getTransactionTreeHash c =
     (case cb_transactionTreeHash c of
        Some v \<Rightarrow> (Inr v, c)
      | None \<Rightarrow>
          let block = cb_block c;
              hashes = [snd (getObjectHash (write_Transaction (baseTransaction block)))] @ transactionHashes block;
              v = tree_hash cn_fast_hash hashes
          in (Inr v, c \<lparr> cb_transactionTreeHash := Some v \<rparr>))"

definition getBlockHashingBinaryArray :: "CachedBlock \<Rightarrow> (cache_error + bytes) \<times> CachedBlock" where
  "getBlockHashingBinaryArray c =
     (case cb_blockHashingBinaryArray c of
        Some v \<Rightarrow> (Inr v, c)
      | None \<Rightarrow>
          (case toBinaryArray (write_BlockHeader (BlockHeader.truncate (cb_block c))) of
             None \<Rightarrow> (Inl CantSerializeBlockHeader, c \<lparr> cb_blockHashingBinaryArray := None \<rparr>)
           | Some header \<Rightarrow>
               (case getTransactionTreeHash (c \<lparr> cb_blockHashingBinaryArray := Some header \<rparr>) of
                  (Inl e, c) \<Rightarrow> (Inl e, c)
                | (Inr treeHash, c) \<Rightarrow>
                    let transactionCount = get_varint_data (of_nat (length (transactionHashes (cb_block c)) + 1) :: u64);
                        v = header @ treeHash @ transactionCount
                    in (Inr v, c \<lparr> cb_blockHashingBinaryArray := Some v \<rparr>))))"

definition getParentBlockBinaryArray :: "bool \<Rightarrow> CachedBlock \<Rightarrow> (cache_error + bytes) \<times> CachedBlock" where
  "getParentBlockBinaryArray headerOnly c =
     (let b = cb_block c in
      if headerOnly then
        (case cb_parentBlockBinaryArrayHeaderOnly c of
           Some v \<Rightarrow> (Inr v, c)
         | None \<Rightarrow>
             (case toBinaryArray (write_ParentBlock False True (parentBlock b) (timestamp b) (nonce b)) of
                None \<Rightarrow> (Inl CantSerializeParentBlockHeader, c \<lparr> cb_parentBlockBinaryArrayHeaderOnly := None \<rparr>)
              | Some v \<Rightarrow> (Inr v, c \<lparr> cb_parentBlockBinaryArrayHeaderOnly := Some v \<rparr>)))
      else
        (case cb_parentBlockBinaryArray c of
           Some v \<Rightarrow> (Inr v, c)
         | None \<Rightarrow>
             (case toBinaryArray (write_ParentBlock False False (parentBlock b) (timestamp b) (nonce b)) of
                None \<Rightarrow> (Inl CantSerializeParentBlock, c \<lparr> cb_parentBlockBinaryArray := None \<rparr>)
              | Some v \<Rightarrow> (Inr v, c \<lparr> cb_parentBlockBinaryArray := Some v \<rparr>))))"

definition getParentBlockHashingBinaryArray :: "bool \<Rightarrow> CachedBlock \<Rightarrow> (cache_error + bytes) \<times> CachedBlock" where
  "getParentBlockHashingBinaryArray headerOnly c =
     (let b = cb_block c in
      if headerOnly then
        (case cb_parentBlockHashingBinaryArrayHeaderOnly c of
           Some v \<Rightarrow> (Inr v, c)
         | None \<Rightarrow>
             (case toBinaryArray (write_ParentBlock True True (parentBlock b) (timestamp b) (nonce b)) of
                None \<Rightarrow> (Inl CantSerializeParentBlockHeaderForHashing,
                          c \<lparr> cb_parentBlockHashingBinaryArrayHeaderOnly := None \<rparr>)
              | Some v \<Rightarrow> (Inr v, c \<lparr> cb_parentBlockHashingBinaryArrayHeaderOnly := Some v \<rparr>)))
      else
        (case cb_parentBlockHashingBinaryArray c of
           Some v \<Rightarrow> (Inr v, c)
         | None \<Rightarrow>
             (case toBinaryArray (write_ParentBlock True False (parentBlock b) (timestamp b) (nonce b)) of
                None \<Rightarrow> (Inl CantSerializeParentBlockForHashing, c \<lparr> cb_parentBlockHashingBinaryArray := None \<rparr>)
              | Some v \<Rightarrow> (Inr v, c \<lparr> cb_parentBlockHashingBinaryArray := Some v \<rparr>))))"

definition getBlockHash :: "CachedBlock \<Rightarrow> (cache_error + hash) \<times> CachedBlock" where
  "getBlockHash c =
     (case cb_blockHash c of
        Some v \<Rightarrow> (Inr v, c)
      | None \<Rightarrow>
          (case getBlockHashingBinaryArray c of
             (Inl e, c) \<Rightarrow> (Inl e, c)
           | (Inr blockBinaryArray, c) \<Rightarrow>
               if BLOCK_MAJOR_VERSION_2 \<le> majorVersion (cb_block c) then
                 (case getParentBlockHashingBinaryArray False c of
                    (Inl e, c) \<Rightarrow> (Inl e, c)
                  | (Inr parentArray, c) \<Rightarrow>
                      let v = getObjectHash_blob (blockBinaryArray @ parentArray)
                      in (Inr v, c \<lparr> cb_blockHash := Some v \<rparr>))
               else let v = getObjectHash_blob blockBinaryArray
                    in (Inr v, c \<lparr> cb_blockHash := Some v \<rparr>)))"

text \<open>The proof-of-work hash: \<open>cn_slow_hash_v0\<close>, \<open>cn_lite_slow_hash_v1\<close> or \<open>cn_turtle_lite_slow_hash_v2\<close> of
  the bytes, by the version of the block.\<close>

definition getBlockLongHash ::
  "(bytes \<Rightarrow> hash) \<Rightarrow> (bytes \<Rightarrow> hash) \<Rightarrow> (bytes \<Rightarrow> hash) \<Rightarrow> CachedBlock \<Rightarrow> (cache_error + hash) \<times> CachedBlock" where
  "getBlockLongHash cn_v0 cn_lite_v1 cn_turtle_lite_v2 c =
     (case cb_blockLongHash c of
        Some v \<Rightarrow> (Inr v, c)
      | None \<Rightarrow>
          let v = majorVersion (cb_block c);
              finish = (\<lambda>pow r. case r of (Inl e, c) \<Rightarrow> (Inl e, c)
                         | (Inr raw, c) \<Rightarrow> (Inr (pow raw), c \<lparr> cb_blockLongHash := Some (pow raw) \<rparr>))
          in if v = BLOCK_MAJOR_VERSION_1 then finish cn_v0 (getBlockHashingBinaryArray c)
             else if v = BLOCK_MAJOR_VERSION_2 \<or> v = BLOCK_MAJOR_VERSION_3
             then finish cn_v0 (getParentBlockHashingBinaryArray True c)
             else if v = BLOCK_MAJOR_VERSION_4
             then finish cn_lite_v1 (getParentBlockHashingBinaryArray True c)
             else if v \<ge> BLOCK_MAJOR_VERSION_5
             then finish cn_turtle_lite_v2 (getParentBlockHashingBinaryArray True c)
             else (Inl UnknownBlockMajorVersion, c))"

definition getAuxiliaryBlockHeaderHash :: "CachedBlock \<Rightarrow> (cache_error + hash) \<times> CachedBlock" where
  "getAuxiliaryBlockHeaderHash c =
     (case cb_auxiliaryBlockHeaderHash c of
        Some v \<Rightarrow> (Inr v, c)
      | None \<Rightarrow>
          (case getBlockHashingBinaryArray c of
             (Inl e, c) \<Rightarrow> (Inl e, c)
           | (Inr ba, c) \<Rightarrow>
               let v = getObjectHash_blob ba in (Inr v, c \<lparr> cb_auxiliaryBlockHeaderHash := Some v \<rparr>)))"

definition getBlockIndex :: "CachedBlock \<Rightarrow> (cache_error + u32) \<times> CachedBlock" where
  "getBlockIndex c =
     (case cb_blockIndex c of
        Some v \<Rightarrow> (Inr v, c)
      | None \<Rightarrow>
          let ins = inputs (baseTransaction (cb_block c));
              v = (if length ins \<noteq> 1 then 0
                   else case ins ! 0 of BaseInput i \<Rightarrow> i | KeyInput _ _ _ \<Rightarrow> 0)
          in (Inr v, c \<lparr> cb_blockIndex := Some v \<rparr>))"

subsection \<open>Transactions\<close>

record CachedTransaction =
  ct_transaction :: Transaction
  ct_transactionBinaryArray :: "bytes option"
  ct_transactionHash :: "hash option"
  ct_transactionPrefixHash :: "hash option"
  ct_transactionFee :: "u64 option"

definition CachedTransaction_init :: "Transaction \<Rightarrow> CachedTransaction" where
  "CachedTransaction_init tx =
     \<lparr> ct_transaction = tx, ct_transactionBinaryArray = None, ct_transactionHash = None,
       ct_transactionPrefixHash = None, ct_transactionFee = None \<rparr>"

definition CachedTransaction_of_blob :: "bytes \<Rightarrow> cache_error + CachedTransaction" where
  "CachedTransaction_of_blob ba =
     (case fromBinaryArray read_Transaction ba of
        Inl e \<Rightarrow> Inl DeserializationError
      | Inr tx \<Rightarrow> Inr (CachedTransaction_init tx \<lparr> ct_transactionBinaryArray := Some ba \<rparr>))"

definition getTransactionBinaryArray :: "CachedTransaction \<Rightarrow> (cache_error + bytes) \<times> CachedTransaction" where
  "getTransactionBinaryArray c =
     (case ct_transactionBinaryArray c of
        Some v \<Rightarrow> (Inr v, c)
      | None \<Rightarrow>
          (case write_Transaction (ct_transaction c) of
             Inl e \<Rightarrow> (Inl (SerializationFailure e), c)
           | Inr v \<Rightarrow> (Inr v, c \<lparr> ct_transactionBinaryArray := Some v \<rparr>)))"

definition getTransactionHash :: "CachedTransaction \<Rightarrow> (cache_error + hash) \<times> CachedTransaction" where
  "getTransactionHash c =
     (case ct_transactionHash c of
        Some v \<Rightarrow> (Inr v, c)
      | None \<Rightarrow>
          (case getTransactionBinaryArray c of
             (Inl e, c) \<Rightarrow> (Inl e, c)
           | (Inr ba, c) \<Rightarrow>
               let v = getBinaryArrayHash ba in (Inr v, c \<lparr> ct_transactionHash := Some v \<rparr>)))"

definition getTransactionPrefixHash :: "CachedTransaction \<Rightarrow> (cache_error + hash) \<times> CachedTransaction" where
  "getTransactionPrefixHash c =
     (case ct_transactionPrefixHash c of
        Some v \<Rightarrow> (Inr v, c)
      | None \<Rightarrow>
          let v = snd (getObjectHash (Inr (write_TransactionPrefix (ct_transaction c))))
          in (Inr v, c \<lparr> ct_transactionPrefixHash := Some v \<rparr>))"

text \<open>The loop over the inputs; \<open>None\<close> is the early return at a base input.\<close>

fun fee_inputs :: "u64 \<Rightarrow> TransactionInput list \<Rightarrow> u64 option" where
  "fee_inputs s [] = Some s"
| "fee_inputs s (KeyInput a offs k # ins) = fee_inputs (s + a) ins"
| "fee_inputs s (BaseInput i # ins) = None"

definition getTransactionFee :: "CachedTransaction \<Rightarrow> (cache_error + u64) \<times> CachedTransaction" where
  "getTransactionFee c =
     (case ct_transactionFee c of
        Some v \<Rightarrow> (Inr v, c)
      | None \<Rightarrow>
          let summaryOutputAmount = foldl (\<lambda>s out. s + out_amount out) 0 (outputs (ct_transaction c))
          in case fee_inputs 0 (inputs (ct_transaction c)) of
               None \<Rightarrow> (Inr 0, c)
             | Some summaryInputAmount \<Rightarrow>
                 let v = summaryInputAmount - summaryOutputAmount
                 in (Inr v, c \<lparr> ct_transactionFee := Some v \<rparr>))"

section \<open>The contract of a getter\<close>

locale memo =
  fixes get :: "'c \<Rightarrow> ('e + 'a) \<times> 'c"
    and consistent :: "'c \<Rightarrow> bool"
    and obj :: "'c \<Rightarrow> 'o"
    and spec :: "'o \<Rightarrow> 'e + 'a"
  assumes get_contract:
    "consistent c \<Longrightarrow> get c = (r, c') \<Longrightarrow> r = spec (obj c) \<and> consistent c' \<and> obj c' = obj c"
begin

lemma get_spec: "consistent c \<Longrightarrow> fst (get c) = spec (obj c)"
  using get_contract [of c "fst (get c)" "snd (get c)"] by simp

lemma get_keeps: "consistent c \<Longrightarrow> consistent (snd (get c)) \<and> obj (snd (get c)) = obj c"
  using get_contract [of c "fst (get c)" "snd (get c)"] by simp

text \<open>A getter inside another: the caller goes on with the result and the object.\<close>

lemma get_cases:
  assumes "consistent c"
  obtains (fails) e c' where "get c = (Inl e, c')" "spec (obj c) = Inl e" "consistent c'" "obj c' = obj c"
  | (returns) v c' where "get c = (Inr v, c')" "spec (obj c) = Inr v" "consistent c'" "obj c' = obj c"
proof -
  obtain r c' where g: "get c = (r, c')" by fastforce
  note contract = get_contract [OF assms g]
  show thesis
  proof (cases r)
    case (Inl e)
    with g contract show thesis by (intro that(1) [of e c']) auto
  next
    case (Inr v)
    with g contract show thesis by (intro that(2) [of v c']) auto
  qed
qed

end

section \<open>What the getters return\<close>

definition tree_hash_spec :: "BlockTemplate \<Rightarrow> hash" where
  "tree_hash_spec b =
     tree_hash cn_fast_hash (snd (getObjectHash (write_Transaction (baseTransaction b))) # transactionHashes b)"

definition hashing_spec :: "BlockTemplate \<Rightarrow> cache_error + bytes" where
  "hashing_spec b =
     (case write_BlockHeader (BlockHeader.truncate b) of
        Inl e \<Rightarrow> Inl CantSerializeBlockHeader
      | Inr header \<Rightarrow>
          Inr (header @ tree_hash_spec b @ get_varint_data (of_nat (length (transactionHashes b) + 1) :: u64)))"

definition parent_spec :: "cache_error \<Rightarrow> bool \<Rightarrow> bool \<Rightarrow> BlockTemplate \<Rightarrow> cache_error + bytes" where
  "parent_spec err hashing headerOnly b =
     (case write_ParentBlock hashing headerOnly (parentBlock b) (timestamp b) (nonce b) of
        Inl e \<Rightarrow> Inl err | Inr v \<Rightarrow> Inr v)"

abbreviation parent_plain_spec :: "bool \<Rightarrow> BlockTemplate \<Rightarrow> cache_error + bytes" where
  "parent_plain_spec ho \<equiv>
     parent_spec (if ho then CantSerializeParentBlockHeader else CantSerializeParentBlock) False ho"

abbreviation parent_hashing_spec :: "bool \<Rightarrow> BlockTemplate \<Rightarrow> cache_error + bytes" where
  "parent_hashing_spec ho \<equiv>
     parent_spec (if ho then CantSerializeParentBlockHeaderForHashing else CantSerializeParentBlockForHashing) True ho"

definition block_hash_spec :: "BlockTemplate \<Rightarrow> cache_error + hash" where
  "block_hash_spec b =
     bindE (hashing_spec b) (\<lambda>ba.
       if BLOCK_MAJOR_VERSION_2 \<le> majorVersion b
       then bindE (parent_hashing_spec False b) (\<lambda>p. Inr (getObjectHash_blob (ba @ p)))
       else Inr (getObjectHash_blob ba))"

definition long_hash_spec ::
  "(bytes \<Rightarrow> hash) \<Rightarrow> (bytes \<Rightarrow> hash) \<Rightarrow> (bytes \<Rightarrow> hash) \<Rightarrow> BlockTemplate \<Rightarrow> cache_error + hash" where
  "long_hash_spec cn_v0 cn_lite_v1 cn_turtle_lite_v2 b =
     (let v = majorVersion b in
      if v = BLOCK_MAJOR_VERSION_1 then bindE (hashing_spec b) (\<lambda>r. Inr (cn_v0 r))
      else if v = BLOCK_MAJOR_VERSION_2 \<or> v = BLOCK_MAJOR_VERSION_3
      then bindE (parent_hashing_spec True b) (\<lambda>r. Inr (cn_v0 r))
      else if v = BLOCK_MAJOR_VERSION_4 then bindE (parent_hashing_spec True b) (\<lambda>r. Inr (cn_lite_v1 r))
      else if v \<ge> BLOCK_MAJOR_VERSION_5
      then bindE (parent_hashing_spec True b) (\<lambda>r. Inr (cn_turtle_lite_v2 r))
      else Inl UnknownBlockMajorVersion)"

definition aux_hash_spec :: "BlockTemplate \<Rightarrow> cache_error + hash" where
  "aux_hash_spec b = bindE (hashing_spec b) (\<lambda>ba. Inr (getObjectHash_blob ba))"

definition block_index_spec :: "BlockTemplate \<Rightarrow> cache_error + u32" where
  "block_index_spec b = Inr (case inputs (baseTransaction b) of [BaseInput i] \<Rightarrow> i | _ \<Rightarrow> 0)"

text \<open>A cache that is filled holds what the getter would compute.\<close>

definition cache_ok :: "'a option \<Rightarrow> 'e + 'a \<Rightarrow> bool" where
  "cache_ok m s \<longleftrightarrow> (case m of None \<Rightarrow> True | Some v \<Rightarrow> s = Inr v)"

lemma cache_ok_simps [simp]: "cache_ok None s" "cache_ok (Some v) s \<longleftrightarrow> s = Inr v"
  by (simp_all add: cache_ok_def)

definition block_cache_ok ::
  "(bytes \<Rightarrow> hash) \<Rightarrow> (bytes \<Rightarrow> hash) \<Rightarrow> (bytes \<Rightarrow> hash) \<Rightarrow> CachedBlock \<Rightarrow> bool" where
  "block_cache_ok f g h c \<longleftrightarrow>
     (let b = cb_block c in
      cache_ok (cb_transactionTreeHash c) (Inr (tree_hash_spec b) :: cache_error + hash) \<and>
      cache_ok (cb_blockHashingBinaryArray c) (hashing_spec b) \<and>
      cache_ok (cb_parentBlockBinaryArray c) (parent_plain_spec False b) \<and>
      cache_ok (cb_parentBlockBinaryArrayHeaderOnly c) (parent_plain_spec True b) \<and>
      cache_ok (cb_parentBlockHashingBinaryArray c) (parent_hashing_spec False b) \<and>
      cache_ok (cb_parentBlockHashingBinaryArrayHeaderOnly c) (parent_hashing_spec True b) \<and>
      cache_ok (cb_blockHash c) (block_hash_spec b) \<and>
      cache_ok (cb_blockLongHash c) (long_hash_spec f g h b) \<and>
      cache_ok (cb_auxiliaryBlockHeaderHash c) (aux_hash_spec b) \<and>
      cache_ok (cb_blockIndex c) (block_index_spec b))"

interpretation tree_memo: memo getTransactionTreeHash "block_cache_ok f g h" cb_block "\<lambda>b. Inr (tree_hash_spec b)"
  for f g h
  by unfold_locales
    (auto simp: getTransactionTreeHash_def block_cache_ok_def tree_hash_spec_def Let_def split: option.splits)

interpretation hashing_memo: memo getBlockHashingBinaryArray "block_cache_ok f g h" cb_block hashing_spec
  for f g h
proof
  fix c r c' assume ok: "block_cache_ok f g h c" and get: "getBlockHashingBinaryArray c = (r, c')"
  show "r = hashing_spec (cb_block c) \<and> block_cache_ok f g h c' \<and> cb_block c' = cb_block c"
  proof (cases "cb_blockHashingBinaryArray c")
    case (Some v)
    then show ?thesis using ok get by (auto simp: getBlockHashingBinaryArray_def block_cache_ok_def Let_def)
  next
    case None
    show ?thesis
    proof (cases "write_BlockHeader (BlockHeader.truncate (cb_block c))")
      case (Inl e)
      then show ?thesis using ok get None
        by (auto simp: getBlockHashingBinaryArray_def toBinaryArray_def hashing_spec_def block_cache_ok_def Let_def)
    next
      case (Inr header)
      then show ?thesis using ok get None
        by (auto simp: getBlockHashingBinaryArray_def toBinaryArray_def hashing_spec_def
            getTransactionTreeHash_def block_cache_ok_def tree_hash_spec_def Let_def split: option.splits)
    qed
  qed
qed

interpretation parent_memo: memo "getParentBlockBinaryArray ho" "block_cache_ok f g h" cb_block "parent_plain_spec ho"
  for ho f g h
  by unfold_locales
    (cases ho; auto simp: getParentBlockBinaryArray_def block_cache_ok_def parent_spec_def toBinaryArray_def Let_def
      split: option.splits sum.splits)

interpretation parent_hashing_memo:
  memo "getParentBlockHashingBinaryArray ho" "block_cache_ok f g h" cb_block "parent_hashing_spec ho"
  for ho f g h
  by unfold_locales
    (cases ho; auto simp: getParentBlockHashingBinaryArray_def block_cache_ok_def parent_spec_def toBinaryArray_def
      Let_def split: option.splits sum.splits)

lemma block_cache_okD:
  assumes "block_cache_ok f g h c"
  shows "cache_ok (cb_blockHash c) (block_hash_spec (cb_block c))"
    "cache_ok (cb_blockLongHash c) (long_hash_spec f g h (cb_block c))"
    "cache_ok (cb_auxiliaryBlockHeaderHash c) (aux_hash_spec (cb_block c))"
  using assms by (simp_all add: block_cache_ok_def Let_def)

lemma block_cache_ok_fill:
  assumes "block_cache_ok f g h c"
  shows "block_hash_spec (cb_block c) = Inr v \<Longrightarrow> block_cache_ok f g h (c \<lparr> cb_blockHash := Some v \<rparr>)"
    "long_hash_spec f g h (cb_block c) = Inr v \<Longrightarrow> block_cache_ok f g h (c \<lparr> cb_blockLongHash := Some v \<rparr>)"
    "aux_hash_spec (cb_block c) = Inr v \<Longrightarrow> block_cache_ok f g h (c \<lparr> cb_auxiliaryBlockHeaderHash := Some v \<rparr>)"
  using assms by (simp_all add: block_cache_ok_def Let_def)

interpretation block_hash_memo: memo getBlockHash "block_cache_ok f g h" cb_block block_hash_spec for f g h
proof
  fix c r c' assume ok: "block_cache_ok f g h c" and get: "getBlockHash c = (r, c')"
  show "r = block_hash_spec (cb_block c) \<and> block_cache_ok f g h c' \<and> cb_block c' = cb_block c"
  proof (cases "cb_blockHash c")
    case (Some v)
    then show ?thesis using block_cache_okD [OF ok] get ok by (auto simp: getBlockHash_def)
  next
    case None
    from ok show ?thesis
    proof (cases rule: hashing_memo.get_cases)
      case (fails e c1)
      then have "getBlockHash c = (Inl e, c1)" "block_hash_spec (cb_block c) = Inl e"
        using None by (simp_all add: getBlockHash_def block_hash_spec_def)
      then show ?thesis using get fails(3,4) by simp
    next
      case (returns ba c1)
      note h = this
      show ?thesis
      proof (cases "BLOCK_MAJOR_VERSION_2 \<le> majorVersion (cb_block c)")
        case True
        from h(3) show ?thesis
        proof (cases rule: parent_hashing_memo.get_cases [where ho = False])
          case (fails e c2)
          then have "getBlockHash c = (Inl e, c2)" "block_hash_spec (cb_block c) = Inl e"
            using None h True by (simp_all add: getBlockHash_def block_hash_spec_def)
          then show ?thesis using get h fails(3,4) by simp
        next
          case (returns p c2)
          let ?v = "getObjectHash_blob (ba @ p)"
          have v: "block_hash_spec (cb_block c2) = Inr ?v"
            using returns h True by (simp add: block_hash_spec_def)
          have "getBlockHash c = (Inr ?v, c2 \<lparr> cb_blockHash := Some ?v \<rparr>)"
            using None h returns True by (simp add: getBlockHash_def Let_def)
          with block_cache_ok_fill(1) [OF returns(3) v] v get h returns(4) show ?thesis by auto
        qed
      next
        case False
        let ?v = "getObjectHash_blob ba"
        have v: "block_hash_spec (cb_block c1) = Inr ?v"
          using h False by (simp add: block_hash_spec_def)
        have "getBlockHash c = (Inr ?v, c1 \<lparr> cb_blockHash := Some ?v \<rparr>)"
          using None h False by (simp add: getBlockHash_def Let_def)
        with block_cache_ok_fill(1) [OF h(3) v] v get h show ?thesis by auto
      qed
    qed
  qed
qed

interpretation aux_hash_memo: memo getAuxiliaryBlockHeaderHash "block_cache_ok f g h" cb_block aux_hash_spec
  for f g h
proof
  fix c r c' assume ok: "block_cache_ok f g h c" and get: "getAuxiliaryBlockHeaderHash c = (r, c')"
  show "r = aux_hash_spec (cb_block c) \<and> block_cache_ok f g h c' \<and> cb_block c' = cb_block c"
  proof (cases "cb_auxiliaryBlockHeaderHash c")
    case (Some v)
    then show ?thesis using block_cache_okD [OF ok] get ok by (auto simp: getAuxiliaryBlockHeaderHash_def)
  next
    case None
    from ok show ?thesis
    proof (cases rule: hashing_memo.get_cases)
      case (fails e c1)
      then have "getAuxiliaryBlockHeaderHash c = (Inl e, c1)" "aux_hash_spec (cb_block c) = Inl e"
        using None by (simp_all add: getAuxiliaryBlockHeaderHash_def aux_hash_spec_def)
      then show ?thesis using get fails(3,4) by simp
    next
      case (returns ba c1)
      let ?v = "getObjectHash_blob ba"
      have v: "aux_hash_spec (cb_block c1) = Inr ?v" using returns by (simp add: aux_hash_spec_def)
      have "getAuxiliaryBlockHeaderHash c = (Inr ?v, c1 \<lparr> cb_auxiliaryBlockHeaderHash := Some ?v \<rparr>)"
        using None returns by (simp add: getAuxiliaryBlockHeaderHash_def Let_def)
      with block_cache_ok_fill(3) [OF returns(3) v] v get returns(4) show ?thesis by auto
    qed
  qed
qed

interpretation block_index_memo: memo getBlockIndex "block_cache_ok f g h" cb_block block_index_spec for f g h
proof
  fix c r c' assume ok: "block_cache_ok f g h c" and get: "getBlockIndex c = (r, c')"
  have "block_index_spec b = Inr (if length (inputs (baseTransaction b)) \<noteq> 1 then 0
      else case inputs (baseTransaction b) ! 0 of BaseInput i \<Rightarrow> i | KeyInput _ _ _ \<Rightarrow> 0)" for b
    by (auto simp: block_index_spec_def length_Suc_conv split: list.splits TransactionInput.splits)
  with ok get show "r = block_index_spec (cb_block c) \<and> block_cache_ok f g h c' \<and> cb_block c' = cb_block c"
    by (cases "cb_blockIndex c") (auto simp: getBlockIndex_def block_cache_ok_def Let_def)
qed

text \<open>The last step of \<open>getBlockLongHash\<close>, after the getter of the bytes to hash.\<close>

definition finish_long_hash ::
  "(bytes \<Rightarrow> hash) \<Rightarrow> (cache_error + bytes) \<times> CachedBlock \<Rightarrow> (cache_error + hash) \<times> CachedBlock" where
  "finish_long_hash pow r = (case r of (Inl e, c) \<Rightarrow> (Inl e, c)
     | (Inr raw, c) \<Rightarrow> (Inr (pow raw), c \<lparr> cb_blockLongHash := Some (pow raw) \<rparr>))"

lemma finish_long_hash_memo:
  assumes "memo get (block_cache_ok f g h) cb_block spec" "block_cache_ok f g h c"
    and "long_hash_spec f g h (cb_block c) = bindE (spec (cb_block c)) (\<lambda>r. Inr (pow r))"
    and "finish_long_hash pow (get c) = (r, c')"
  shows "r = long_hash_spec f g h (cb_block c) \<and> block_cache_ok f g h c' \<and> cb_block c' = cb_block c"
proof (cases rule: memo.get_cases [OF assms(1,2), case_names fails returns])
  case 1: (fails e c1)
  then have "finish_long_hash pow (get c) = (Inl e, c1)" "long_hash_spec f g h (cb_block c) = Inl e"
    using assms(3) by (simp_all add: finish_long_hash_def)
  then show ?thesis using assms(4) 1(3,4) by simp
next
  case 2: (returns v c1)
  then have v: "long_hash_spec f g h (cb_block c1) = Inr (pow v)" using assms(3) by simp
  have "finish_long_hash pow (get c) = (Inr (pow v), c1 \<lparr> cb_blockLongHash := Some (pow v) \<rparr>)"
    using 2 by (simp add: finish_long_hash_def)
  with block_cache_ok_fill(2) [OF 2(3) v] v assms(4) 2(4) show ?thesis by auto
qed

interpretation long_hash_memo:
  memo "getBlockLongHash f g h" "block_cache_ok f g h" cb_block "long_hash_spec f g h" for f g h
proof
  fix c r c' assume ok: "block_cache_ok f g h c" and get: "getBlockLongHash f g h c = (r, c')"
  show "r = long_hash_spec f g h (cb_block c) \<and> block_cache_ok f g h c' \<and> cb_block c' = cb_block c"
  proof (cases "cb_blockLongHash c")
    case (Some v)
    then show ?thesis using block_cache_okD [OF ok] get ok by (auto simp: getBlockLongHash_def)
  next
    case None
    let ?v = "majorVersion (cb_block c)"
    have unf: "getBlockLongHash f g h c =
        (if ?v = BLOCK_MAJOR_VERSION_1 then finish_long_hash f (getBlockHashingBinaryArray c)
         else if ?v = BLOCK_MAJOR_VERSION_2 \<or> ?v = BLOCK_MAJOR_VERSION_3
         then finish_long_hash f (getParentBlockHashingBinaryArray True c)
         else if ?v = BLOCK_MAJOR_VERSION_4 then finish_long_hash g (getParentBlockHashingBinaryArray True c)
         else if ?v \<ge> BLOCK_MAJOR_VERSION_5 then finish_long_hash h (getParentBlockHashingBinaryArray True c)
         else (Inl UnknownBlockMajorVersion, c))"
      using None by (simp add: getBlockLongHash_def finish_long_hash_def [abs_def] Let_def)
    note block_fin = finish_long_hash_memo [OF hashing_memo.memo_axioms ok]
      and parent_fin = finish_long_hash_memo [OF parent_hashing_memo.memo_axioms ok]
    note spec = long_hash_spec_def [of f g h "cb_block c", unfolded Let_def]
    consider (1) "?v = BLOCK_MAJOR_VERSION_1"
      | (2) "?v \<noteq> BLOCK_MAJOR_VERSION_1" "?v = BLOCK_MAJOR_VERSION_2 \<or> ?v = BLOCK_MAJOR_VERSION_3"
      | (4) "?v \<noteq> BLOCK_MAJOR_VERSION_1" "\<not> (?v = BLOCK_MAJOR_VERSION_2 \<or> ?v = BLOCK_MAJOR_VERSION_3)"
          "?v = BLOCK_MAJOR_VERSION_4"
      | (5) "?v \<noteq> BLOCK_MAJOR_VERSION_1" "\<not> (?v = BLOCK_MAJOR_VERSION_2 \<or> ?v = BLOCK_MAJOR_VERSION_3)"
          "?v \<noteq> BLOCK_MAJOR_VERSION_4" by blast
    then show ?thesis
    proof cases
      case 1
      then show ?thesis using get by (intro block_fin [where pow = f]) (simp_all add: spec unf)
    next
      case 2
      then show ?thesis using get
        by (intro parent_fin [where pow = f and ho1 = True]) (simp_all add: spec unf)
    next
      case 4
      then show ?thesis using get
        by (intro parent_fin [where pow = g and ho1 = True]) (simp_all add: spec unf)
    next
      case 5
      show ?thesis
      proof (cases "?v \<ge> BLOCK_MAJOR_VERSION_5")
        case True
        then show ?thesis using get 5
          by (intro parent_fin [where pow = h and ho1 = True]) (simp_all add: spec unf)
      next
        case False
        then have "long_hash_spec f g h (cb_block c) = Inl UnknownBlockMajorVersion" using 5 by (simp add: spec)
        then show ?thesis using False get 5 ok by (auto simp: unf)
      qed
    qed
  qed
qed

lemma block_cache_ok_init: "block_cache_ok f g h (CachedBlock_init b)"
  by (simp add: block_cache_ok_def CachedBlock_init_def)

subsection \<open>Transactions\<close>

definition tx_blob_spec :: "Transaction \<Rightarrow> cache_error + bytes" where
  "tx_blob_spec t = (case write_Transaction t of Inl e \<Rightarrow> Inl (SerializationFailure e) | Inr v \<Rightarrow> Inr v)"

definition tx_hash_spec :: "Transaction \<Rightarrow> cache_error + hash" where
  "tx_hash_spec t = bindE (tx_blob_spec t) (\<lambda>ba. Inr (cn_fast_hash ba))"

definition tx_prefix_hash_spec :: "Transaction \<Rightarrow> cache_error + hash" where
  "tx_prefix_hash_spec t = Inr (cn_fast_hash (write_TransactionPrefix t))"

definition tx_fee_spec :: "Transaction \<Rightarrow> cache_error + u64" where
  "tx_fee_spec t = Inr (case fee_inputs 0 (inputs t) of None \<Rightarrow> 0
     | Some s \<Rightarrow> s - foldl (\<lambda>s out. s + out_amount out) 0 (outputs t))"

definition tx_cache_ok :: "CachedTransaction \<Rightarrow> bool" where
  "tx_cache_ok c \<longleftrightarrow>
     (let t = ct_transaction c in
      cache_ok (ct_transactionBinaryArray c) (tx_blob_spec t) \<and> cache_ok (ct_transactionHash c) (tx_hash_spec t) \<and>
      cache_ok (ct_transactionPrefixHash c) (tx_prefix_hash_spec t) \<and>
      cache_ok (ct_transactionFee c) (tx_fee_spec t))"

interpretation tx_blob_memo: memo getTransactionBinaryArray tx_cache_ok ct_transaction tx_blob_spec
  by unfold_locales
    (auto simp: getTransactionBinaryArray_def tx_cache_ok_def tx_blob_spec_def Let_def
      split: option.splits sum.splits)

interpretation tx_hash_memo: memo getTransactionHash tx_cache_ok ct_transaction tx_hash_spec
proof
  fix c r c' assume ok: "tx_cache_ok c" and get: "getTransactionHash c = (r, c')"
  show "r = tx_hash_spec (ct_transaction c) \<and> tx_cache_ok c' \<and> ct_transaction c' = ct_transaction c"
  proof (cases "ct_transactionHash c")
    case (Some v)
    then show ?thesis using ok get by (auto simp: getTransactionHash_def tx_cache_ok_def Let_def)
  next
    case None
    from ok show ?thesis
    proof (cases rule: tx_blob_memo.get_cases)
      case (fails e c1)
      then have "getTransactionHash c = (Inl e, c1)" "tx_hash_spec (ct_transaction c) = Inl e"
        using None by (simp_all add: getTransactionHash_def tx_hash_spec_def)
      then show ?thesis using get fails(3,4) by simp
    next
      case (returns ba c1)
      let ?v = "cn_fast_hash ba"
      have v: "tx_hash_spec (ct_transaction c1) = Inr ?v" using returns by (simp add: tx_hash_spec_def)
      have "getTransactionHash c = (Inr ?v, c1 \<lparr> ct_transactionHash := Some ?v \<rparr>)"
        using None returns by (simp add: getTransactionHash_def getBinaryArrayHash_def Let_def)
      moreover have "tx_cache_ok (c1 \<lparr> ct_transactionHash := Some ?v \<rparr>)"
        using v returns(3) by (simp add: tx_cache_ok_def Let_def)
      ultimately show ?thesis using v get returns(4) by auto
    qed
  qed
qed

interpretation tx_prefix_memo: memo getTransactionPrefixHash tx_cache_ok ct_transaction tx_prefix_hash_spec
  by unfold_locales
    (auto simp: getTransactionPrefixHash_def tx_cache_ok_def tx_prefix_hash_spec_def getObjectHash_def
      toBinaryArray_def getBinaryArrayHash_def Let_def split: option.splits)

interpretation tx_fee_memo: memo getTransactionFee tx_cache_ok ct_transaction tx_fee_spec
  by unfold_locales
    (auto simp: getTransactionFee_def tx_cache_ok_def tx_fee_spec_def Let_def split: option.splits)

lemma tx_cache_ok_init: "tx_cache_ok (CachedTransaction_init t)"
  by (simp add: tx_cache_ok_def CachedTransaction_init_def)

text \<open>The constructor from a blob stores the blob itself: it is what the transaction serializes to,
  because blobs are canonical.\<close>

lemma tx_cache_ok_of_blob:
  assumes "CachedTransaction_of_blob ba = Inr c"
  shows "tx_cache_ok c \<and> write_Transaction (ct_transaction c) = Inr ba"
proof -
  obtain t where t: "fromBinaryArray read_Transaction ba = Inr t"
    and c: "c = CachedTransaction_init t \<lparr> ct_transactionBinaryArray := Some ba \<rparr>"
    using assms by (auto simp: CachedTransaction_of_blob_def split: sum.splits)
  have "write_Transaction t = Inr ba"
    using t transaction_codec.fromBinaryArray_iff [of ba t] write_Transaction_wf [of t] by simp
  then show ?thesis by (simp add: c tx_cache_ok_def CachedTransaction_init_def tx_blob_spec_def)
qed

section \<open>Sequences of calls\<close>

text \<open>The objects that calls of the getters lead to from an object without caches.\<close>

inductive block_calls ::
  "(bytes \<Rightarrow> hash) \<Rightarrow> (bytes \<Rightarrow> hash) \<Rightarrow> (bytes \<Rightarrow> hash) \<Rightarrow> BlockTemplate \<Rightarrow> CachedBlock \<Rightarrow> bool"
  for f g h b where
  "block_calls f g h b (CachedBlock_init b)"
| "block_calls f g h b c \<Longrightarrow> block_calls f g h b (snd (getTransactionTreeHash c))"
| "block_calls f g h b c \<Longrightarrow> block_calls f g h b (snd (getBlockHashingBinaryArray c))"
| "block_calls f g h b c \<Longrightarrow> block_calls f g h b (snd (getParentBlockBinaryArray ho c))"
| "block_calls f g h b c \<Longrightarrow> block_calls f g h b (snd (getParentBlockHashingBinaryArray ho c))"
| "block_calls f g h b c \<Longrightarrow> block_calls f g h b (snd (getBlockHash c))"
| "block_calls f g h b c \<Longrightarrow> block_calls f g h b (snd (getBlockLongHash f g h c))"
| "block_calls f g h b c \<Longrightarrow> block_calls f g h b (snd (getAuxiliaryBlockHeaderHash c))"
| "block_calls f g h b c \<Longrightarrow> block_calls f g h b (snd (getBlockIndex c))"

lemma block_calls_ok: "block_calls f g h b c \<Longrightarrow> block_cache_ok f g h c \<and> cb_block c = b"
proof (induction rule: block_calls.induct)
  case 1
  then show ?case by (simp add: block_cache_ok_init) (simp add: CachedBlock_init_def)
next
  case (2 c)
  then show ?case using tree_memo.get_keeps by metis
next
  case (3 c)
  then show ?case using hashing_memo.get_keeps by metis
next
  case (4 c ho)
  then show ?case using parent_memo.get_keeps by metis
next
  case (5 c ho)
  then show ?case using parent_hashing_memo.get_keeps by metis
next
  case (6 c)
  then show ?case using block_hash_memo.get_keeps by metis
next
  case (7 c)
  then show ?case using long_hash_memo.get_keeps by metis
next
  case (8 c)
  then show ?case using aux_hash_memo.get_keeps by metis
next
  case (9 c)
  then show ?case using block_index_memo.get_keeps by metis
qed

section \<open>Properties\<close>

text \<open>C14. The getters of a cached block return what they compute from the block itself, after every
  sequence of calls of getters, calls that failed included: the caches never change a result.\<close>

theorem cached_block_transparent:
  assumes "block_calls f g h b c"
  shows "fst (getTransactionTreeHash c) = Inr (tree_hash_spec b)
    \<and> fst (getBlockHashingBinaryArray c) = hashing_spec b
    \<and> fst (getParentBlockBinaryArray ho c) = parent_plain_spec ho b
    \<and> fst (getParentBlockHashingBinaryArray ho c) = parent_hashing_spec ho b
    \<and> fst (getBlockHash c) = block_hash_spec b
    \<and> fst (getBlockLongHash f g h c) = long_hash_spec f g h b
    \<and> fst (getAuxiliaryBlockHeaderHash c) = aux_hash_spec b
    \<and> fst (getBlockIndex c) = block_index_spec b"
proof -
  have ok: "block_cache_ok f g h c" and b: "cb_block c = b" using block_calls_ok [OF assms] by simp_all
  show ?thesis
    using tree_memo.get_spec [OF ok] hashing_memo.get_spec [OF ok] parent_memo.get_spec [OF ok, of ho]
      parent_hashing_memo.get_spec [OF ok, of ho] block_hash_memo.get_spec [OF ok]
      long_hash_memo.get_spec [OF ok] aux_hash_memo.get_spec [OF ok] block_index_memo.get_spec [OF ok]
    unfolding b by simp
qed

theorem cached_block_transparent_witness:
  "fst (getBlockIndex (snd (getBlockIndex (CachedBlock_init sample_block)))) = block_index_spec sample_block"
proof -
  have "block_calls id id id sample_block (snd (getBlockIndex (CachedBlock_init sample_block)))"
    by (intro block_calls.intros)
  from cached_block_transparent [OF this] show ?thesis by blast
qed

text \<open>A transaction that was read from a blob has the hash of that blob, whatever getter is asked
  first: the cached blob, the serialization of the parsed transaction and the hash agree.\<close>

lemma cached_transaction_hash:
  assumes "CachedTransaction_of_blob ba = Inr c"
  shows "fst (getTransactionHash c) = Inr (cn_fast_hash ba)
    \<and> fst (getTransactionBinaryArray (snd (getTransactionHash c))) = Inr ba
    \<and> fst (getTransactionHash (CachedTransaction_init (ct_transaction c))) = Inr (cn_fast_hash ba)"
proof -
  have ok: "tx_cache_ok c" and w: "write_Transaction (ct_transaction c) = Inr ba"
    using tx_cache_ok_of_blob [OF assms] by simp_all
  have s: "tx_blob_spec (ct_transaction c) = Inr ba" "tx_hash_spec (ct_transaction c) = Inr (cn_fast_hash ba)"
    using w by (simp_all add: tx_blob_spec_def tx_hash_spec_def)
  have i: "ct_transaction (CachedTransaction_init t) = t" for t by (simp add: CachedTransaction_init_def)
  show ?thesis
    using tx_hash_memo.get_spec [OF ok] tx_blob_memo.get_spec [of "snd (getTransactionHash c)"]
      tx_hash_memo.get_keeps [OF ok] tx_hash_memo.get_spec [OF tx_cache_ok_init, of "ct_transaction c"] s i
    by simp
qed

end
