(* ===== verification/Config.thy ===== *)
theory Config
  imports TxSerialization
begin

text \<open>The parameters of the currency, \<open>src/src/config/cryptonote_config.h\<close>, at the width of their types. An
  expression of the source is kept as an expression, in the arithmetic of the word type.\<close>

definition DIFFICULTY_TARGET :: u64 where
  "DIFFICULTY_TARGET = 90"

definition CRYPTONOTE_MAX_BLOCK_NUMBER :: u32 where
  "CRYPTONOTE_MAX_BLOCK_NUMBER = 500000000"

definition CRYPTONOTE_MAX_BLOCK_BLOB_SIZE :: u64 where
  "CRYPTONOTE_MAX_BLOCK_BLOB_SIZE = 500000000"

definition CRYPTONOTE_MAX_TX_SIZE :: u64 where
  "CRYPTONOTE_MAX_TX_SIZE = 1000000000"

definition CRYPTONOTE_PUBLIC_ADDRESS_BASE58_PREFIX :: u64 where
  "CRYPTONOTE_PUBLIC_ADDRESS_BASE58_PREFIX = 2239254"

definition CRYPTONOTE_MINED_MONEY_UNLOCK_WINDOW :: u32 where
  "CRYPTONOTE_MINED_MONEY_UNLOCK_WINDOW = 20"

definition CRYPTONOTE_BLOCK_FUTURE_TIME_LIMIT :: u64 where
  "CRYPTONOTE_BLOCK_FUTURE_TIME_LIMIT = 60 * 60 * 2"

definition CRYPTONOTE_BLOCK_FUTURE_TIME_LIMIT_V3 :: u64 where
  "CRYPTONOTE_BLOCK_FUTURE_TIME_LIMIT_V3 = 3 * DIFFICULTY_TARGET"

definition CRYPTONOTE_BLOCK_FUTURE_TIME_LIMIT_V4 :: u64 where
  "CRYPTONOTE_BLOCK_FUTURE_TIME_LIMIT_V4 = 6 * DIFFICULTY_TARGET"

definition BLOCKCHAIN_TIMESTAMP_CHECK_WINDOW :: u64 where
  "BLOCKCHAIN_TIMESTAMP_CHECK_WINDOW = 60"

definition BLOCKCHAIN_TIMESTAMP_CHECK_WINDOW_V3 :: u64 where
  "BLOCKCHAIN_TIMESTAMP_CHECK_WINDOW_V3 = 11"

definition MONEY_SUPPLY :: u64 where
  "MONEY_SUPPLY = 100000000000000"

definition ZAWY_DIFFICULTY_BLOCK_INDEX :: u32 where
  "ZAWY_DIFFICULTY_BLOCK_INDEX = 187000"

definition ZAWY_DIFFICULTY_V2 :: u64 where
  "ZAWY_DIFFICULTY_V2 = 0"

definition ZAWY_DIFFICULTY_DIFFICULTY_BLOCK_VERSION :: byte where
  "ZAWY_DIFFICULTY_DIFFICULTY_BLOCK_VERSION = 3"

definition LWMA_2_DIFFICULTY_BLOCK_INDEX :: u64 where
  "LWMA_2_DIFFICULTY_BLOCK_INDEX = 620000"

definition LWMA_2_DIFFICULTY_BLOCK_INDEX_V2 :: u64 where
  "LWMA_2_DIFFICULTY_BLOCK_INDEX_V2 = 700000"

definition LWMA_2_DIFFICULTY_BLOCK_INDEX_V3 :: u64 where
  "LWMA_2_DIFFICULTY_BLOCK_INDEX_V3 = 800000"

definition LWMA_3_DIFFICULTY_BLOCK_INDEX :: u64 where
  "LWMA_3_DIFFICULTY_BLOCK_INDEX = 2200000"

definition EMISSION_SPEED_FACTOR :: u32 where
  "EMISSION_SPEED_FACTOR = 21"

definition GENESIS_BLOCK_REWARD :: u64 where
  "GENESIS_BLOCK_REWARD = 0"

definition GENESIS_BLOCK_TIMESTAMP :: u64 where
  "GENESIS_BLOCK_TIMESTAMP = 1512800692"

definition CRYPTONOTE_REWARD_BLOCKS_WINDOW :: u64 where
  "CRYPTONOTE_REWARD_BLOCKS_WINDOW = 100"

definition CRYPTONOTE_BLOCK_GRANTED_FULL_REWARD_ZONE :: u64 where
  "CRYPTONOTE_BLOCK_GRANTED_FULL_REWARD_ZONE = 100000"

definition CRYPTONOTE_BLOCK_GRANTED_FULL_REWARD_ZONE_V2 :: u64 where
  "CRYPTONOTE_BLOCK_GRANTED_FULL_REWARD_ZONE_V2 = 20000"

definition CRYPTONOTE_BLOCK_GRANTED_FULL_REWARD_ZONE_V1 :: u64 where
  "CRYPTONOTE_BLOCK_GRANTED_FULL_REWARD_ZONE_V1 = 10000"

definition CRYPTONOTE_BLOCK_GRANTED_FULL_REWARD_ZONE_CURRENT :: u64 where
  "CRYPTONOTE_BLOCK_GRANTED_FULL_REWARD_ZONE_CURRENT = CRYPTONOTE_BLOCK_GRANTED_FULL_REWARD_ZONE"

definition CRYPTONOTE_COINBASE_BLOB_RESERVED_SIZE :: u64 where
  "CRYPTONOTE_COINBASE_BLOB_RESERVED_SIZE = 600"

definition CRYPTONOTE_DISPLAY_DECIMAL_POINT :: u64 where
  "CRYPTONOTE_DISPLAY_DECIMAL_POINT = 5"

definition MINIMUM_FEE :: u64 where
  "MINIMUM_FEE = 10"

definition MINIMUM_MIXIN_V1 :: u64 where
  "MINIMUM_MIXIN_V1 = 0"

definition MAXIMUM_MIXIN_V1 :: u64 where
  "MAXIMUM_MIXIN_V1 = 100"

definition MINIMUM_MIXIN_V2 :: u64 where
  "MINIMUM_MIXIN_V2 = 7"

definition MAXIMUM_MIXIN_V2 :: u64 where
  "MAXIMUM_MIXIN_V2 = 7"

definition MINIMUM_MIXIN_V3 :: u64 where
  "MINIMUM_MIXIN_V3 = 3"

definition MAXIMUM_MIXIN_V3 :: u64 where
  "MAXIMUM_MIXIN_V3 = 3"

definition MINIMUM_MIXIN_V4 :: u64 where
  "MINIMUM_MIXIN_V4 = 1"

definition MAXIMUM_MIXIN_V4 :: u64 where
  "MAXIMUM_MIXIN_V4 = 5"

definition MIXIN_LIMITS_V1_HEIGHT :: u32 where
  "MIXIN_LIMITS_V1_HEIGHT = 440000"

definition MIXIN_LIMITS_V2_HEIGHT :: u32 where
  "MIXIN_LIMITS_V2_HEIGHT = 620000"

definition MIXIN_LIMITS_V3_HEIGHT :: u32 where
  "MIXIN_LIMITS_V3_HEIGHT = 800000"

definition MIXIN_LIMITS_V4_HEIGHT :: u32 where
  "MIXIN_LIMITS_V4_HEIGHT = 1250000"

definition DEFAULT_MIXIN_V0 :: u64 where
  "DEFAULT_MIXIN_V0 = 3"

definition DEFAULT_MIXIN_V1 :: u64 where
  "DEFAULT_MIXIN_V1 = MAXIMUM_MIXIN_V1"

definition DEFAULT_MIXIN_V2 :: u64 where
  "DEFAULT_MIXIN_V2 = MAXIMUM_MIXIN_V2"

definition DEFAULT_MIXIN_V3 :: u64 where
  "DEFAULT_MIXIN_V3 = MAXIMUM_MIXIN_V3"

definition DEFAULT_MIXIN_V4 :: u64 where
  "DEFAULT_MIXIN_V4 = MAXIMUM_MIXIN_V4"

definition DEFAULT_DUST_THRESHOLD :: u64 where
  "DEFAULT_DUST_THRESHOLD = 10"

definition DEFAULT_DUST_THRESHOLD_V2 :: u64 where
  "DEFAULT_DUST_THRESHOLD_V2 = 0"

definition DUST_THRESHOLD_V2_HEIGHT :: u32 where
  "DUST_THRESHOLD_V2_HEIGHT = MIXIN_LIMITS_V2_HEIGHT"

definition FUSION_DUST_THRESHOLD_HEIGHT_V2 :: u32 where
  "FUSION_DUST_THRESHOLD_HEIGHT_V2 = 800000"

definition EXPECTED_NUMBER_OF_BLOCKS_PER_DAY :: u64 where
  "EXPECTED_NUMBER_OF_BLOCKS_PER_DAY = 24 * 60 * 60 div DIFFICULTY_TARGET"

definition DIFFICULTY_WINDOW :: u64 where
  "DIFFICULTY_WINDOW = 17"

definition DIFFICULTY_WINDOW_V1 :: u64 where
  "DIFFICULTY_WINDOW_V1 = 2880"

definition DIFFICULTY_WINDOW_V2 :: u64 where
  "DIFFICULTY_WINDOW_V2 = 2880"

definition DIFFICULTY_WINDOW_V3 :: u64 where
  "DIFFICULTY_WINDOW_V3 = 60"

definition DIFFICULTY_BLOCKS_COUNT_V3 :: u64 where
  "DIFFICULTY_BLOCKS_COUNT_V3 = DIFFICULTY_WINDOW_V3 + 1"

definition DIFFICULTY_CUT :: u64 where
  "DIFFICULTY_CUT = 0"

definition DIFFICULTY_CUT_V1 :: u64 where
  "DIFFICULTY_CUT_V1 = 60"

definition DIFFICULTY_CUT_V2 :: u64 where
  "DIFFICULTY_CUT_V2 = 60"

definition DIFFICULTY_LAG :: u64 where
  "DIFFICULTY_LAG = 0"

definition DIFFICULTY_LAG_V1 :: u64 where
  "DIFFICULTY_LAG_V1 = 15"

definition DIFFICULTY_LAG_V2 :: u64 where
  "DIFFICULTY_LAG_V2 = 15"

definition MAX_BLOCK_SIZE_INITIAL :: u64 where
  "MAX_BLOCK_SIZE_INITIAL = 100000"

definition MAX_BLOCK_SIZE_GROWTH_SPEED_NUMERATOR :: u64 where
  "MAX_BLOCK_SIZE_GROWTH_SPEED_NUMERATOR = 100 * 1024"

definition MAX_BLOCK_SIZE_GROWTH_SPEED_DENOMINATOR :: u64 where
  "MAX_BLOCK_SIZE_GROWTH_SPEED_DENOMINATOR = 365 * 24 * 60 * 60 div DIFFICULTY_TARGET"

definition MAX_EXTRA_SIZE_V2 :: u64 where
  "MAX_EXTRA_SIZE_V2 = 1024"

definition MAX_EXTRA_SIZE_V2_HEIGHT :: u64 where
  "MAX_EXTRA_SIZE_V2_HEIGHT = 1300000"

definition MAX_EXTRA_SIZE_POOL :: u64 where
  "MAX_EXTRA_SIZE_POOL = 2200"

definition MAX_EXTRA_SIZE_BLOCK :: u64 where
  "MAX_EXTRA_SIZE_BLOCK = 128"

definition BLOCK_BLOB_SHUFFLE_CHECK_HEIGHT :: u64 where
  "BLOCK_BLOB_SHUFFLE_CHECK_HEIGHT = 1750000"

definition TRANSACTION_SIGNATURE_COUNT_VALIDATION_HEIGHT :: u64 where
  "TRANSACTION_SIGNATURE_COUNT_VALIDATION_HEIGHT = 1750000"

definition CRYPTONOTE_LOCKED_TX_ALLOWED_DELTA_BLOCKS :: u64 where
  "CRYPTONOTE_LOCKED_TX_ALLOWED_DELTA_BLOCKS = 1"

definition CRYPTONOTE_LOCKED_TX_ALLOWED_DELTA_SECONDS :: u64 where
  "CRYPTONOTE_LOCKED_TX_ALLOWED_DELTA_SECONDS = DIFFICULTY_TARGET * CRYPTONOTE_LOCKED_TX_ALLOWED_DELTA_BLOCKS"

definition CRYPTONOTE_MEMPOOL_TX_LIVETIME :: u64 where
  "CRYPTONOTE_MEMPOOL_TX_LIVETIME = 60 * 60 * 24"

definition CRYPTONOTE_MEMPOOL_TX_FROM_ALT_BLOCK_LIVETIME :: u64 where
  "CRYPTONOTE_MEMPOOL_TX_FROM_ALT_BLOCK_LIVETIME = 60 * 10"

definition CRYPTONOTE_NUMBER_OF_PERIODS_TO_FORGET_TX_DELETED_FROM_POOL :: u64 where
  "CRYPTONOTE_NUMBER_OF_PERIODS_TO_FORGET_TX_DELETED_FROM_POOL = 7"

definition FUSION_TX_MAX_SIZE :: u64 where
  "FUSION_TX_MAX_SIZE = CRYPTONOTE_BLOCK_GRANTED_FULL_REWARD_ZONE_CURRENT * 30 div 100"

definition FUSION_TX_MIN_INPUT_COUNT :: u64 where
  "FUSION_TX_MIN_INPUT_COUNT = 12"

definition FUSION_TX_MIN_IN_OUT_COUNT_RATIO :: u64 where
  "FUSION_TX_MIN_IN_OUT_COUNT_RATIO = 4"

definition UPGRADE_HEIGHT_V2 :: u32 where
  "UPGRADE_HEIGHT_V2 = 1"

definition UPGRADE_HEIGHT_V3 :: u32 where
  "UPGRADE_HEIGHT_V3 = 2"

definition UPGRADE_HEIGHT_V4 :: u32 where
  "UPGRADE_HEIGHT_V4 = 3"

definition UPGRADE_HEIGHT_V5 :: u32 where
  "UPGRADE_HEIGHT_V5 = 4"

definition UPGRADE_HEIGHT_CURRENT :: u32 where
  "UPGRADE_HEIGHT_CURRENT = UPGRADE_HEIGHT_V5"

definition UPGRADE_VOTING_THRESHOLD :: u32 where
  "UPGRADE_VOTING_THRESHOLD = 90"

definition UPGRADE_VOTING_WINDOW :: u32 where
  "UPGRADE_VOTING_WINDOW = ucast EXPECTED_NUMBER_OF_BLOCKS_PER_DAY"

definition UPGRADE_WINDOW :: u32 where
  "UPGRADE_WINDOW = ucast EXPECTED_NUMBER_OF_BLOCKS_PER_DAY"

definition FORK_HEIGHTS :: "u64 list" where
  "FORK_HEIGHTS = [187000, 350000, 440000, 620000, 700000, 800000, 1000000, 1200000, 1300000, 1400000, 1600000, 1800000, 2200000]"

definition SOFTWARE_SUPPORTED_FORK_INDEX :: u64 where
  "SOFTWARE_SUPPORTED_FORK_INDEX = 12"

definition FORK_HEIGHTS_SIZE :: u64 where
  "FORK_HEIGHTS_SIZE = of_nat (length FORK_HEIGHTS)"

definition CURRENT_FORK_INDEX :: byte where
  "CURRENT_FORK_INDEX = (if FORK_HEIGHTS_SIZE = 0 then 0 else ucast SOFTWARE_SUPPORTED_FORK_INDEX)"

definition GENESIS_COINBASE_TX_HEX :: bytes where
  "GENESIS_COINBASE_TX_HEX = bytes_of
     ''010a01ff000188f3b501029b2e4c0281c0b02e7c53291a94d1d0cbff8883f8024f5142ee494ffbbd088071210142694232c5b04151d9e4c27d31ec7a68ea568b19488cfcb422659a07a0e44dd5''"

definition CRYPTONOTE_BLOCKS_FILENAME :: bytes where
  "CRYPTONOTE_BLOCKS_FILENAME = bytes_of ''blocks.bin''"

definition CRYPTONOTE_BLOCKINDEXES_FILENAME :: bytes where
  "CRYPTONOTE_BLOCKINDEXES_FILENAME = bytes_of ''blockindexes.bin''"

definition CRYPTONOTE_POOLDATA_FILENAME :: bytes where
  "CRYPTONOTE_POOLDATA_FILENAME = bytes_of ''poolstate.bin''"

end
