(* ===== verification/FormatUtils.thy ===== *)
theory FormatUtils
  imports Base58 IntUtil StringTools Config
begin

text \<open>Helper functions on transactions and amounts: \<open>src/src/cryptonote_core/cryptonote_format_utils.cpp\<close>
  and \<open>.h\<close>, the amounts of \<open>cryptonote_tools.cpp\<close>, the penalty and the textual address of
  \<open>cryptonote_basic_impl.cpp\<close>, and the ring-size rules of \<open>mixins.h\<close>. Sums of amounts wrap at 64
  bits as in the source. The operations on curve points (\<open>check_key\<close>, key derivation, key images)
  are arguments.

  The theory shows that the overflow checks are exact, that the decomposition of an amount is a
  decomposition, that output offsets convert both ways, that the penalty is the rounded-down
  value of its formula within the asserted bounds, and that textual addresses of accounts are
  read back and are canonical.\<close>

section \<open>Definitions\<close>

subsection \<open>Amounts of transactions\<close>

text \<open>\<open>boost::get<KeyInput>(in).amount\<close>, for the inputs of that type.\<close>

definition key_amounts :: "TransactionInput list \<Rightarrow> u64 list" where
  "key_amounts ins = map input_amount (filter (\<lambda>inp. \<not> is_BaseInput inp) ins)"

definition getInputAmount :: "Transaction \<Rightarrow> u64" where
  "getInputAmount tx = foldl (+) 0 (key_amounts (inputs tx))"

definition getInputsAmounts :: "Transaction \<Rightarrow> u64 list" where
  "getInputsAmounts tx = key_amounts (inputs tx)"

definition getOutputAmount :: "Transaction \<Rightarrow> u64" where
  "getOutputAmount tx = foldl (+) 0 (map out_amount (outputs tx))"

definition get_tx_fee :: "Transaction \<Rightarrow> u64 option" where
  "get_tx_fee tx =
     (let amount_in = foldl (+) 0 (key_amounts (inputs tx));
          amount_out = foldl (+) 0 (map out_amount (outputs tx))
      in if \<not> amount_in \<ge> amount_out then None else Some (amount_in - amount_out))"

definition get_tx_fee_or_zero :: "Transaction \<Rightarrow> u64" where
  "get_tx_fee_or_zero tx = (case get_tx_fee tx of None \<Rightarrow> 0 | Some r \<Rightarrow> r)"

text \<open>The loop of the overflow checks.\<close>

fun no_overflow :: "u64 \<Rightarrow> u64 list \<Rightarrow> bool" where
  "no_overflow money [] = True"
| "no_overflow money (amount # amounts) =
     (if money > amount + money then False else no_overflow (money + amount) amounts)"

definition checkInputsOverflow :: "'a TransactionPrefix_scheme \<Rightarrow> bool" where
  "checkInputsOverflow tx =
     no_overflow 0 (map (\<lambda>inp. case inp of KeyInput a _ _ \<Rightarrow> a | BaseInput _ \<Rightarrow> 0) (inputs tx))"

definition checkOutsOverflow :: "'a TransactionPrefix_scheme \<Rightarrow> bool" where
  "checkOutsOverflow tx = no_overflow 0 (map out_amount (outputs tx))"

definition checkInputTypesSupported :: "'a TransactionPrefix_scheme \<Rightarrow> bool" where
  "checkInputTypesSupported tx = list_all (\<lambda>inp. \<not> is_BaseInput inp) (inputs tx)"

text \<open>The message of the check; the variant of targets has one type, so the last branch of the source
  is not reached.\<close>

datatype outs_error = ZeroAmountOutput | OutputWithInvalidKey

fun check_outs :: "(public_key \<Rightarrow> bool) \<Rightarrow> TransactionOutput list \<Rightarrow> outs_error + unit" where
  "check_outs check_key [] = Inr ()"
| "check_outs check_key (out # outs) =
     (if out_amount out = 0 then Inl ZeroAmountOutput
      else if \<not> check_key (target_key (out_target out)) then Inl OutputWithInvalidKey
      else check_outs check_key outs)"

definition checkOutsValid :: "(public_key \<Rightarrow> bool) \<Rightarrow> 'a TransactionPrefix_scheme \<Rightarrow> outs_error + unit" where
  "checkOutsValid check_key tx = check_outs check_key (outputs tx)"

subsection \<open>Output offsets\<close>

fun offsets_to_absolute :: "u32 \<Rightarrow> u32 list \<Rightarrow> u32 list" where
  "offsets_to_absolute prev [] = []"
| "offsets_to_absolute prev (o' # off) = (o' + prev) # offsets_to_absolute (o' + prev) off"

text \<open>\<open>res[i] += res[i - 1]\<close> for \<open>i\<close> from one: the first offset stays.\<close>

definition relativeOutputOffsetsToAbsolute :: "u32 list \<Rightarrow> u32 list" where
  "relativeOutputOffsetsToAbsolute off =
     (case off of [] \<Rightarrow> [] | o' # off \<Rightarrow> o' # offsets_to_absolute o' off)"

definition absolute_output_offsets_to_relative :: "u32 list \<Rightarrow> u32 list" where
  "absolute_output_offsets_to_relative off =
     (if off = [] then []
      else map (\<lambda>i. if i = 0 then off ! 0 else off ! i - off ! (i - 1)) [0..<length off])"

subsection \<open>Decomposition of an amount\<close>

text \<open>The calls of the two handlers, in order.\<close>

datatype decomposition_call = Chunk u64 | Dust u64

function decompose_loop :: "u64 \<Rightarrow> u64 \<Rightarrow> bool \<Rightarrow> u64 \<Rightarrow> u64 \<Rightarrow> decomposition_call list" where
  "decompose_loop dust_threshold amount is_dust_handled dust order =
     (if amount \<noteq> 0 then
        let chunk = (amount mod 10) * order;
            amount = amount div 10;
            order = order * 10
        in if dust + chunk \<le> dust_threshold
           then decompose_loop dust_threshold amount is_dust_handled (dust + chunk) order
           else (if \<not> is_dust_handled \<and> dust \<noteq> 0 then [Dust dust] else []) @
                (if chunk \<noteq> 0 then [Chunk chunk] else []) @
                decompose_loop dust_threshold amount (is_dust_handled \<or> dust \<noteq> 0) dust order
      else if \<not> is_dust_handled \<and> dust \<noteq> 0 then [Dust dust] else [])"
  by pat_completeness auto
termination
  by (relation "measure (\<lambda>(_, amount, _). unat amount)") (auto simp: unat_div unat_gt_0)

declare decompose_loop.simps [simp del]

definition decompose_amount_into_digits :: "u64 \<Rightarrow> u64 \<Rightarrow> decomposition_call list" where
  "decompose_amount_into_digits amount dust_threshold =
     (if amount = 0 then [] else decompose_loop dust_threshold amount False 0 1)"

primrec call_amount :: "decomposition_call \<Rightarrow> u64" where
  "call_amount (Chunk a) = a"
| "call_amount (Dust a) = a"

definition decomposeAmount :: "u64 \<Rightarrow> u64 \<Rightarrow> u64 list \<Rightarrow> u64 list" where
  "decomposeAmount amount dustThreshold decomposedAmounts =
     decomposedAmounts @ map call_amount (decompose_amount_into_digits amount dustThreshold)"

subsection \<open>Keys of outputs\<close>

record key_operations =
  generate_key_derivation :: "public_key \<Rightarrow> secret_key \<Rightarrow> key_derivation option"
  derive_public_key :: "key_derivation \<Rightarrow> u64 \<Rightarrow> public_key \<Rightarrow> public_key option"
  derive_secret_key :: "key_derivation \<Rightarrow> u64 \<Rightarrow> secret_key \<Rightarrow> secret_key"
  generate_key_image :: "public_key \<Rightarrow> secret_key \<Rightarrow> key_image"

text \<open>The assertions of the source hold whenever the call returns a result.\<close>

definition generate_key_image_helper ::
  "key_operations \<Rightarrow> AccountKeys \<Rightarrow> public_key \<Rightarrow> u64 \<Rightarrow> (KeyPair \<times> key_image) option" where
  "generate_key_image_helper ops ack tx_public_key real_output_index =
     (case generate_key_derivation ops tx_public_key (viewSecretKey ack) of
        None \<Rightarrow> None
      | Some recv_derivation \<Rightarrow>
          (case derive_public_key ops recv_derivation real_output_index
                  (spendPublicKey (account_address ack)) of
             None \<Rightarrow> None
           | Some pk \<Rightarrow>
               let sk = derive_secret_key ops recv_derivation real_output_index (spendSecretKey ack)
               in Some (\<lparr> kp_publicKey = pk, kp_secretKey = sk \<rparr>, generate_key_image ops pk sk)))"

text \<open>A derivation that fails leaves the local key as it is, without a value the source defines: the
  argument \<open>pk0\<close>.\<close>

definition is_out_to_acc ::
  "key_operations \<Rightarrow> public_key \<Rightarrow> AccountKeys \<Rightarrow> TransactionOutputTarget \<Rightarrow> key_derivation \<Rightarrow> u64 \<Rightarrow> bool" where
  "is_out_to_acc ops pk0 acc out_key derivation keyIndex =
     (let pk = (case derive_public_key ops derivation keyIndex (spendPublicKey (account_address acc)) of
                  None \<Rightarrow> pk0 | Some pk \<Rightarrow> pk)
      in pk = target_key out_key)"

subsection \<open>Penalty and addresses\<close>

text \<open>The divisions trap for a median of zero; the assertions are the premises of the lemmas.\<close>

definition getPenalizedAmount :: "u64 \<Rightarrow> u64 \<Rightarrow> u64 \<Rightarrow> u64 option" where
  "getPenalizedAmount amount medianSize currentBlockSize =
     (if amount = 0 then Some 0
      else if currentBlockSize \<le> medianSize then Some amount
      else let (productLo, productHi) = mul128 amount (currentBlockSize * (2 * medianSize - currentBlockSize))
           in case div128_32 productHi productLo (ucast medianSize) of
                None \<Rightarrow> None
              | Some (hi, lo, _) \<Rightarrow>
                  (case div128_32 hi lo (ucast medianSize) of
                     None \<Rightarrow> None
                   | Some (penalizedAmountHi, penalizedAmountLo, _) \<Rightarrow> Some penalizedAmountLo))"

definition getAccountAddressAsStr :: "u64 \<Rightarrow> AccountPublicAddress \<Rightarrow> bytes option" where
  "getAccountAddressAsStr prefix adr = encode_addr cn_fast_hash prefix (write_AccountPublicAddress adr)"

definition parseAccountAddressString ::
  "(public_key \<Rightarrow> bool) \<Rightarrow> bytes \<Rightarrow> (u64 \<times> AccountPublicAddress) option" where
  "parseAccountAddressString check_key str =
     (case decode_addr cn_fast_hash str of
        None \<Rightarrow> None
      | Some (prefix, d) \<Rightarrow>
          (case fromBinaryArray read_AccountPublicAddress d of
             Inl e \<Rightarrow> None
           | Inr adr \<Rightarrow>
               if check_key (spendPublicKey adr) \<and> check_key (viewPublicKey adr) then Some (prefix, adr)
               else None))"

definition parse_hash256 :: "bytes \<Rightarrow> hash \<Rightarrow> bool \<times> hash" where
  "parse_hash256 str_hash hash0 = podFromHex str_hash hash0"

subsection \<open>Ring sizes\<close>

definition getMixinAllowableRange :: "u64 \<Rightarrow> u64 \<times> u64 \<times> u64" where
  "getMixinAllowableRange height =
     (if height \<ge> ucast MIXIN_LIMITS_V4_HEIGHT then (MINIMUM_MIXIN_V4, MAXIMUM_MIXIN_V4, DEFAULT_MIXIN_V4)
      else if height \<ge> ucast MIXIN_LIMITS_V3_HEIGHT then (MINIMUM_MIXIN_V3, MAXIMUM_MIXIN_V3, DEFAULT_MIXIN_V3)
      else if height \<ge> ucast MIXIN_LIMITS_V2_HEIGHT then (MINIMUM_MIXIN_V2, MAXIMUM_MIXIN_V2, DEFAULT_MIXIN_V2)
      else if height \<ge> ucast MIXIN_LIMITS_V1_HEIGHT then (MINIMUM_MIXIN_V1, MAXIMUM_MIXIN_V1, DEFAULT_MIXIN_V1)
      else (0, -1, DEFAULT_MIXIN_V0))"

datatype mixin_error = MIXIN_BELOW_THRESHOLD | MIXIN_ABOVE_THRESHOLD

definition validate_mixin :: "u64 \<Rightarrow> u64 \<Rightarrow> mixin_error + unit" where
  "validate_mixin mixin height =
     (case getMixinAllowableRange height of (minMixin, maxMixin, defaultMixin) \<Rightarrow>
        if mixin < minMixin then Inl MIXIN_BELOW_THRESHOLD
        else if mixin > maxMixin then Inl MIXIN_ABOVE_THRESHOLD
        else Inr ())"

text \<open>The ring size of the transaction: that of its largest ring, and at least one.\<close>

definition max_ring_size :: "TransactionInput list \<Rightarrow> u64" where
  "max_ring_size ins =
     foldl (\<lambda>ringSize inp. case inp of
              KeyInput a offs k \<Rightarrow>
                (let currentRingSize = of_nat (length offs)
                 in if currentRingSize > ringSize then currentRingSize else ringSize)
            | BaseInput b \<Rightarrow> ringSize) 1 ins"

definition validate_mixin_transaction :: "Transaction \<Rightarrow> u64 \<Rightarrow> u64 \<Rightarrow> mixin_error + unit" where
  "validate_mixin_transaction tx minMixin maxMixin =
     (let mixin = max_ring_size (inputs tx) - 1
      in if mixin > maxMixin then Inl MIXIN_ABOVE_THRESHOLD
         else if mixin < minMixin then Inl MIXIN_BELOW_THRESHOLD
         else Inr ())"

primrec validate_mixin_all :: "Transaction list \<Rightarrow> u64 \<Rightarrow> u64 \<Rightarrow> mixin_error + unit" where
  "validate_mixin_all [] minMixin maxMixin = Inr ()"
| "validate_mixin_all (tx # txs) minMixin maxMixin =
     bindE (validate_mixin_transaction tx minMixin maxMixin) (\<lambda>_. validate_mixin_all txs minMixin maxMixin)"

definition validate_mixin_transactions :: "Transaction list \<Rightarrow> u64 \<Rightarrow> mixin_error + unit" where
  "validate_mixin_transactions txs height =
     (case getMixinAllowableRange height of (minMixin, maxMixin, defaultMixin) \<Rightarrow>
        validate_mixin_all txs minMixin maxMixin)"

section \<open>Sums and overflow\<close>

text \<open>The true sum of a list of amounts.\<close>

abbreviation nat_sum :: "u64 list \<Rightarrow> nat" where
  "nat_sum xs \<equiv> sum_list (map unat xs)"

lemma foldl_plus_unat: "unat (foldl (+) a xs) = (unat a + nat_sum xs) mod 18446744073709551616"
proof (induction xs arbitrary: a)
  case Nil
  then show ?case using unat_lt_64 [of a] by simp
next
  case (Cons x xs)
  then show ?case by (simp add: unat_add64 mod_simps add.assoc)
qed

lemma add_wraps: "(m :: u64) > a + m \<longleftrightarrow> \<not> unat m + unat a < 18446744073709551616"
proof (cases "unat m + unat a < 18446744073709551616")
  case True
  then show ?thesis by (simp add: word_less_unat unat_add64 add.commute)
next
  case False
  then have "(unat a + unat m) mod 18446744073709551616 = unat a + unat m - 18446744073709551616"
    using unat_lt_64 [of m] unat_lt_64 [of a] by (simp add: mod_if)
  then show ?thesis using False unat_lt_64 [of a] by (simp add: word_less_unat unat_add64)
qed

lemma no_overflow_exact: "no_overflow m xs \<longleftrightarrow> unat m + nat_sum xs < 18446744073709551616"
proof (induction xs arbitrary: m)
  case Nil
  then show ?case using unat_lt_64 [of m] by simp
next
  case (Cons x xs)
  show ?case
  proof (cases "unat m + unat x < 18446744073709551616")
    case True
    then have "unat (m + x) = unat m + unat x" by (simp add: unat_add64)
    then show ?thesis using True Cons [of "m + x"] by (simp add: add_wraps add.assoc)
  next
    case False
    then show ?thesis by (simp add: add_wraps)
  qed
qed

lemma nat_sum_zeros: "nat_sum (map (\<lambda>inp. case inp of KeyInput a _ _ \<Rightarrow> a | BaseInput _ \<Rightarrow> 0) ins) = nat_sum (key_amounts ins)"
  by (induction ins) (auto simp: key_amounts_def split: TransactionInput.splits)

lemma checkInputsOverflow_exact:
  "checkInputsOverflow tx \<longleftrightarrow> nat_sum (key_amounts (inputs tx)) < 18446744073709551616"
  unfolding checkInputsOverflow_def no_overflow_exact nat_sum_zeros by simp

lemma checkOutsOverflow_exact:
  "checkOutsOverflow tx \<longleftrightarrow> nat_sum (map out_amount (outputs tx)) < 18446744073709551616"
  by (simp add: checkOutsOverflow_def no_overflow_exact)

lemma get_tx_fee_exact:
  assumes "checkInputsOverflow tx" "checkOutsOverflow tx"
  shows "(case get_tx_fee tx of
      None \<Rightarrow> nat_sum (key_amounts (inputs tx)) < nat_sum (map out_amount (outputs tx))
    | Some fee \<Rightarrow> nat_sum (key_amounts (inputs tx)) = nat_sum (map out_amount (outputs tx)) + unat fee)"
proof -
  have i: "unat (foldl (+) 0 (key_amounts (inputs tx))) = nat_sum (key_amounts (inputs tx))"
    and o: "unat (foldl (+) 0 (map out_amount (outputs tx))) = nat_sum (map out_amount (outputs tx))"
    using assms by (simp_all add: foldl_plus_unat checkInputsOverflow_exact checkOutsOverflow_exact)
  show ?thesis
    by (auto simp: get_tx_fee_def Let_def word_le_unat unat_sub i o)
qed

section \<open>Output offsets\<close>

fun differences :: "u32 \<Rightarrow> u32 list \<Rightarrow> u32 list" where
  "differences p [] = []"
| "differences p (x # xs) = (x - p) # differences x xs"

lemma length_differences [simp]: "length (differences p xs) = length xs"
  by (induction p xs rule: differences.induct) auto

lemma nth_differences: "i < length xs \<Longrightarrow> differences p xs ! i = xs ! i - (p # xs) ! i"
proof (induction p xs arbitrary: i rule: differences.induct)
  case (2 p x xs)
  then show ?case by (cases i) auto
qed simp

lemma to_relative_differences: "absolute_output_offsets_to_relative (x # xs) = x # differences x xs"
proof (rule nth_equalityI)
  fix i assume "i < length (absolute_output_offsets_to_relative (x # xs))"
  then have "i < Suc (length xs)" by (simp add: absolute_output_offsets_to_relative_def)
  then show "absolute_output_offsets_to_relative (x # xs) ! i = (x # differences x xs) ! i"
    by (cases i) (simp_all add: absolute_output_offsets_to_relative_def nth_differences del: upt_Suc)
qed (simp add: absolute_output_offsets_to_relative_def)

lemma absolute_differences: "offsets_to_absolute p (differences p xs) = xs"
  by (induction p xs rule: differences.induct) auto

lemma differences_absolute: "differences p (offsets_to_absolute p xs) = xs"
  by (induction p xs rule: offsets_to_absolute.induct) auto

lemma offsets_inverse:
  "absolute_output_offsets_to_relative (relativeOutputOffsetsToAbsolute off) = off"
  "relativeOutputOffsetsToAbsolute (absolute_output_offsets_to_relative off) = off"
proof -
  have "absolute_output_offsets_to_relative [] = []" by (simp add: absolute_output_offsets_to_relative_def)
  then show "absolute_output_offsets_to_relative (relativeOutputOffsetsToAbsolute off) = off"
    "relativeOutputOffsetsToAbsolute (absolute_output_offsets_to_relative off) = off"
    by (cases off; simp add: relativeOutputOffsetsToAbsolute_def to_relative_differences
        absolute_differences differences_absolute)+
qed

section \<open>Decomposition\<close>

abbreviation calls_sum :: "decomposition_call list \<Rightarrow> nat" where
  "calls_sum cs \<equiv> nat_sum (map call_amount cs)"

text \<open>A chunk is a digit times a power of ten, and the dust is not zero and at most the threshold.\<close>

definition call_ok :: "u64 \<Rightarrow> decomposition_call \<Rightarrow> bool" where
  "call_ok thr c \<longleftrightarrow>
     (case c of Chunk a \<Rightarrow> \<exists>d i. 0 < d \<and> d < 10 \<and> unat a = d * 10 ^ i | Dust a \<Rightarrow> a \<noteq> 0 \<and> a \<le> thr)"

lemma decompose_loop_correct:
  assumes "order = of_nat (10 ^ i)"
    and "unat amount * 10 ^ i + unat dust < 18446744073709551616"
    and "dust \<le> thr" "handled \<Longrightarrow> unat thr < unat dust + 10 ^ i"
  shows "calls_sum (decompose_loop thr amount handled dust order) =
      unat amount * 10 ^ i + (if handled then 0 else unat dust)
    \<and> list_all (call_ok thr) (decompose_loop thr amount handled dust order)"
  using assms
proof (induction "unat amount" arbitrary: amount handled dust order i rule: less_induct)
  case less
  note loop = decompose_loop.simps [of thr amount handled dust order]
  show ?case
  proof (cases "amount = 0")
    case True
    then show ?thesis unfolding loop using less.prems by (auto simp: call_ok_def)
  next
    case False
    define a where "a = unat amount"
    have a0: "0 < a" using False by (simp add: a_def unat_gt_0)
    have ten: "10 ^ i \<le> a * 10 ^ i" using a0 by simp
    have lim: "a * 10 ^ i + unat dust < 18446744073709551616" using less.prems(2) by (simp add: a_def)
    have "10 ^ i < (18446744073709551616 :: nat)" using ten lim by linarith
    then have ord: "unat order = 10 ^ i"
      unfolding less.prems(1) by (intro unat_of_nat_small) simp
    have split: "a * 10 ^ i = (a div 10) * 10 ^ Suc i + (a mod 10) * 10 ^ i"
    proof -
      have "a * 10 ^ i = ((a div 10) * 10 + a mod 10) * 10 ^ i" by simp
      then show ?thesis by (simp only: add_mult_distrib power_Suc mult.assoc)
    qed
    let ?c = "(amount mod 10) * order"
    have m: "unat (amount mod 10) = a mod 10" "unat (amount div 10) = a div 10"
      by (simp_all add: a_def unat_mod unat_div)
    have c: "unat ?c = (a mod 10) * 10 ^ i"
      by (subst unat_times_small) (use split lim m ord in simp_all)
    have dc: "unat (dust + ?c) = unat dust + (a mod 10) * 10 ^ i"
      by (subst unat_plus_small) (use split lim c in simp_all)
    have o': "order * 10 = of_nat (10 ^ Suc i)" using less.prems(1) by simp
    have dec: "unat (amount div 10) < unat amount" using m a0 by (simp add: a_def)
    show ?thesis
    proof (cases "dust + ?c \<le> thr")
      case True
      have zero: "a mod 10 = 0" if handled
      proof -
        have "unat dust + (a mod 10) * 10 ^ i \<le> unat thr" using True dc by (simp only: word_le_unat)
        with less.prems(4) [OF that] have "(a mod 10) * 10 ^ i < 1 * 10 ^ i" by linarith
        then show ?thesis by (simp only: mult_less_cancel2) simp
      qed
      have "handled \<Longrightarrow> unat thr < unat (dust + ?c) + 10 ^ Suc i"
        using less.prems(4) dc by simp
      with less.hyps [OF dec o' _ True, of handled] dc m split lim
      have IH: "calls_sum (decompose_loop thr (amount div 10) handled (dust + ?c) (order * 10)) =
          (a div 10) * 10 ^ Suc i + (if handled then 0 else unat (dust + ?c))"
        "list_all (call_ok thr) (decompose_loop thr (amount div 10) handled (dust + ?c) (order * 10))"
        by simp_all
      have unf: "decompose_loop thr amount handled dust order =
          decompose_loop thr (amount div 10) handled (dust + ?c) (order * 10)"
        using False True by (simp add: loop Let_def)
      show ?thesis
        unfolding unf IH(1) using IH(2) zero split dc by (simp add: a_def)
    next
      case le: False
      let ?h = "handled \<or> dust \<noteq> 0"
      let ?p = "(if \<not> handled \<and> dust \<noteq> 0 then [Dust dust] else []) @ (if ?c \<noteq> 0 then [Chunk ?c] else [])"
      have "(a mod 10) * 10 ^ i < 10 * 10 ^ i" by simp
      moreover have "unat thr < unat dust + (a mod 10) * 10 ^ i" using le dc by (simp only: word_le_unat)
      ultimately have "unat thr < unat dust + 10 ^ Suc i" unfolding power_Suc by linarith
      with less.hyps [OF dec o' _ less.prems(3), of ?h] m split lim
      have IH: "calls_sum (decompose_loop thr (amount div 10) ?h dust (order * 10)) =
          (a div 10) * 10 ^ Suc i + (if ?h then 0 else unat dust)"
        "list_all (call_ok thr) (decompose_loop thr (amount div 10) ?h dust (order * 10))"
        by simp_all
      have unf: "decompose_loop thr amount handled dust order =
          ?p @ decompose_loop thr (amount div 10) ?h dust (order * 10)"
        using False le by (simp add: loop Let_def)
      have "list_all (call_ok thr) ?p"
      proof -
        have "0 < a mod 10" if "?c \<noteq> 0" using that c by (cases "a mod 10 = 0") (auto simp: word_eq_unat)
        then have "\<exists>d j. 0 < d \<and> d < 10 \<and> unat ?c = d * 10 ^ j" if "?c \<noteq> 0"
          using that c by (intro exI [of _ "a mod 10"] exI [of _ i]) simp
        then show ?thesis using less.prems(3) by (auto simp: call_ok_def)
      qed
      moreover have "calls_sum ?p = (if \<not> handled then unat dust else 0) + unat ?c" by auto
      ultimately show ?thesis
        unfolding unf using IH split c by (auto simp: a_def)
    qed
  qed
qed

lemma decompose_correct:
  "calls_sum (decompose_amount_into_digits amount thr) = unat amount"
  "list_all (call_ok thr) (decompose_amount_into_digits amount thr)"
  using decompose_loop_correct [of 1 0 amount 0 thr False] unat_lt_64 [of amount]
  by (auto simp: decompose_amount_into_digits_def)

section \<open>The penalty\<close>

lemma penalty_factor_le: "c * (2 * m - c) \<le> m * m" for c m :: nat
proof (cases "c \<le> 2 * m")
  case True
  have "int (c * (2 * m - c)) = int m * int m - (int m - int c) * (int m - int c)"
    using True by (simp add: algebra_simps of_nat_diff)
  then have "int (c * (2 * m - c)) \<le> int (m * m)" by simp
  then show ?thesis by (simp only: of_nat_le_iff)
qed simp

lemma penalty_factor_less: "c \<noteq> m \<Longrightarrow> c \<le> 2 * m \<Longrightarrow> c * (2 * m - c) < m * m" for c m :: nat
proof -
  assume "c \<noteq> m" "c \<le> 2 * m"
  have "int (c * (2 * m - c)) = int m * int m - (int m - int c) * (int m - int c)"
    using \<open>c \<le> 2 * m\<close> by (simp add: algebra_simps of_nat_diff)
  moreover have "0 < (int m - int c) * (int m - int c)"
    using \<open>c \<noteq> m\<close> by (simp add: zero_less_mult_iff) linarith
  ultimately have "int (c * (2 * m - c)) < int (m * m)" by simp
  then show ?thesis by (simp only: of_nat_less_iff)
qed

lemma getPenalizedAmount_exact:
  assumes med: "unat med < 2 ^ 32" and cur: "unat cur \<le> 2 * unat med"
  shows "\<exists>r. getPenalizedAmount amount med cur = Some r \<and>
    unat r = (if cur \<le> med then unat amount
      else unat amount * (unat cur * (2 * unat med - unat cur)) div (unat med * unat med)) \<and>
    (med < cur \<and> amount \<noteq> 0 \<longrightarrow> r < amount)"
proof (cases "amount = 0 \<or> cur \<le> med")
  case True
  then show ?thesis by (auto simp: getPenalizedAmount_def not_less)
next
  case False
  define a m c where "a = unat amount" "m = unat med" "c = unat cur"
  note d = this
  have a: "0 < a" and cm: "m < c" "c \<le> 2 * m" "m < 2 ^ 32"
    using False med cur by (auto simp: d unat_gt_0 word_le_unat)
  have m0: "0 < m" using cm by simp
  define f where "f = c * (2 * m - c)"
  have mm: "m * m < 18446744073709551616"
    using mult_strict_mono [of m "2 ^ 32" m "2 ^ 32"] cm by simp
  have f: "f < m * m" unfolding f_def using cm by (intro penalty_factor_less) auto
  have u2: "unat (2 * med) = 2 * m"
    by (subst unat_times_small) (use cm in \<open>simp_all add: d\<close>)
  have "cur \<le> 2 * med" unfolding word_le_unat u2 using cm by (simp add: d)
  then have u: "unat (2 * med - cur) = 2 * m - c" using u2 by (simp add: unat_minus_small d)
  have uf: "unat (cur * (2 * med - cur)) = f"
    unfolding f_def
  proof (subst unat_times_small)
    show "unat cur * unat (2 * med - cur) < 2 ^ LENGTH(64)"
      using f mm by (simp add: u f_def d(3) [symmetric])
  qed (simp add: u d(3) [symmetric])
  obtain lo hi where mul: "mul128 amount (cur * (2 * med - cur)) = (lo, hi)" by fastforce
  have P: "unat hi * 18446744073709551616 + unat lo = a * f"
    using mul128_nat [OF mul] by (simp add: uf d(1))
  have um: "unat (ucast med :: u32) = m" using cm by (simp add: unat_ucast_mod d)
  have nz: "(ucast med :: u32) \<noteq> 0" using um m0 by auto
  obtain qh ql r where q: "div128_32 hi lo (ucast med) = Some (qh, ql, r)"
    "(unat qh * 18446744073709551616 + unat ql) * unat (ucast med :: u32) + unat r
       = unat hi * 18446744073709551616 + unat lo" "unat r < unat (ucast med :: u32)"
    using nz by (rule div128_32_nat)
  have Q: "unat qh * 18446744073709551616 + unat ql = a * f div m"
    using quotient_remainder_nat [OF q(2,3)] unfolding um P by blast
  obtain sh sl s where s: "div128_32 qh ql (ucast med) = Some (sh, sl, s)"
    "(unat sh * 18446744073709551616 + unat sl) * unat (ucast med :: u32) + unat s
       = unat qh * 18446744073709551616 + unat ql" "unat s < unat (ucast med :: u32)"
    using nz by (rule div128_32_nat)
  have S: "unat sh * 18446744073709551616 + unat sl = a * f div (m * m)"
    using quotient_remainder_nat [OF s(2,3)] unfolding um Q by (simp add: div_mult2_eq)
  have lt: "a * f div (m * m) < a"
  proof (rule less_mult_imp_div_less)
    show "a * f < a * (m * m)" using a f by simp
  qed
  then have "unat sh = 0" using S unat_lt_64 [of amount] by (auto simp: d(1))
  then have "unat sl = a * f div (m * m)" using S by simp
  moreover have "getPenalizedAmount amount med cur = Some sl"
    using False by (simp add: getPenalizedAmount_def mul q(1) s(1))
  ultimately show ?thesis
    using False lt by (simp add: word_less_unat f_def d)
qed

section \<open>Addresses of accounts\<close>

lemma address_text_read:
  assumes "wf_address adr" "check_key (spendPublicKey adr)" "check_key (viewPublicKey adr)"
  shows "\<exists>s. getAccountAddressAsStr prefix adr = Some s \<and> parseAccountAddressString check_key s = Some (prefix, adr)"
proof -
  let ?d = "write_AccountPublicAddress adr"
  obtain s where "encode_addr cn_fast_hash prefix ?d = Some s" "decode_addr cn_fast_hash s = Some (prefix, ?d)"
    using cn_fast.decode_encode_addr [of prefix ?d] by (auto simp: bind_eq_Some_conv)
  moreover have "fromBinaryArray read_AccountPublicAddress ?d = Inr adr"
    using assms(1) address_codec.fromBinaryArray_iff [of ?d adr] by simp
  ultimately show ?thesis using assms by (simp add: getAccountAddressAsStr_def parseAccountAddressString_def)
qed

lemma address_text_canonical:
  assumes "parseAccountAddressString check_key s = Some (prefix, adr)"
  shows "getAccountAddressAsStr prefix adr = Some s \<and> wf_address adr \<and> check_key (spendPublicKey adr)
    \<and> check_key (viewPublicKey adr)"
proof -
  obtain d where d: "decode_addr cn_fast_hash s = Some (prefix, d)" "fromBinaryArray read_AccountPublicAddress d = Inr adr"
    and k: "check_key (spendPublicKey adr)" "check_key (viewPublicKey adr)"
    using assms by (auto simp: parseAccountAddressString_def split: option.splits sum.splits if_splits)
  have w: "wf_address adr" "d = write_AccountPublicAddress adr"
    using d(2) address_codec.fromBinaryArray_iff by blast+
  then have "d \<noteq> []" by (auto simp: write_AccountPublicAddress_def out_binary_def wf_address_def pod32_def)
  with cn_fast.encode_decode_addr [OF d(1)] w k show ?thesis by (simp add: getAccountAddressAsStr_def)
qed

section \<open>Ring sizes\<close>

text \<open>The size the rules look at is that of the largest ring: smaller rings are not looked at.\<close>

lemma max_ring_size_ge:
  assumes "\<forall>inp \<in> set ins. sized (case inp of KeyInput a offs k \<Rightarrow> offs | BaseInput b \<Rightarrow> [])"
  shows "(\<forall>inp \<in> set ins. length (case inp of KeyInput a offs k \<Rightarrow> offs | BaseInput b \<Rightarrow> []) \<le> unat (max_ring_size ins))
    \<and> (max_ring_size ins = 1 \<or> (\<exists>a offs k. KeyInput a offs k \<in> set ins \<and> unat (max_ring_size ins) = length offs))"
  using assms
proof (induction ins rule: rev_induct)
  case Nil
  then show ?case by (simp add: max_ring_size_def)
next
  case (snoc inp ins)
  then have IH: "(\<forall>inp \<in> set ins. length (case inp of KeyInput a offs k \<Rightarrow> offs | BaseInput b \<Rightarrow> []) \<le> unat (max_ring_size ins))"
    "max_ring_size ins = 1 \<or> (\<exists>a offs k. KeyInput a offs k \<in> set ins \<and> unat (max_ring_size ins) = length offs)"
    by simp_all
  show ?case
  proof (cases inp)
    case (BaseInput b)
    then have "max_ring_size (ins @ [inp]) = max_ring_size ins" by (simp add: max_ring_size_def)
    with IH BaseInput show ?thesis by auto
  next
    case (KeyInput a offs k)
    let ?n = "of_nat (length offs) :: u64"
    have n: "unat ?n = length offs" using snoc.prems KeyInput by (intro unat_of_nat_small) simp
    have step: "max_ring_size (ins @ [inp]) = (if ?n > max_ring_size ins then ?n else max_ring_size ins)"
      unfolding max_ring_size_def Let_def using KeyInput by simp
    show ?thesis
    proof (cases "?n > max_ring_size ins")
      case True
      then have m: "max_ring_size (ins @ [inp]) = ?n" using step by simp
      have "unat (max_ring_size ins) < length offs" using True n by (simp only: word_less_unat)
      with IH m n KeyInput show ?thesis by (auto intro: order.trans)
    next
      case False
      then have m: "max_ring_size (ins @ [inp]) = max_ring_size ins" using step by simp
      have "length offs \<le> unat (max_ring_size ins)" using False n by (simp only: word_less_unat not_less)
      with IH m KeyInput show ?thesis by auto
    qed
  qed
qed

text \<open>A transaction whose second input has no other member in its ring passes the rule for at least
  one.\<close>

lemma small_ring_accepted:
  "validate_mixin_transaction
     \<lparr> tx_version = 1, unlockTime = 0, inputs = [KeyInput 5 [1, 2] (replicate 32 0), KeyInput 7 [3] (replicate 32 1)],
       outputs = [], extra = [], signatures = [] \<rparr> MINIMUM_MIXIN_V4 MAXIMUM_MIXIN_V4 = Inr ()"
  by (simp add: validate_mixin_transaction_def max_ring_size_def MINIMUM_MIXIN_V4_def MAXIMUM_MIXIN_V4_def)

section \<open>Properties\<close>

text \<open>C30. The overflow checks are exact: they accept a transaction if and only if the true sums of its
  input and of its output amounts fit in 64 bits; and for a transaction they accept, the fee
  is the exact difference of the sums, or there is none because the outputs exceed the inputs.\<close>

theorem overflow_checks_exact:
  "(checkInputsOverflow tx \<longleftrightarrow> sum_list (map unat (key_amounts (inputs tx))) < 2 ^ 64)
   \<and> (checkOutsOverflow tx \<longleftrightarrow> sum_list (map unat (map out_amount (outputs tx))) < 2 ^ 64)
   \<and> (checkInputsOverflow tx \<and> checkOutsOverflow tx \<longrightarrow>
       (case get_tx_fee tx of
          None \<Rightarrow> sum_list (map unat (key_amounts (inputs tx))) < sum_list (map unat (map out_amount (outputs tx)))
        | Some fee \<Rightarrow> sum_list (map unat (key_amounts (inputs tx))) =
            sum_list (map unat (map out_amount (outputs tx))) + unat fee))"
  using get_tx_fee_exact [of tx] by (simp only: checkInputsOverflow_exact checkOutsOverflow_exact two_64) simp

theorem overflow_checks_exact_witness:
  "checkInputsOverflow sample_transaction \<and> checkOutsOverflow sample_transaction
   \<and> get_tx_fee sample_transaction = Some 10
   \<and> sum_list (map unat (key_amounts (inputs sample_transaction))) =
       sum_list (map unat (map out_amount (outputs sample_transaction))) + unat (10 :: u64)"
proof -
  have "checkInputsOverflow sample_transaction" "checkOutsOverflow sample_transaction"
    "get_tx_fee sample_transaction = Some 10"
    by (simp_all add: sample_transaction_def checkInputsOverflow_def checkOutsOverflow_def get_tx_fee_def
        key_amounts_def)
  then show ?thesis using overflow_checks_exact [of sample_transaction] by simp
qed

text \<open>C31. The decomposition of an amount into digits loses nothing, for every 64-bit amount and threshold:
  the amounts handed to the handlers add up to the amount, every chunk is a digit times a power
  of ten, and the dust is not zero and at most the threshold.\<close>

theorem decompose_amount_exact:
  "sum_list (map unat (decomposeAmount amount thr [])) = unat amount
   \<and> list_all (call_ok thr) (decompose_amount_into_digits amount thr)"
  using decompose_correct(1) [of amount thr] decompose_correct(2) [of thr amount]
  by (simp add: decomposeAmount_def)

text \<open>C32. Within the bounds that the source asserts (the median fits in 32 bits and the block is at most
  twice the median), the penalized amount is the exact rounded-down value of the quadratic
  formula, no intermediate result overflows, no division traps, and the assertion that a
  penalty is strictly positive holds.\<close>

theorem penalized_amount_exact:
  assumes "unat med < 2 ^ 32" "unat cur \<le> 2 * unat med"
  shows "\<exists>r. getPenalizedAmount amount med cur = Some r \<and>
    unat r = (if cur \<le> med then unat amount
      else unat amount * (unat cur * (2 * unat med - unat cur)) div (unat med * unat med)) \<and>
    (med < cur \<and> amount \<noteq> 0 \<longrightarrow> r < amount)"
  by (rule getPenalizedAmount_exact [OF assms])

theorem penalized_amount_exact_witness:
  "\<exists>r. getPenalizedAmount 1000 20 30 = Some r \<and> unat r = 750 \<and> r < (1000 :: u64)"
  using penalized_amount_exact [of 20 30 1000] by simp

text \<open>C33. The textual address of an account is unique: it is read back as the prefix and the keys, and
  a text that is accepted for a prefix and keys is the text printed for them.\<close>

theorem account_address_text:
  "(wf_address adr \<and> check_key (spendPublicKey adr) \<and> check_key (viewPublicKey adr) \<longrightarrow>
     (\<exists>s. getAccountAddressAsStr prefix adr = Some s \<and> parseAccountAddressString check_key s = Some (prefix, adr)))
   \<and> (parseAccountAddressString check_key str = Some (prefix, adr) \<longrightarrow> getAccountAddressAsStr prefix adr = Some str)"
  using address_text_read [of adr check_key prefix] address_text_canonical [of check_key str prefix adr] by blast

theorem account_address_text_witness:
  "\<exists>s. getAccountAddressAsStr 6 \<lparr> spendPublicKey = replicate 32 1, viewPublicKey = replicate 32 2 \<rparr> = Some s
     \<and> parseAccountAddressString (\<lambda>k. k \<noteq> []) s =
         Some (6, \<lparr> spendPublicKey = replicate 32 1, viewPublicKey = replicate 32 2 \<rparr>)"
  using account_address_text [of "\<lparr> spendPublicKey = replicate 32 1, viewPublicKey = replicate 32 2 \<rparr>" "\<lambda>k. k \<noteq> []" 6]
  by (simp add: wf_address_def pod32_def)

end
