(* ===== verification/Difficulty.thy ===== *)
theory Difficulty
  imports FormatUtils
begin

text \<open>Proof-of-work checks and difficulty adjustment: \<open>src/src/cryptonote_core/check_difficulty.cpp\<close> and
  \<open>difficulty.cpp\<close>. Version 6 computes with unsigned 64-bit words. Versions 3 to 5 compute with signed
  64-bit integers, whose overflow the language leaves undefined, as it does a division by zero
  and an index out of range: these are the value \<open>None\<close>.

  The theory shows that \<open>check_hash\<close> compares a 256-bit product exactly, that version 6 always
  returns and stays within its limits, that the older versions stay within their limits when they
  return, and that they divide by zero when the weighted solve times add up to zero.\<close>

section \<open>Definitions\<close>

subsection \<open>The check of a hash\<close>

text \<open>Low and high word; the variant without 128-bit integers calls \<open>mul128\<close>.\<close>

definition mul :: "u64 \<Rightarrow> u64 \<Rightarrow> u64 \<times> u64" where
  "mul a b = (let res = (ucast a :: 128 word) * ucast b in (ucast res, ucast (drop_bit 64 res)))"

definition cadd :: "u64 \<Rightarrow> u64 \<Rightarrow> bool" where
  "cadd a b \<longleftrightarrow> a + b < a"

definition cadc :: "u64 \<Rightarrow> u64 \<Rightarrow> bool \<Rightarrow> bool" where
  "cadc a b c \<longleftrightarrow> a + b < a \<or> (c \<and> a + b = -1)"

text \<open>Word \<open>i\<close> of the hash; \<open>swap64le\<close> makes it little endian on every machine.\<close>

definition hash_word :: "hash \<Rightarrow> nat \<Rightarrow> u64" where
  "hash_word h i = le_decode (take 8 (drop (8 * i) h))"

definition check_hash :: "hash \<Rightarrow> u64 \<Rightarrow> bool" where
  "check_hash h difficulty =
     (let (top, high) = mul (hash_word h 3) difficulty in
      if high \<noteq> 0 then False
      else let (low, cur) = mul (hash_word h 0) difficulty;
               (low, high) = mul (hash_word h 1) difficulty;
               carry = cadd cur low;
               cur = high;
               (low, high) = mul (hash_word h 2) difficulty;
               carry = cadc cur low carry;
               carry = cadc high top carry
           in \<not> carry)"

subsection \<open>Version 6\<close>

text \<open>The loop over \<open>i\<close> from 1 to \<open>N\<close>: \<open>L\<close>, the sum of the last three solve times and the previous
  timestamp, over the timestamps that remain.\<close>

fun lwma3_loop :: "u64 \<Rightarrow> u64 \<Rightarrow> u64 \<Rightarrow> u64 \<Rightarrow> u64 \<Rightarrow> u64 \<Rightarrow> u64 list \<Rightarrow> u64 \<times> u64" where
  "lwma3_loop T N i L sum_3_ST previousTimestamp [] = (L, sum_3_ST)"
| "lwma3_loop T N i L sum_3_ST previousTimestamp (t # ts) =
     (let thisTimestamp = (if t > previousTimestamp then t else previousTimestamp + 1);
          ST = min (6 * T) (thisTimestamp - previousTimestamp);
          L = L + ST * i;
          sum_3_ST = (if i > N - 3 then sum_3_ST + ST else sum_3_ST)
      in lwma3_loop T N (i + 1) L sum_3_ST thisTimestamp ts)"

definition lwma3_next :: "u64 \<Rightarrow> u64 \<Rightarrow> u64 \<Rightarrow> u64 \<Rightarrow> u64 \<Rightarrow> u64" where
  "lwma3_next T sum_3_ST next_D prev_D lim =
     (let next_D = max ((prev_D * 67) div 100) (min next_D ((prev_D * 150) div 100))
      in if sum_3_ST < lim then max next_D ((prev_D * 108) div 100) else next_D)"

definition nextDifficultyV6 :: "u64 list \<Rightarrow> u64 list \<Rightarrow> u64 option" where
  "nextDifficultyV6 timestamps cumulativeDifficulties =
     (let T = DIFFICULTY_TARGET in
      if length timestamps \<le> 10 then Some 10000
      else
      let N = (if length timestamps < unat DIFFICULTY_BLOCKS_COUNT_V3 then of_nat (length timestamps) - 1
               else DIFFICULTY_WINDOW_V3);
          n = unat N;
          (L, sum_3_ST) = lwma3_loop T N 1 0 0 (timestamps ! 0) (take n (drop 1 timestamps))
      in if length cumulativeDifficulties \<le> n \<or> 100 * 2 * L = 0 then None
         else
         let next_D = ((cumulativeDifficulties ! n - cumulativeDifficulties ! 0) * T * (N + 1) * 99) div (100 * 2 * L);
             prev_D = cumulativeDifficulties ! n - cumulativeDifficulties ! (n - 1)
         in Some (lwma3_next T sum_3_ST next_D prev_D ((8 * T) div 10)))"

subsection \<open>Versions 3 to 5\<close>

text \<open>The value of a signed 64-bit operation, if there is one.\<close>

definition i64_value :: "int \<Rightarrow> int option" where
  "i64_value x = (if - (2 ^ 63) \<le> x \<and> x < 2 ^ 63 then Some x else None)"

text \<open>Division of the language: rounding towards zero.\<close>

definition i64_div :: "int \<Rightarrow> int \<Rightarrow> int option" where
  "i64_div a b = (if b = 0 then None else i64_value (sgn a * sgn b * (\<bar>a\<bar> div \<bar>b\<bar>)))"

definition i64_mul :: "int \<Rightarrow> int \<Rightarrow> int option" where
  "i64_mul a b = i64_value (a * b)"

definition clamp :: "int \<Rightarrow> int \<Rightarrow> int \<Rightarrow> int" where
  "clamp n lower upper = max lower (min n upper)"

text \<open>The loop, over the pairs of successive timestamps; \<open>limit\<close> is the clamping of the solve time.\<close>

fun lwma2_loop :: "(int \<Rightarrow> int) \<Rightarrow> int \<Rightarrow> int \<Rightarrow> int \<Rightarrow> int \<Rightarrow> (u64 \<times> u64) list \<Rightarrow> (int \<times> int) option" where
  "lwma2_loop limit N i L sum_3_ST [] = Some (L, sum_3_ST)"
| "lwma2_loop limit N i L sum_3_ST ((prev, this) # ts) =
     Option.bind (i64_value (sint this - sint prev)) (\<lambda>d.
       let ST = limit d in
       Option.bind (i64_mul ST i) (\<lambda>w.
       Option.bind (i64_value (L + w)) (\<lambda>L.
       Option.bind (if i > N - 3 then i64_value (sum_3_ST + ST) else Some sum_3_ST) (\<lambda>sum_3_ST.
         lwma2_loop limit N (i + 1) L sum_3_ST ts))))"

text \<open>\<open>(x * T * (N + 1) * 99) / (100 * 2 * L)\<close>\<close>

definition lwma2_next :: "int \<Rightarrow> int \<Rightarrow> int \<Rightarrow> int \<Rightarrow> int option" where
  "lwma2_next x T N L =
     Option.bind (i64_mul x T) (\<lambda>p. Option.bind (i64_mul p (N + 1)) (\<lambda>p. Option.bind (i64_mul p 99) (\<lambda>p.
     Option.bind (i64_mul (100 * 2) L) (\<lambda>q. i64_div p q))))"

text \<open>\<open>(prev_D * k) / 100\<close>\<close>

definition percent :: "int \<Rightarrow> int \<Rightarrow> int option" where
  "percent prev_D k = Option.bind (i64_mul prev_D k) (\<lambda>p. i64_div p 100)"

text \<open>\<open>std::max(lo, std::min(next_D, hi))\<close> with both limits in percent of \<open>prev_D\<close>.\<close>

definition lwma2_limits :: "int \<Rightarrow> int \<Rightarrow> int \<Rightarrow> int \<Rightarrow> int option" where
  "lwma2_limits prev_D next_D lo hi =
     Option.bind (percent prev_D lo) (\<lambda>l. Option.bind (percent prev_D hi) (\<lambda>h. Some (max l (min next_D h))))"

definition window_pairs :: "u64 list \<Rightarrow> (u64 \<times> u64) list" where
  "window_pairs timestamps =
     (let n = unat DIFFICULTY_WINDOW_V3 in zip (take n timestamps) (take n (drop 1 timestamps)))"

definition nextDifficultyV5 :: "u64 list \<Rightarrow> u64 list \<Rightarrow> u64 option" where
  "nextDifficultyV5 timestamps cumulativeDifficulties =
     (let T = sint DIFFICULTY_TARGET; N = sint DIFFICULTY_WINDOW_V3; n = nat N in
      if length timestamps < n + 1 then Some 10000
      else if length cumulativeDifficulties \<le> n then None
      else
      Option.bind (lwma2_loop (\<lambda>ST. max (-4 * T) (min ST (6 * T))) N 1 0 0 (window_pairs timestamps)) (\<lambda>(L, sum_3_ST).
      Option.bind (lwma2_next (sint (cumulativeDifficulties ! n - cumulativeDifficulties ! 0)) T N L) (\<lambda>next_D.
      let prev_D = sint (cumulativeDifficulties ! n - cumulativeDifficulties ! (n - 1)) in
      Option.bind (lwma2_limits prev_D next_D 67 150) (\<lambda>next_D.
      Option.bind (if sum_3_ST < (8 * T) div 10
                   then Option.bind (percent prev_D 108) (\<lambda>p. Some (max next_D p)) else Some next_D) (\<lambda>next_D.
        Some (word_of_int next_D))))))"

definition nextDifficultyV4 :: "u64 list \<Rightarrow> u64 list \<Rightarrow> u64 option" where
  "nextDifficultyV4 timestamps cumulativeDifficulties =
     (let T = sint DIFFICULTY_TARGET; N = sint DIFFICULTY_WINDOW_V3; n = nat N in
      if length timestamps \<le> n then Some 1000
      else if length cumulativeDifficulties \<le> n then None
      else
      Option.bind (lwma2_loop (\<lambda>ST. clamp (-6 * T) ST (6 * T)) N 1 0 0 (window_pairs timestamps)) (\<lambda>(L, sum_3_ST).
      Option.bind (lwma2_next (sint (cumulativeDifficulties ! n - cumulativeDifficulties ! 0)) T N L) (\<lambda>next_D.
      let prev_D = sint (cumulativeDifficulties ! n - cumulativeDifficulties ! (n - 1)) in
      Option.bind (lwma2_limits prev_D next_D 67 150) (\<lambda>next_D.
      Option.bind (if sum_3_ST < (8 * T) div 10
                   then Option.bind (percent prev_D 110) (\<lambda>p. Some (max next_D p)) else Some next_D) (\<lambda>next_D.
        Some (word_of_int next_D))))))"

definition nextDifficultyV3 :: "u64 list \<Rightarrow> u64 list \<Rightarrow> u64 option" where
  "nextDifficultyV3 timestamps cumulativeDifficulties =
     (let T = sint DIFFICULTY_TARGET; N = sint DIFFICULTY_WINDOW_V3; n = nat N;
          FTL = sint CRYPTONOTE_BLOCK_FUTURE_TIME_LIMIT_V3 in
      if length timestamps \<le> n then Some 1000
      else if length cumulativeDifficulties \<le> n then None
      else
      Option.bind (lwma2_loop (\<lambda>ST. max (- FTL) (min ST (6 * T))) N 1 0 0 (window_pairs timestamps)) (\<lambda>(L, sum_3_ST).
      Option.bind (lwma2_next (sint (cumulativeDifficulties ! n - cumulativeDifficulties ! 0)) T N L) (\<lambda>next_D.
      let prev_D = sint (cumulativeDifficulties ! n - cumulativeDifficulties ! (n - 1)) in
      Option.bind (lwma2_limits prev_D next_D 70 107) (\<lambda>next_D.
      Option.bind (if sum_3_ST < (8 * T) div 10 then percent prev_D 110 else Some next_D) (\<lambda>next_D.
        Some (word_of_int next_D))))))"

section \<open>The check of a hash\<close>

text \<open>The number that the bytes of a hash stand for, the least significant byte first.\<close>

primrec le_nat :: "bytes \<Rightarrow> nat" where
  "le_nat [] = 0"
| "le_nat (b # bs) = unat b + 256 * le_nat bs"

lemma le_nat_append: "le_nat (xs @ ys) = le_nat xs + 256 ^ length xs * le_nat ys"
  by (induction xs) (simp_all add: algebra_simps)

lemma le_nat_zeros: "le_nat (replicate n 0) = 0"
  by (induction n) simp_all

lemma le_nat_less: "le_nat d < 256 ^ length d"
proof (induction d)
  case (Cons b d)
  have "unat b < 256" by (rule unat_lt_8)
  with Cons show ?case unfolding le_nat.simps length_Cons power_Suc by linarith
qed simp

lemma unat_le_decode: "length d \<le> 8 \<Longrightarrow> unat (le_decode d :: u64) = le_nat d"
proof (induction d)
  case (Cons b d)
  have ih: "unat (le_decode d :: u64) = le_nat d" using Cons by simp
  have b: "unat b < 256" by (rule unat_lt_8)
  have "le_nat d < 256 ^ length d" by (rule le_nat_less)
  also have "(256 :: nat) ^ length d \<le> 256 ^ 7" using Cons.prems by (intro power_increasing) auto
  finally have d: "le_nat d < 72057594037927936" by simp
  have "unat (ucast b OR push_bit 8 (le_decode d) :: u64) = unat (ucast b :: u64) + unat (le_decode d :: u64) * 2 ^ 8"
    by (rule unat_or_push_bit) (use b d ih in \<open>simp_all add: unat_ucast_up\<close>)
  then show ?case using ih by (simp add: unat_ucast_up)
qed simp

lemma hash_words:
  assumes "length h = 32"
  shows "le_nat h = unat (hash_word h 0) + 18446744073709551616 * (unat (hash_word h 1) +
    18446744073709551616 * (unat (hash_word h 2) + 18446744073709551616 * unat (hash_word h 3)))"
proof -
  have split: "le_nat d = le_nat (take 8 d) + 18446744073709551616 * le_nat (drop 8 d)" if "8 \<le> length d" for d
    using le_nat_append [of "take 8 d" "drop 8 d"] that by (simp add: min_def)
  have w: "unat (hash_word h i) = le_nat (take 8 (drop (8 * i) h))" for i
    unfolding hash_word_def by (rule unat_le_decode) simp
  show ?thesis
    using split [of h] split [of "drop 8 h"] split [of "drop 16 h"] assms by (simp add: w)
qed

lemma mul_exact:
  assumes "mul a b = (low, high)"
  shows "unat a * unat b = unat low + 18446744073709551616 * unat high"
proof -
  have lt: "unat a * unat b < 340282366920938463463374607431768211456"
  proof -
    have "unat a * unat b \<le> 18446744073709551615 * 18446744073709551615"
      using unat_lt_64 [of a] unat_lt_64 [of b] by (intro mult_le_mono) simp_all
    then show ?thesis by linarith
  qed
  define res where "res = (ucast a :: 128 word) * ucast b"
  have res: "unat res = unat a * unat b"
    unfolding res_def by (subst unat_times_small) (use lt in \<open>simp_all add: unat_ucast_up\<close>)
  have "low = ucast res" "high = ucast (drop_bit 64 res)"
    using assms by (auto simp: mul_def res_def Let_def)
  then have "unat low = unat res mod 18446744073709551616" "unat high = unat res div 18446744073709551616"
    using lt by (simp_all add: unat_ucast_mod unat_drop_bit res)
  then show ?thesis using res by simp
qed

lemma cadc_carry:
  "cadc a b c \<longleftrightarrow> 18446744073709551616 \<le> unat a + unat b + of_bool c"
proof (cases "unat a + unat b < 18446744073709551616")
  case True
  then have s: "unat (a + b) = unat a + unat b" by (simp add: unat_add64)
  have m: "unat (-1 :: u64) = 18446744073709551615" by (simp only: unsigned_minus_1_eq_mask mask_eq_exp_minus_1) simp
  show ?thesis unfolding cadc_def word_less_unat word_eq_unat [of "a + b"] s m using True by (cases c) auto
next
  case False
  then have "unat (a + b) = unat a + unat b - 18446744073709551616"
    using unat_lt_64 [of a] unat_lt_64 [of b] unfolding unat_add64 by (simp add: mod_nat_eqI le_mod_geq)
  then show ?thesis unfolding cadc_def word_less_unat using False unat_lt_64 [of b] by auto
qed

lemma cadd_cadc: "cadd a b = cadc a b False"
  by (simp add: cadd_def cadc_def)

lemma cadc_split:
  obtains r where "unat a + unat b + of_bool c = r + 18446744073709551616 * of_bool (cadc a b c)"
    "r < 18446744073709551616"
proof (cases "cadc a b c")
  case True
  then have "18446744073709551616 \<le> unat a + unat b + of_bool c" by (simp only: cadc_carry)
  moreover have "unat a + unat b + of_bool c < 36893488147419103232"
    using unat_lt_64 [of a] unat_lt_64 [of b] by (cases c) simp_all
  ultimately show thesis
    using that [of "unat a + unat b + of_bool c - 18446744073709551616"] True by simp
next
  case False
  then have "unat a + unat b + of_bool c < 18446744073709551616" by (simp only: cadc_carry not_le)
  then show thesis using that [of "unat a + unat b + of_bool c"] False by simp
qed

lemma digit_less: "(x :: nat) < B \<Longrightarrow> x + B * y < B * M \<longleftrightarrow> y < M"
proof
  assume *: "x < B" "x + B * y < B * M"
  then have "B * y < B * M" by linarith
  then show "y < M" by simp
next
  assume *: "x < B" "y < M"
  then have "B * (y + 1) \<le> B * M" by (intro mult_le_mono2) simp
  with * show "x + B * y < B * M" by simp
qed

lemma four_words_less:
  fixes k :: nat
  assumes "l < 18446744073709551616" "r1 < 18446744073709551616" "r2 < 18446744073709551616" "r3 < 18446744073709551616"
  shows "l + 18446744073709551616 * (r1 + 18446744073709551616 * (r2 + 18446744073709551616 *
    (r3 + 18446744073709551616 * k))) < 2 ^ 256 \<longleftrightarrow> k = 0" (is "?t < _ \<longleftrightarrow> _")
proof -
  have p: "(2 :: nat) ^ 256 = 18446744073709551616 * (18446744073709551616 * (18446744073709551616 * (18446744073709551616 * 1)))"
    by simp
  have "?t < 2 ^ 256 \<longleftrightarrow> k < 1"
    unfolding p using assms by (simp only: digit_less)
  then show ?thesis by simp
qed

lemma carry_total:
  fixes B :: nat
  assumes "h0 + l1 = r1 + B * c1" "h1 + l2 + c1 = r2 + B * c2" "h2 + l3 + c2 = r3 + B * c3"
  shows "(l0 + B * h0) + B * ((l1 + B * h1) + B * ((l2 + B * h2) + B * (l3 + B * h3))) =
    l0 + B * (r1 + B * (r2 + B * (r3 + B * (c3 + h3))))"
proof -
  have "(l0 + B * h0) + B * ((l1 + B * h1) + B * ((l2 + B * h2) + B * (l3 + B * h3))) =
    l0 + B * ((h0 + l1) + B * ((h1 + l2) + B * ((h2 + l3) + B * h3)))" by (simp add: algebra_simps)
  also have "\<dots> = l0 + B * (r1 + B * ((h1 + l2 + c1) + B * ((h2 + l3) + B * h3)))"
    unfolding assms(1) by (simp add: algebra_simps)
  also have "\<dots> = l0 + B * (r1 + B * (r2 + B * ((h2 + l3 + c2) + B * h3)))"
    unfolding assms(2) by (simp add: algebra_simps)
  finally show ?thesis unfolding assms(3) by (simp add: algebra_simps)
qed

lemma check_hash_exact:
  assumes "length h = 32"
  shows "check_hash h difficulty \<longleftrightarrow> le_nat h * unat difficulty < 2 ^ 256"
proof -
  obtain l0 h0 where m0: "mul (hash_word h 0) difficulty = (l0, h0)" by fastforce
  obtain l1 h1 where m1: "mul (hash_word h 1) difficulty = (l1, h1)" by fastforce
  obtain l2 h2 where m2: "mul (hash_word h 2) difficulty = (l2, h2)" by fastforce
  obtain l3 h3 where m3: "mul (hash_word h 3) difficulty = (l3, h3)" by fastforce
  note m = m0 m1 m2 m3
  define c1 where "c1 = cadd h0 l1"
  define c2 where "c2 = cadc h1 l2 c1"
  define c3 where "c3 = cadc h2 l3 c2"
  obtain r1 where r1: "unat h0 + unat l1 = r1 + 18446744073709551616 * of_bool c1" "r1 < 18446744073709551616"
    by (rule cadc_split [of h0 l1 False]) (simp add: c1_def cadd_cadc)
  obtain r2 where r2: "unat h1 + unat l2 + of_bool c1 = r2 + 18446744073709551616 * of_bool c2" "r2 < 18446744073709551616"
    by (rule cadc_split [of h1 l2 c1]) (simp only: c2_def)
  obtain r3 where r3: "unat h2 + unat l3 + of_bool c2 = r3 + 18446744073709551616 * of_bool c3" "r3 < 18446744073709551616"
    by (rule cadc_split [of h2 l3 c2]) (simp only: c3_def)
  have total: "le_nat h * unat difficulty = unat l0 + 18446744073709551616 * (r1 + 18446744073709551616 *
    (r2 + 18446744073709551616 * (r3 + 18446744073709551616 * (of_bool c3 + unat h3))))"
    unfolding hash_words [OF assms] distrib_right mult.assoc
      mul_exact [OF m(1)] mul_exact [OF m(2)] mul_exact [OF m(3)] mul_exact [OF m(4)] 
    by (rule carry_total [OF r1(1) r2(1) r3(1)])
  have "le_nat h * unat difficulty < 2 ^ 256 \<longleftrightarrow> of_bool c3 + unat h3 = 0"
    unfolding total by (rule four_words_less [OF unat_lt_64 r1(2) r2(2) r3(2)])
  moreover have "check_hash h difficulty \<longleftrightarrow> h3 = 0 \<and> \<not> c3"
    using m1 by (simp add: check_hash_def m c1_def c2_def c3_def)
  ultimately show ?thesis by (auto simp: unat_eq_0)
qed

section \<open>Version 6\<close>

lemma target_values [simp]:
  "DIFFICULTY_TARGET = 90" "DIFFICULTY_WINDOW_V3 = 60" "DIFFICULTY_BLOCKS_COUNT_V3 = 61"
  by (simp_all add: DIFFICULTY_TARGET_def DIFFICULTY_WINDOW_V3_def DIFFICULTY_BLOCKS_COUNT_V3_def)

text \<open>A solve time is at least 1, even when the timestamps wrap around, and at most 540.\<close>

lemma solve_time_bounds:
  fixes t p :: u64
  defines "ST \<equiv> min (6 * 90) ((if t > p then t else p + 1) - p)"
  shows "1 \<le> unat ST" "unat ST \<le> 540"
proof -
  have "unat (t - p) = unat t - unat p" if "p < t"
    using that by (intro unat_minus_small) simp
  then have "1 \<le> unat ((if t > p then t else p + 1) - p)"
    by (cases "p < t") (simp_all add: word_less_unat)
  then show "1 \<le> unat ST" unfolding ST_def by (simp add: min_def)
  have "ST \<le> 540" unfolding ST_def by simp
  then show "unat ST \<le> 540" by (simp add: word_le_unat)
qed

lemma lwma3_loop_bounds:
  assumes "1 \<le> unat i" "unat i + length ts \<le> 61" "unat L \<le> 32940 * unat i"
  shows "unat L + length ts \<le> unat (fst (lwma3_loop 90 N i L s p ts)) \<and>
         unat (fst (lwma3_loop 90 N i L s p ts)) \<le> 32940 * (unat i + length ts)"
  using assms
proof (induction ts arbitrary: i L s p)
  case (Cons t ts)
  define ST where "ST = min (6 * 90) ((if t > p then t else p + 1) - p)"
  have ST: "1 \<le> unat ST" "unat ST \<le> 540" unfolding ST_def by (rule solve_time_bounds)+
  have i: "1 \<le> unat i" "unat i \<le> 60" using Cons.prems by simp_all
  have i1: "unat (i + 1) = unat i + 1" using i by (subst unat_plus_small) simp_all
  have prod: "1 \<le> unat ST * unat i" "unat ST * unat i \<le> 32940"
    using mult_le_mono [OF ST(1) i(1)] mult_le_mono [OF ST(2) i(2)] by simp_all
  have m: "unat (ST * i) = unat ST * unat i" by (rule unat_times_small) (use prod in simp)
  have L1: "unat (L + ST * i) = unat L + unat ST * unat i"
    unfolding m [symmetric] by (rule unat_plus_small) (use prod Cons.prems i in \<open>simp add: m\<close>)
  have step: "lwma3_loop 90 N i L s p (t # ts) = lwma3_loop 90 N (i + 1) (L + ST * i)
      (if i > N - 3 then s + ST else s) (if t > p then t else p + 1) ts"
    unfolding lwma3_loop.simps Let_def ST_def ..
  have "unat (L + ST * i) + length ts \<le> unat (fst (lwma3_loop 90 N i L s p (t # ts))) \<and>
        unat (fst (lwma3_loop 90 N i L s p (t # ts))) \<le> 32940 * (unat (i + 1) + length ts)"
    unfolding step by (rule Cons.IH) (use Cons.prems prod in \<open>simp_all add: i1 L1\<close>)
  then have "unat L + unat ST * unat i + length ts \<le> unat (fst (lwma3_loop 90 N i L s p (t # ts)))"
    "unat (fst (lwma3_loop 90 N i L s p (t # ts))) \<le> 32940 * (unat i + length (t # ts))"
    by (simp_all only: i1 L1 list.size add.assoc add.commute [of "Suc 0"] One_nat_def)
  with prod(1) show ?case by (simp only: list.size simp_thms)
qed simp

lemma percent_unat:
  assumes "unat d * k < 2 ^ 64"
  shows "unat ((d * of_nat k) div 100 :: u64) = unat d * k div 100"
proof (cases "unat d = 0")
  case True
  then show ?thesis by (simp add: unat_eq_0)
next
  case False
  then have "1 * k \<le> unat d * k" by (intro mult_le_mono1) simp
  with assms have "k < 2 ^ 64" by linarith
  then have k: "unat (of_nat k :: u64) = k" by (intro unat_of_nat_small) simp
  then show ?thesis using assms by (simp add: unat_div_distrib unat_times_small)
qed

lemma lwma3_next_bounds:
  assumes "unat prev_D * 150 < 2 ^ 64"
  shows "unat prev_D * 67 div 100 \<le> unat (lwma3_next T s next_D prev_D lim) \<and>
         unat (lwma3_next T s next_D prev_D lim) \<le> unat prev_D * 150 div 100"
proof -
  have p: "unat (prev_D * 67 div 100) = unat prev_D * 67 div 100"
    "unat (prev_D * 108 div 100) = unat prev_D * 108 div 100"
    "unat (prev_D * 150 div 100) = unat prev_D * 150 div 100"
    using assms percent_unat [of prev_D 67] percent_unat [of prev_D 108] percent_unat [of prev_D 150] by simp_all
  have "prev_D * 67 div 100 \<le> prev_D * 150 div 100" "prev_D * 108 div 100 \<le> prev_D * 150 div 100"
    unfolding word_le_unat p by (intro div_le_mono; simp)+
  then have "prev_D * 67 div 100 \<le> lwma3_next T s next_D prev_D lim \<and> lwma3_next T s next_D prev_D lim \<le> prev_D * 150 div 100"
    by (auto simp: lwma3_next_def Let_def min_def max_def)
  then show ?thesis unfolding word_le_unat p .
qed

text \<open>The number of solve times that version 6 looks at.\<close>

definition v6_window :: "u64 list \<Rightarrow> nat" where
  "v6_window timestamps = min (length timestamps - 1) 60"

lemma v6_window_word:
  assumes "10 < length ts"
  shows "unat (if length ts < unat (61 :: u64) then of_nat (length ts) - 1 else 60 :: u64) = v6_window ts"
proof (cases "length ts < 61")
  case True
  have "of_nat (length ts) - 1 = (of_nat (length ts - 1) :: u64)" using assms by (simp add: of_nat_diff)
  moreover have "unat (of_nat (length ts - 1) :: u64) = length ts - 1" using True by (intro unat_of_nat_small) simp
  ultimately show ?thesis using True by (simp add: v6_window_def)
next
  case False
  then show ?thesis by (simp add: v6_window_def)
qed

lemma nextDifficultyV6_returns:
  assumes "10 < length ts" "v6_window ts < length cds"
  obtains s next_D where "nextDifficultyV6 ts cds =
    Some (lwma3_next 90 s next_D (cds ! v6_window ts - cds ! (v6_window ts - 1)) 72)"
proof -
  define N :: u64 where "N = (if length ts < unat (61 :: u64) then of_nat (length ts) - 1 else 60)"
  have n: "unat N = v6_window ts" unfolding N_def by (rule v6_window_word) fact
  have w: "9 < v6_window ts" "v6_window ts \<le> 60" "v6_window ts < length ts" using assms(1) by (auto simp: v6_window_def)
  obtain L s where loop: "lwma3_loop 90 N 1 0 0 (ts ! 0) (take (v6_window ts) (drop 1 ts)) = (L, s)" by fastforce
  have len: "length (take (v6_window ts) (drop 1 ts)) = v6_window ts" using w by simp
  have "unat (0 :: u64) + v6_window ts \<le> unat L \<and> unat L \<le> 32940 * (unat (1 :: u64) + v6_window ts)"
    using lwma3_loop_bounds [of 1 "take (v6_window ts) (drop 1 ts)" 0 N 0 "ts ! 0"] w unfolding loop len by simp
  then have L: "0 < unat L" "unat L \<le> 2009340" using w by simp_all
  have "unat (200 * L) = 200 * unat L" using L(2) by (subst unat_times_small) simp_all
  with L(1) have "200 * L \<noteq> 0" by auto
  then have "nextDifficultyV6 ts cds = Some (lwma3_next 90 s
      (((cds ! v6_window ts - cds ! 0) * 90 * (N + 1) * 99) div (100 * 2 * L)) (cds ! v6_window ts - cds ! (v6_window ts - 1)) 72)"
    unfolding nextDifficultyV6_def target_values Let_def N_def [symmetric] n loop prod.case
    using assms by simp
  then show thesis by (rule that)
qed

section \<open>Versions 3 to 5\<close>

lemma percent_value:
  assumes "percent d k = Some p" "0 \<le> d" "0 \<le> k"
  shows "p = d * k div 100"
  using assms by (auto simp: percent_def i64_mul_def i64_div_def i64_value_def sgn_if split: if_splits bind_splits)

lemma percent_le:
  assumes "percent d k = Some p" "percent d k' = Some p'" "0 \<le> d" "0 \<le> k" "k \<le> k'"
  shows "p \<le> p'"
  using assms percent_value [OF assms(1)] percent_value [OF assms(2)]
  by (simp add: div_le_dividend zdiv_mono1 mult_left_mono)

lemma percent_bounds:
  assumes "percent d k = Some p" "0 \<le> d" "0 \<le> k"
  shows "0 \<le> p \<and> p < 2 ^ 63"
proof -
  have "0 \<le> d * k" using assms by simp
  then have "0 \<le> p" unfolding percent_value [OF assms] by (simp add: pos_imp_zdiv_nonneg_iff)
  moreover have "p < 2 ^ 63"
    using assms(1) by (auto simp: percent_def i64_div_def i64_value_def split: if_splits bind_splits)
  ultimately show ?thesis by simp
qed

text \<open>\<open>r\<close> lies between the two percentages of \<open>d\<close> and is a signed 64-bit integer.\<close>

definition within_percent :: "int \<Rightarrow> int \<Rightarrow> int \<Rightarrow> int \<Rightarrow> bool" where
  "within_percent d lo hi r \<longleftrightarrow> 0 \<le> r \<and> r < 2 ^ 63 \<and> d * lo div 100 \<le> r \<and> r \<le> d * hi div 100"

lemma limits_within:
  assumes "lwma2_limits d x lo hi = Some r" "0 \<le> d" "0 \<le> lo" "lo \<le> hi"
  shows "within_percent d lo hi r"
proof -
  obtain l h where p: "percent d lo = Some l" "percent d hi = Some h" and r: "r = max l (min x h)"
    using assms(1) by (auto simp: lwma2_limits_def split: bind_splits)
  have "l \<le> h" by (rule percent_le [OF p assms(2-4)])
  then have "l \<le> r" "r \<le> h" unfolding r by auto
  then show ?thesis unfolding within_percent_def
    using percent_value [OF p(1)] percent_value [OF p(2)] percent_bounds [OF p(1)] percent_bounds [OF p(2)] assms
    by simp
qed

lemma percent_within:
  assumes "percent d k = Some p" "0 \<le> d" "0 \<le> lo" "lo \<le> k" "k \<le> hi"
  shows "within_percent d lo hi p"
proof -
  have "d * lo \<le> d * k" "d * k \<le> d * hi" using assms by (intro mult_left_mono; simp)+
  then show ?thesis
    unfolding within_percent_def using percent_value [OF assms(1)] percent_bounds [OF assms(1)] assms
    by (simp add: zdiv_mono1)
qed

lemma max_within: "within_percent d lo hi r \<Longrightarrow> within_percent d lo hi p \<Longrightarrow> within_percent d lo hi (max r p)"
  by (simp add: within_percent_def max_def)

lemma within_wider: "within_percent d lo hi r \<Longrightarrow> 0 \<le> d \<Longrightarrow> hi \<le> hi' \<Longrightarrow> within_percent d lo hi' r"
  unfolding within_percent_def by (meson mult_left_mono order_trans zdiv_mono1 zero_less_numeral)

lemma uint_within: "within_percent d lo hi r \<Longrightarrow> uint (word_of_int r :: u64) = r"
  by (simp add: within_percent_def word_of_int_inverse)

lemma tail_within:
  assumes "Option.bind (lwma2_limits d x lo hi) (\<lambda>n.
      Option.bind (if c then Option.bind (percent d k) (\<lambda>p. Some (max n p)) else Some n) (\<lambda>n. Some (word_of_int n :: u64))) = Some r"
    "0 \<le> d" "0 \<le> lo" "lo \<le> k" "k \<le> hi"
  shows "within_percent d lo hi (uint r)"
proof -
  obtain y where y: "lwma2_limits d x lo hi = Some y"
    and c: "if c then \<exists>p. percent d k = Some p \<and> r = word_of_int (max y p) else r = word_of_int y"
    using assms(1) by (auto simp: bind_eq_Some_conv split: if_splits)
  have within: "within_percent d lo hi y" by (rule limits_within [OF y]) (use assms in simp_all)
  show ?thesis
  proof (cases c)
    case True
    then obtain p where p: "percent d k = Some p" "r = word_of_int (max y p)" using c by auto
    have "within_percent d lo hi (max y p)"
      by (intro max_within within percent_within [OF p(1)]) (use assms in simp_all)
    then show ?thesis using p uint_within by simp
  next
    case False
    then show ?thesis using c within uint_within by simp
  qed
qed

lemma bind_some_elim: "Option.bind m f = Some r \<Longrightarrow> (\<And>x. f x = Some r \<Longrightarrow> P) \<Longrightarrow> P"
  by (cases m) auto

lemma window_indices:
  "sint (60 :: u64) = 60" "sint (90 :: u64) = 90" "nat 60 = 60" "(60 :: nat) - 1 = 59"
  by simp_all

lemmas window_unfold = Let_def target_values window_indices case_prod_unfold

lemma nextDifficultyV5_within:
  assumes "nextDifficultyV5 ts cds = Some r" "60 < length ts" "0 \<le> sint (cds ! 60 - cds ! 59)"
  shows "within_percent (sint (cds ! 60 - cds ! 59)) 67 150 (uint r)"
proof -
  have "\<exists>x c. Option.bind (lwma2_limits (sint (cds ! 60 - cds ! 59)) x 67 150) (\<lambda>n.
      Option.bind (if c then Option.bind (percent (sint (cds ! 60 - cds ! 59)) 108) (\<lambda>p. Some (max n p)) else Some n)
        (\<lambda>n. Some (word_of_int n))) = Some r"
    using assms(1,2) unfolding nextDifficultyV5_def window_unfold
    by (simp split: if_splits) (erule bind_some_elim, erule bind_some_elim, blast)
  then show ?thesis using tail_within assms(3) by fastforce
qed

lemma nextDifficultyV4_within:
  assumes "nextDifficultyV4 ts cds = Some r" "60 < length ts" "0 \<le> sint (cds ! 60 - cds ! 59)"
  shows "within_percent (sint (cds ! 60 - cds ! 59)) 67 150 (uint r)"
proof -
  have "\<exists>x c. Option.bind (lwma2_limits (sint (cds ! 60 - cds ! 59)) x 67 150) (\<lambda>n.
      Option.bind (if c then Option.bind (percent (sint (cds ! 60 - cds ! 59)) 110) (\<lambda>p. Some (max n p)) else Some n)
        (\<lambda>n. Some (word_of_int n))) = Some r"
    using assms(1,2) unfolding nextDifficultyV4_def window_unfold
    by (simp split: if_splits) (erule bind_some_elim, erule bind_some_elim, blast)
  then show ?thesis using tail_within assms(3) by fastforce
qed

lemma nextDifficultyV3_within:
  assumes "nextDifficultyV3 ts cds = Some r" "60 < length ts" "0 \<le> sint (cds ! 60 - cds ! 59)"
  shows "within_percent (sint (cds ! 60 - cds ! 59)) 70 110 (uint r)"
proof -
  let ?d = "sint (cds ! 60 - cds ! 59)"
  have "\<exists>x c. Option.bind (lwma2_limits ?d x 70 107) (\<lambda>n.
      Option.bind (if c then percent ?d 110 else Some n) (\<lambda>n. Some (word_of_int n))) = Some r"
    using assms(1,2) unfolding nextDifficultyV3_def window_unfold
    by (simp split: if_splits) (erule bind_some_elim, erule bind_some_elim, blast)
  then obtain x y n where y: "lwma2_limits ?d x 70 107 = Some y" and n: "percent ?d 110 = Some n \<or> n = y"
    and r: "r = word_of_int n"
    by (auto simp: bind_eq_Some_conv split: if_splits)
  have "within_percent ?d 70 110 n"
    using n percent_within [of ?d 110 n 70 110] limits_within [OF y assms(3)] assms(3)
    by (auto intro: within_wider)
  then show ?thesis using r uint_within by simp
qed

section \<open>Division by zero\<close>

lemma lwma2_loop_still:
  assumes "limit 0 = 0" "- (2 ^ 63) \<le> L" "L < 2 ^ 63" "- (2 ^ 63) \<le> s" "s < 2 ^ 63"
  shows "lwma2_loop limit N i L s (replicate k (t, t)) = Some (L, s)"
  using assms by (induction k arbitrary: i) (simp_all add: i64_value_def i64_mul_def)

lemma window_pairs_still: "window_pairs (replicate 61 t) = replicate 60 (t, t)"
proof -
  have "take 60 (replicate 61 t) = replicate 60 t" "take 60 (drop 1 (replicate 61 t)) = replicate 60 t" by simp_all
  then show ?thesis unfolding window_pairs_def Let_def target_values by (simp add: zip_replicate)
qed

lemma lwma2_next_zero: "lwma2_next x T N 0 = None"
  by (auto simp: lwma2_next_def i64_mul_def i64_div_def i64_value_def split: bind_splits)

section \<open>Properties\<close>

text \<open>C17. \<open>check_hash\<close> is exact: with carries between four 64-bit words it accepts a hash of 32
  bytes if and only if the hash, read as a little-endian 256-bit number, times the difficulty is
  below \<open>2 ^ 256\<close>.\<close>

theorem check_hash_is_256_bit_product:
  assumes "length h = 32"
  shows "check_hash h difficulty \<longleftrightarrow> le_nat h * unat difficulty < 2 ^ 256"
  using assms by (rule check_hash_exact)

theorem check_hash_is_256_bit_product_witness:
  "check_hash (replicate 31 0 @ [1]) 255 \<and> \<not> check_hash (replicate 31 0 @ [1]) 256"
proof -
  have l: "length (replicate 31 (0 :: byte) @ [1]) = 32" by (simp only: length_append length_replicate list.size)
  have v: "le_nat (replicate 31 0 @ [1]) = 256 ^ 31"
    unfolding le_nat_append le_nat_zeros length_replicate by simp
  have "check_hash (replicate 31 0 @ [1]) 255"
    unfolding check_hash_is_256_bit_product [OF l] v by simp
  moreover have "\<not> check_hash (replicate 31 0 @ [1]) 256"
    unfolding check_hash_is_256_bit_product [OF l] v by simp
  ultimately show ?thesis ..
qed



text \<open>Where versions 5, 4 and 3 return for a full window of timestamps, the new difficulty is
  between 67 and 150, 67 and 150, and 70 and 110 percent of the difficulty of the last block,
  taken as a signed number that is not negative.\<close>

lemma older_difficulties_within_limits:
  assumes "60 < length ts" "0 \<le> sint (cds ! 60 - cds ! 59)"
  shows "(\<forall>d. nextDifficultyV5 ts cds = Some d \<longrightarrow> within_percent (sint (cds ! 60 - cds ! 59)) 67 150 (uint d)) \<and>
    (\<forall>d. nextDifficultyV4 ts cds = Some d \<longrightarrow> within_percent (sint (cds ! 60 - cds ! 59)) 67 150 (uint d)) \<and>
    (\<forall>d. nextDifficultyV3 ts cds = Some d \<longrightarrow> within_percent (sint (cds ! 60 - cds ! 59)) 70 110 (uint d))"
  using assms nextDifficultyV5_within nextDifficultyV4_within nextDifficultyV3_within by blast

text \<open>C34. Versions 3 to 5 do not protect their division: the comment about dividing by zero stands
  after the division by \<open>100 * 2 * L\<close>. When all timestamps of the window are equal, the weighted
  sum \<open>L\<close> of the solve times is zero and all three divide by it, whatever the difficulties; version
  6 returns for the same window.\<close>

theorem older_difficulties_divide_by_zero:
  assumes "length cds = 61"
  shows "nextDifficultyV5 (replicate 61 t) cds = None \<and> nextDifficultyV4 (replicate 61 t) cds = None \<and>
    nextDifficultyV3 (replicate 61 t) cds = None \<and> nextDifficultyV6 (replicate 61 t) cds \<noteq> None"
proof -
  have still: "lwma2_loop f 60 1 0 0 (replicate 60 (t, t)) = Some (0, 0)" if "f 0 = 0" for f
    by (rule lwma2_loop_still) (use that in simp_all)
  have c: "clamp (- 6 * 90) 0 (6 * 90) = 0" by (simp add: clamp_def)
  have "v6_window (replicate 61 t) < length cds" using assms by (simp add: v6_window_def)
  then have "nextDifficultyV6 (replicate 61 t) cds \<noteq> None"
    using nextDifficultyV6_returns [of "replicate 61 t" cds] by fastforce
  then show ?thesis
    unfolding nextDifficultyV5_def nextDifficultyV4_def nextDifficultyV3_def window_unfold window_pairs_still
    using assms c by (simp add: still lwma2_next_zero CRYPTONOTE_BLOCK_FUTURE_TIME_LIMIT_V3_def)
qed

theorem older_difficulties_divide_by_zero_witness:
  "nextDifficultyV5 (replicate 61 1700000000) (replicate 61 1) = None"
  using older_difficulties_divide_by_zero [of "replicate 61 1" 1700000000] by simp

end
