(* ===== verification/Currency.thy ===== *)
theory Currency
  imports CachedObjects Difficulty
begin

text \<open>The rules of the currency, \<open>src/src/cryptonote_core/currency.cpp\<close> and \<open>currency.h\<close>: the parameters
  and their builder, the genesis block, the block reward, the miner transaction, fusion
  transactions, amounts as text, the choice of the difficulty algorithm and the check of the proof
  of work. Sizes are 64-bit words. The slow hashes and the key operations are arguments; a shift by
  the width of its operand, a trap of a division and an index out of range have no value.

  The theory shows that the builder produces a currency with the hard-coded genesis transaction,
  that the reward never takes the generated coins above the money supply, that miner and fusion
  transactions pay out exactly what comes in, that amounts written as text are read back, and what
  a block must satisfy to pass the check of the proof of work.\<close>

section \<open>Definitions\<close>

subsection \<open>Parameters\<close>

record Currency =
  m_maxBlockHeight :: u32
  m_maxBlockBlobSize :: u64
  m_maxTxSize :: u64
  m_publicAddressBase58Prefix :: u64
  m_minedMoneyUnlockWindow :: u32
  m_timestampCheckWindow :: u64
  m_blockFutureTimeLimit :: u64
  m_moneySupply :: u64
  m_emissionSpeedFactor :: u32
  m_genesisBlockReward :: u64
  m_rewardBlocksWindow :: u64
  m_zawyDifficultyBlockIndex :: u32
  m_zawyDifficultyV2 :: u64
  m_zawyDifficultyBlockVersion :: byte
  m_blockGrantedFullRewardZone :: u64
  m_minerTxBlobReservedSize :: u64
  m_numberOfDecimalPlaces :: u64
  m_coin :: u64
  m_mininumFee :: u64
  m_defaultDustThreshold :: u64
  m_difficultyTarget :: u64
  m_difficultyWindow :: u64
  m_difficultyLag :: u64
  m_difficultyCut :: u64
  m_maxBlockSizeInitial :: u64
  m_maxBlockSizeGrowthSpeedNumerator :: u64
  m_maxBlockSizeGrowthSpeedDenominator :: u64
  m_lockedTxAllowedDeltaSeconds :: u64
  m_lockedTxAllowedDeltaBlocks :: u64
  m_mempoolTxLiveTime :: u64
  m_mempoolTxFromAltBlockLiveTime :: u64
  m_numberOfPeriodsToForgetTxDeletedFromPool :: u64
  m_fusionTxMaxSize :: u64
  m_fusionTxMinInputCount :: u64
  m_fusionTxMinInOutCountRatio :: u64
  m_upgradeHeightV2 :: u32
  m_upgradeHeightV3 :: u32
  m_upgradeHeightV4 :: u32
  m_upgradeHeightV5 :: u32
  m_upgradeVotingThreshold :: u32
  m_upgradeVotingWindow :: u32
  m_upgradeWindow :: u32
  m_blocksFileName :: bytes
  m_blockIndexesFileName :: bytes
  m_txPoolFileName :: bytes
  m_testnet :: bool
  m_isBlockexplorer :: bool
  genesisBlockTemplate :: BlockTemplate
  cachedGenesisBlock :: "CachedBlock option"

definition timestampCheckWindow :: "Currency \<Rightarrow> u32 \<Rightarrow> u64" where
  "timestampCheckWindow c blockHeight =
     (if ucast blockHeight \<ge> LWMA_2_DIFFICULTY_BLOCK_INDEX_V3 then BLOCKCHAIN_TIMESTAMP_CHECK_WINDOW_V3
      else m_timestampCheckWindow c)"

definition blockFutureTimeLimit :: "Currency \<Rightarrow> u32 \<Rightarrow> u64" where
  "blockFutureTimeLimit c blockHeight =
     (if ucast blockHeight \<ge> LWMA_2_DIFFICULTY_BLOCK_INDEX_V2 then CRYPTONOTE_BLOCK_FUTURE_TIME_LIMIT_V4
      else if ucast blockHeight \<ge> LWMA_2_DIFFICULTY_BLOCK_INDEX then CRYPTONOTE_BLOCK_FUTURE_TIME_LIMIT_V3
      else m_blockFutureTimeLimit c)"

definition defaultDustThreshold :: "Currency \<Rightarrow> u32 \<Rightarrow> u64" where
  "defaultDustThreshold c height =
     (if height \<ge> DUST_THRESHOLD_V2_HEIGHT then DEFAULT_DUST_THRESHOLD_V2 else m_defaultDustThreshold c)"

definition defaultFusionDustThreshold :: "Currency \<Rightarrow> u32 \<Rightarrow> u64" where
  "defaultFusionDustThreshold c height =
     (if height \<ge> FUSION_DUST_THRESHOLD_HEIGHT_V2 then DEFAULT_DUST_THRESHOLD_V2 else m_defaultDustThreshold c)"

definition minNumberVotingBlocks :: "Currency \<Rightarrow> u32" where
  "minNumberVotingBlocks c = (m_upgradeVotingWindow c * m_upgradeVotingThreshold c + 99) div 100"

definition maxUpgradeDistance :: "Currency \<Rightarrow> u32" where
  "maxUpgradeDistance c = 7 * m_upgradeWindow c"

definition calculateUpgradeHeight :: "Currency \<Rightarrow> u32 \<Rightarrow> u32" where
  "calculateUpgradeHeight c voteCompleteHeight = voteCompleteHeight + m_upgradeWindow c"

definition difficultyWindowByBlockVersion :: "Currency \<Rightarrow> byte \<Rightarrow> u64" where
  "difficultyWindowByBlockVersion c blockMajorVersion =
     (if blockMajorVersion \<ge> BLOCK_MAJOR_VERSION_3 then m_difficultyWindow c
      else if blockMajorVersion = BLOCK_MAJOR_VERSION_2 then DIFFICULTY_WINDOW_V2
      else DIFFICULTY_WINDOW_V1)"

definition difficultyLagByBlockVersion :: "Currency \<Rightarrow> byte \<Rightarrow> u64" where
  "difficultyLagByBlockVersion c blockMajorVersion =
     (if blockMajorVersion \<ge> BLOCK_MAJOR_VERSION_3 then m_difficultyLag c
      else if blockMajorVersion = BLOCK_MAJOR_VERSION_2 then DIFFICULTY_LAG_V2
      else DIFFICULTY_LAG_V1)"

definition difficultyCutByBlockVersion :: "Currency \<Rightarrow> byte \<Rightarrow> u64" where
  "difficultyCutByBlockVersion c blockMajorVersion =
     (if blockMajorVersion \<ge> BLOCK_MAJOR_VERSION_3 then m_difficultyCut c
      else if blockMajorVersion = BLOCK_MAJOR_VERSION_2 then DIFFICULTY_CUT_V2
      else DIFFICULTY_CUT_V1)"

definition difficultyBlocksCountByBlockVersion :: "Currency \<Rightarrow> byte \<Rightarrow> u32 \<Rightarrow> u64" where
  "difficultyBlocksCountByBlockVersion c blockMajorVersion height =
     (if ucast height \<ge> LWMA_2_DIFFICULTY_BLOCK_INDEX then DIFFICULTY_BLOCKS_COUNT_V3
      else difficultyWindowByBlockVersion c blockMajorVersion + difficultyLagByBlockVersion c blockMajorVersion)"

definition blockGrantedFullRewardZoneByBlockVersion :: "Currency \<Rightarrow> byte \<Rightarrow> u64" where
  "blockGrantedFullRewardZoneByBlockVersion c blockMajorVersion =
     (if blockMajorVersion \<ge> BLOCK_MAJOR_VERSION_3 then m_blockGrantedFullRewardZone c
      else if blockMajorVersion = BLOCK_MAJOR_VERSION_2 then CRYPTONOTE_BLOCK_GRANTED_FULL_REWARD_ZONE_V2
      else CRYPTONOTE_BLOCK_GRANTED_FULL_REWARD_ZONE_V1)"

definition upgradeHeight :: "Currency \<Rightarrow> byte \<Rightarrow> u32" where
  "upgradeHeight c v =
     (if v = BLOCK_MAJOR_VERSION_2 then m_upgradeHeightV2 c
      else if v = BLOCK_MAJOR_VERSION_3 then m_upgradeHeightV3 c
      else if v = BLOCK_MAJOR_VERSION_4 then m_upgradeHeightV4 c
      else if v = BLOCK_MAJOR_VERSION_5 then m_upgradeHeightV5 c
      else -1)"

subsection \<open>Block reward and block size\<close>

text \<open>\<open>RewardUndefined\<close> stands for a shift by the full width and for the trap of a division.\<close>

datatype reward_error = BlockTooBig | RewardUndefined

text \<open>The reward and the change of the emission, a signed number kept as a word.\<close>

definition getBlockReward :: "Currency \<Rightarrow> byte \<Rightarrow> u64 \<Rightarrow> u64 \<Rightarrow> u64 \<Rightarrow> u64 \<Rightarrow> reward_error + u64 \<times> i64" where
  "getBlockReward c blockMajorVersion medianSize currentBlockSize alreadyGeneratedCoins fee =
     (if m_emissionSpeedFactor c \<ge> 64 then Inl RewardUndefined
      else
      let baseReward = drop_bit (unat (m_emissionSpeedFactor c)) (m_moneySupply c - alreadyGeneratedCoins);
          baseReward = (if alreadyGeneratedCoins = 0 \<and> m_genesisBlockReward c \<noteq> 0 then m_genesisBlockReward c else baseReward);
          blockGrantedFullRewardZone = blockGrantedFullRewardZoneByBlockVersion c blockMajorVersion;
          medianSize = max medianSize blockGrantedFullRewardZone
      in if currentBlockSize > 2 * medianSize then Inl BlockTooBig
         else
         (case getPenalizedAmount baseReward medianSize currentBlockSize of
            None \<Rightarrow> Inl RewardUndefined
          | Some penalizedBaseReward \<Rightarrow>
              (case (if blockMajorVersion \<ge> BLOCK_MAJOR_VERSION_2 then getPenalizedAmount fee medianSize currentBlockSize
                     else Some fee) of
                 None \<Rightarrow> Inl RewardUndefined
               | Some penalizedFee \<Rightarrow>
                   let emissionChange = penalizedBaseReward - (fee - penalizedFee);
                       reward = penalizedBaseReward + penalizedFee
                   in Inr (reward, emissionChange))))"

definition maxBlockCumulativeSize :: "Currency \<Rightarrow> u64 \<Rightarrow> u64 option" where
  "maxBlockCumulativeSize c height =
     (if m_maxBlockSizeGrowthSpeedDenominator c = 0 then None
      else Some (m_maxBlockSizeInitial c +
                 (height * m_maxBlockSizeGrowthSpeedNumerator c) div m_maxBlockSizeGrowthSpeedDenominator c))"

subsection \<open>The miner transaction\<close>

text \<open>The loop that merges the last two amounts.\<close>

function merge_outs :: "nat \<Rightarrow> u64 list \<Rightarrow> u64 list" where
  "merge_outs maxOuts outAmounts =
     (if maxOuts < length outAmounts \<and> 2 \<le> length outAmounts
      then let n = length outAmounts
           in merge_outs maxOuts (take (n - 1) (outAmounts[n - 2 := outAmounts ! (n - 2) + last outAmounts]))
      else outAmounts)"
  by pat_completeness auto
termination
  by (relation "measure (\<lambda>(_, outAmounts). length outAmounts)") auto

declare merge_outs.simps [simp del]

text \<open>The loop over the amounts: whether it ran to its end, the outputs and their sum.\<close>

fun miner_outs ::
  "key_operations \<Rightarrow> AccountPublicAddress \<Rightarrow> secret_key \<Rightarrow> u64 \<Rightarrow> u64 list \<Rightarrow> TransactionOutput list \<Rightarrow> u64 \<Rightarrow>
   bool \<times> TransactionOutput list \<times> u64" where
  "miner_outs ops minerAddress txsec no [] outs summaryAmounts = (True, outs, summaryAmounts)"
| "miner_outs ops minerAddress txsec no (amount # amounts) outs summaryAmounts =
     (case generate_key_derivation ops (viewPublicKey minerAddress) txsec of
        None \<Rightarrow> (False, outs, summaryAmounts)
      | Some derivation \<Rightarrow>
          (case derive_public_key ops derivation no (spendPublicKey minerAddress) of
             None \<Rightarrow> (False, outs, summaryAmounts)
           | Some outEphemeralPubKey \<Rightarrow>
               miner_outs ops minerAddress txsec (no + 1) amounts
                 (outs @ [\<lparr> out_amount = amount, out_target = KeyOutput outEphemeralPubKey \<rparr>])
                 (summaryAmounts + amount)))"

text \<open>\<open>txkey\<close> is the pair that \<open>generateKeyPair\<close> returns. The result is the returned value and the
  transaction, which a failure leaves as it is at that point; a reward without a value has no result.\<close>

definition constructMinerTx ::
  "key_operations \<Rightarrow> KeyPair \<Rightarrow> Currency \<Rightarrow> byte \<Rightarrow> u32 \<Rightarrow> u64 \<Rightarrow> u64 \<Rightarrow> u64 \<Rightarrow> u64 \<Rightarrow> AccountPublicAddress \<Rightarrow>
   Transaction \<Rightarrow> bytes \<Rightarrow> u64 \<Rightarrow> (bool \<times> Transaction) option" where
  "constructMinerTx ops txkey c blockMajorVersion height medianSize alreadyGeneratedCoins currentBlockSize fee
     minerAddress tx extraNonce maxOuts =
     (let tx = tx \<lparr> inputs := [], outputs := [], extra := [] \<rparr>;
          tx = tx \<lparr> extra := snd (addTransactionPublicKeyToExtra (extra tx) (kp_publicKey txkey)) \<rparr>;
          (r, ex) = (if extraNonce \<noteq> [] then addExtraNonceToTransactionExtra (extra tx) extraNonce else (True, extra tx));
          tx = tx \<lparr> extra := ex \<rparr>
      in if \<not> r then Some (False, tx)
         else
         (case getBlockReward c blockMajorVersion medianSize currentBlockSize alreadyGeneratedCoins fee of
            Inl RewardUndefined \<Rightarrow> None
          | Inl BlockTooBig \<Rightarrow> Some (False, tx)
          | Inr (blockReward, emissionChange) \<Rightarrow>
              let outAmounts = map call_amount (decompose_amount_into_digits blockReward (defaultDustThreshold c height))
              in if \<not> (1 \<le> maxOuts) then Some (False, tx)
                 else
                 let outAmounts = merge_outs (unat maxOuts) outAmounts;
                     (r, outs, summaryAmounts) = miner_outs ops minerAddress (kp_secretKey txkey) 0 outAmounts (outputs tx) 0;
                     tx = tx \<lparr> outputs := outs \<rparr>
                 in if \<not> r then Some (False, tx)
                    else if summaryAmounts \<noteq> blockReward then Some (False, tx)
                    else Some (True, tx \<lparr> tx_version := CURRENT_TRANSACTION_VERSION,
                                         unlockTime := ucast (height + m_minedMoneyUnlockWindow c),
                                         inputs := inputs tx @ [BaseInput height] \<rparr>)))"

subsection \<open>Fusion transactions\<close>

definition isFusionTransaction_amounts :: "Currency \<Rightarrow> u64 list \<Rightarrow> u64 list \<Rightarrow> u64 \<Rightarrow> u32 \<Rightarrow> bool" where
  "isFusionTransaction_amounts c inputsAmounts outputsAmounts tx_size height =
     (if tx_size > m_fusionTxMaxSize c then False
      else if of_nat (length inputsAmounts) < m_fusionTxMinInputCount c then False
      else if of_nat (length inputsAmounts) < of_nat (length outputsAmounts) * m_fusionTxMinInOutCountRatio c then False
      else if \<exists>amount \<in> set inputsAmounts. amount < defaultFusionDustThreshold c height then False
      else let inputAmount = foldl (+) 0 inputsAmounts;
               expectedOutputsAmounts = sort (decomposeAmount inputAmount (defaultFusionDustThreshold c height) [])
           in expectedOutputsAmounts = outputsAmounts)"

definition isFusionTransaction_sized :: "Currency \<Rightarrow> Transaction \<Rightarrow> u64 \<Rightarrow> u32 \<Rightarrow> bool" where
  "isFusionTransaction_sized c tx tx_size height =
     isFusionTransaction_amounts c (getInputsAmounts tx) (map out_amount (outputs tx)) tx_size height"

definition isFusionTransaction :: "Currency \<Rightarrow> Transaction \<Rightarrow> u32 \<Rightarrow> bool" where
  "isFusionTransaction c tx height =
     isFusionTransaction_sized c tx (snd (getObjectBinarySize (write_Transaction tx))) height"

definition PRETTY_AMOUNTS :: "u64 list" where
  "PRETTY_AMOUNTS =
    [1, 2, 3, 4, 5, 6, 7, 8, 9,
     10, 20, 30, 40, 50, 60, 70, 80, 90,
     100, 200, 300, 400, 500, 600, 700, 800, 900,
     1000, 2000, 3000, 4000, 5000, 6000, 7000, 8000, 9000,
     10000, 20000, 30000, 40000, 50000, 60000, 70000, 80000, 90000,
     100000, 200000, 300000, 400000, 500000, 600000, 700000, 800000, 900000,
     1000000, 2000000, 3000000, 4000000, 5000000, 6000000, 7000000, 8000000, 9000000,
     10000000, 20000000, 30000000, 40000000, 50000000, 60000000, 70000000, 80000000, 90000000,
     100000000, 200000000, 300000000, 400000000, 500000000, 600000000, 700000000, 800000000, 900000000,
     1000000000, 2000000000, 3000000000, 4000000000, 5000000000, 6000000000, 7000000000, 8000000000, 9000000000,
     10000000000, 20000000000, 30000000000, 40000000000, 50000000000, 60000000000, 70000000000, 80000000000, 90000000000,
     100000000000, 200000000000, 300000000000, 400000000000, 500000000000, 600000000000, 700000000000, 800000000000, 900000000000,
     1000000000000, 2000000000000, 3000000000000, 4000000000000, 5000000000000, 6000000000000, 7000000000000, 8000000000000, 9000000000000,
     10000000000000, 20000000000000, 30000000000000, 40000000000000, 50000000000000, 60000000000000, 70000000000000, 80000000000000, 90000000000000,
     100000000000000, 200000000000000, 300000000000000, 400000000000000, 500000000000000, 600000000000000, 700000000000000, 800000000000000, 900000000000000,
     1000000000000000, 2000000000000000, 3000000000000000, 4000000000000000, 5000000000000000, 6000000000000000, 7000000000000000, 8000000000000000, 9000000000000000,
     10000000000000000, 20000000000000000, 30000000000000000, 40000000000000000, 50000000000000000, 60000000000000000, 70000000000000000, 80000000000000000, 90000000000000000,
     100000000000000000, 200000000000000000, 300000000000000000, 400000000000000000, 500000000000000000, 600000000000000000, 700000000000000000, 800000000000000000, 900000000000000000,
     1000000000000000000, 2000000000000000000, 3000000000000000000, 4000000000000000000, 5000000000000000000, 6000000000000000000, 7000000000000000000, 8000000000000000000, 9000000000000000000,
     10000000000000000000]"

text \<open>The position of the first element of an ascending list that is not less.\<close>

definition lower_bound :: "u64 list \<Rightarrow> u64 \<Rightarrow> nat" where
  "lower_bound xs x = length (takeWhile (\<lambda>y. y < x) xs)"

text \<open>The power of ten, if the amount is applicable.\<close>

definition isAmountApplicableInFusionTransactionInput :: "Currency \<Rightarrow> u64 \<Rightarrow> u64 \<Rightarrow> u32 \<Rightarrow> byte option" where
  "isAmountApplicableInFusionTransactionInput c amount threshold height =
     (if amount \<ge> threshold then None
      else if amount < defaultFusionDustThreshold c height then None
      else let it = lower_bound PRETTY_AMOUNTS amount
           in if it = length PRETTY_AMOUNTS \<or> amount \<noteq> PRETTY_AMOUNTS ! it then None
              else Some (of_nat (it div 9)))"

definition getApproximateMaximumInputCount :: "u64 \<Rightarrow> u64 \<Rightarrow> u64 \<Rightarrow> u64 option" where
  "getApproximateMaximumInputCount transactionSize outputCount mixinCount =
     (let KEY_IMAGE_SIZE = 32; OUTPUT_KEY_SIZE = 32; AMOUNT_SIZE = 8 + 2; GLOBAL_INDEXES_VECTOR_SIZE_SIZE = 1;
          GLOBAL_INDEXES_INITIAL_VALUE_SIZE = 4; GLOBAL_INDEXES_DIFFERENCE_SIZE = 4; SIGNATURE_SIZE = 64;
          EXTRA_TAG_SIZE = 1; INPUT_TAG_SIZE = 1; OUTPUT_TAG_SIZE = 1; PUBLIC_KEY_SIZE = 32;
          TRANSACTION_VERSION_SIZE = 1; TRANSACTION_UNLOCK_TIME_SIZE = 8;
          outputsSize = outputCount * (OUTPUT_TAG_SIZE + OUTPUT_KEY_SIZE + AMOUNT_SIZE);
          headerSize = TRANSACTION_VERSION_SIZE + TRANSACTION_UNLOCK_TIME_SIZE + EXTRA_TAG_SIZE + PUBLIC_KEY_SIZE;
          inputSize = INPUT_TAG_SIZE + AMOUNT_SIZE + KEY_IMAGE_SIZE + SIGNATURE_SIZE + GLOBAL_INDEXES_VECTOR_SIZE_SIZE +
            GLOBAL_INDEXES_INITIAL_VALUE_SIZE + mixinCount * (GLOBAL_INDEXES_DIFFERENCE_SIZE + SIGNATURE_SIZE)
      in if inputSize = 0 then None else Some ((transactionSize - headerSize - outputsSize) div inputSize))"

subsection \<open>Addresses and amounts as text\<close>

definition accountAddressAsString :: "Currency \<Rightarrow> AccountPublicAddress \<Rightarrow> bytes option" where
  "accountAddressAsString c accountPublicAddress = getAccountAddressAsStr (m_publicAddressBase58Prefix c) accountPublicAddress"

definition Currency_parseAccountAddressString :: "(public_key \<Rightarrow> bool) \<Rightarrow> Currency \<Rightarrow> bytes \<Rightarrow> AccountPublicAddress option" where
  "Currency_parseAccountAddressString check_key c str =
     (case parseAccountAddressString check_key str of
        None \<Rightarrow> None
      | Some (prefix, addr) \<Rightarrow> if prefix \<noteq> m_publicAddressBase58Prefix c then None else Some addr)"

text \<open>The character \<open>0\<close> and the point.\<close>

abbreviation zero_char :: byte where "zero_char \<equiv> 48"

abbreviation point_char :: byte where "point_char \<equiv> 46"

definition formatAmount :: "Currency \<Rightarrow> u64 \<Rightarrow> bytes" where
  "formatAmount c amount =
     (let s = to_string (unat amount);
          places = unat (m_numberOfDecimalPlaces c);
          s = (if length s < places + 1 then replicate (places + 1 - length s) zero_char @ s else s)
      in take (length s - places) s @ [point_char] @ drop (length s - places) s)"

text \<open>The absolute value of the smallest integer has no value.\<close>

definition formatAmount_signed :: "Currency \<Rightarrow> i64 \<Rightarrow> bytes option" where
  "formatAmount_signed c amount =
     (if sint amount = - (2 ^ 63) then None
      else let s = formatAmount c (word_of_int \<bar>sint amount\<bar>)
           in Some (if sint amount < 0 then bytes_of ''-'' @ s else s))"

text \<open>\<open>boost::algorithm::trim\<close>\<close>

definition boost_trim :: "bytes \<Rightarrow> bytes" where
  "boost_trim s = rev (dropWhile isspace (rev (dropWhile isspace s)))"

text \<open>Extraction of an unsigned number from a stream of digits: it fails for a number that does not fit.\<close>

definition fromString_u64 :: "bytes \<Rightarrow> u64 option" where
  "fromString_u64 digits = (if dec_value digits < 2 ^ 64 then Some (of_nat (dec_value digits)) else None)"

fun strip_zeros :: "nat \<Rightarrow> bytes \<Rightarrow> nat \<Rightarrow> bytes \<times> nat" where
  "strip_zeros places s 0 = (s, 0)"
| "strip_zeros places s (Suc fractionSize) =
     (if places < Suc fractionSize \<and> s \<noteq> [] \<and> last s = zero_char then strip_zeros places (butlast s) fractionSize
      else (s, Suc fractionSize))"

definition parseAmount :: "Currency \<Rightarrow> bytes \<Rightarrow> u64 option" where
  "parseAmount c str =
     (let strAmount = boost_trim str;
          places = unat (m_numberOfDecimalPlaces c);
          point = find_char point_char strAmount;
          (ok, strAmount, fractionSize) =
            (case point of
               Some pointIndex \<Rightarrow>
                 let (s, fractionSize) = strip_zeros places strAmount (length strAmount - pointIndex - 1)
                 in if places < fractionSize then (False, s, fractionSize)
                    else (True, take pointIndex s @ drop (pointIndex + 1) s, fractionSize)
             | None \<Rightarrow> (True, strAmount, 0))
      in if \<not> ok then None
         else if strAmount = [] then None
         else if \<not> list_all isdigit strAmount then None
         else fromString_u64 (if fractionSize < places then strAmount @ replicate (places - fractionSize) zero_char
                              else strAmount))"

subsection \<open>The builder and the genesis block\<close>

datatype builder_error =
    InvalidArgument string
  | FailedToInitialize

definition CurrencyBuilder_emissionSpeedFactor :: "u32 \<Rightarrow> Currency \<Rightarrow> builder_error + Currency" where
  "CurrencyBuilder_emissionSpeedFactor val c =
     (if val = 0 \<or> val > 8 * 8 then Inl (InvalidArgument ''val at emissionSpeedFactor()'')
      else Inr (c \<lparr> m_emissionSpeedFactor := val \<rparr>))"

definition CurrencyBuilder_numberOfDecimalPlaces :: "u64 \<Rightarrow> Currency \<Rightarrow> Currency" where
  "CurrencyBuilder_numberOfDecimalPlaces val c =
     c \<lparr> m_numberOfDecimalPlaces := val, m_coin := ((\<lambda>coin. coin * 10) ^^ unat val) 1 \<rparr>"

definition CurrencyBuilder_difficultyWindow :: "u64 \<Rightarrow> Currency \<Rightarrow> builder_error + Currency" where
  "CurrencyBuilder_difficultyWindow val c =
     (if val < 2 then Inl (InvalidArgument ''val at difficultyWindow()'')
      else Inr (c \<lparr> m_difficultyWindow := val \<rparr>))"

definition CurrencyBuilder_upgradeVotingThreshold :: "u32 \<Rightarrow> Currency \<Rightarrow> builder_error + Currency" where
  "CurrencyBuilder_upgradeVotingThreshold val c =
     (if val = 0 \<or> val > 100 then Inl (InvalidArgument ''val at upgradeVotingThreshold()'')
      else Inr (c \<lparr> m_upgradeVotingThreshold := val \<rparr>))"

definition CurrencyBuilder_upgradeWindow :: "u32 \<Rightarrow> Currency \<Rightarrow> builder_error + Currency" where
  "CurrencyBuilder_upgradeWindow val c =
     (if val = 0 then Inl (InvalidArgument ''val at upgradeWindow()'')
      else Inr (c \<lparr> m_upgradeWindow := val \<rparr>))"

text \<open>The constructor of the builder; the fields of the currency have no values before it, those of the
  argument stand for them. The other setters are assignments.\<close>

definition CurrencyBuilder_init :: "Currency \<Rightarrow> builder_error + Currency" where
  "CurrencyBuilder_init c =
     (let c = c \<lparr> m_maxBlockHeight := CRYPTONOTE_MAX_BLOCK_NUMBER,
            m_maxBlockBlobSize := CRYPTONOTE_MAX_BLOCK_BLOB_SIZE,
            m_maxTxSize := CRYPTONOTE_MAX_TX_SIZE,
            m_publicAddressBase58Prefix := CRYPTONOTE_PUBLIC_ADDRESS_BASE58_PREFIX,
            m_minedMoneyUnlockWindow := CRYPTONOTE_MINED_MONEY_UNLOCK_WINDOW,
            m_timestampCheckWindow := BLOCKCHAIN_TIMESTAMP_CHECK_WINDOW,
            m_blockFutureTimeLimit := CRYPTONOTE_BLOCK_FUTURE_TIME_LIMIT,
            m_moneySupply := MONEY_SUPPLY \<rparr> in
      bindE (CurrencyBuilder_emissionSpeedFactor EMISSION_SPEED_FACTOR c) (\<lambda>c.
      let c = c \<lparr> m_genesisBlockReward := GENESIS_BLOCK_REWARD,
            m_rewardBlocksWindow := CRYPTONOTE_REWARD_BLOCKS_WINDOW,
            m_zawyDifficultyBlockIndex := ZAWY_DIFFICULTY_BLOCK_INDEX,
            m_zawyDifficultyV2 := ZAWY_DIFFICULTY_V2,
            m_zawyDifficultyBlockVersion := ZAWY_DIFFICULTY_DIFFICULTY_BLOCK_VERSION,
            m_blockGrantedFullRewardZone := CRYPTONOTE_BLOCK_GRANTED_FULL_REWARD_ZONE,
            m_minerTxBlobReservedSize := CRYPTONOTE_COINBASE_BLOB_RESERVED_SIZE \<rparr>;
          c = CurrencyBuilder_numberOfDecimalPlaces CRYPTONOTE_DISPLAY_DECIMAL_POINT c;
          c = c \<lparr> m_mininumFee := MINIMUM_FEE,
            m_defaultDustThreshold := DEFAULT_DUST_THRESHOLD,
            m_difficultyTarget := DIFFICULTY_TARGET \<rparr> in
      bindE (CurrencyBuilder_difficultyWindow DIFFICULTY_WINDOW c) (\<lambda>c.
      let c = c \<lparr> m_difficultyLag := DIFFICULTY_LAG,
            m_difficultyCut := DIFFICULTY_CUT,
            m_maxBlockSizeInitial := MAX_BLOCK_SIZE_INITIAL,
            m_maxBlockSizeGrowthSpeedNumerator := MAX_BLOCK_SIZE_GROWTH_SPEED_NUMERATOR,
            m_maxBlockSizeGrowthSpeedDenominator := MAX_BLOCK_SIZE_GROWTH_SPEED_DENOMINATOR,
            m_lockedTxAllowedDeltaSeconds := CRYPTONOTE_LOCKED_TX_ALLOWED_DELTA_SECONDS,
            m_lockedTxAllowedDeltaBlocks := CRYPTONOTE_LOCKED_TX_ALLOWED_DELTA_BLOCKS,
            m_mempoolTxLiveTime := CRYPTONOTE_MEMPOOL_TX_LIVETIME,
            m_mempoolTxFromAltBlockLiveTime := CRYPTONOTE_MEMPOOL_TX_FROM_ALT_BLOCK_LIVETIME,
            m_numberOfPeriodsToForgetTxDeletedFromPool := CRYPTONOTE_NUMBER_OF_PERIODS_TO_FORGET_TX_DELETED_FROM_POOL,
            m_fusionTxMaxSize := FUSION_TX_MAX_SIZE,
            m_fusionTxMinInputCount := FUSION_TX_MIN_INPUT_COUNT,
            m_fusionTxMinInOutCountRatio := FUSION_TX_MIN_IN_OUT_COUNT_RATIO,
            m_upgradeHeightV2 := UPGRADE_HEIGHT_V2,
            m_upgradeHeightV3 := UPGRADE_HEIGHT_V3,
            m_upgradeHeightV4 := UPGRADE_HEIGHT_V4,
            m_upgradeHeightV5 := UPGRADE_HEIGHT_V5 \<rparr> in
      bindE (CurrencyBuilder_upgradeVotingThreshold UPGRADE_VOTING_THRESHOLD c) (\<lambda>c.
      bindE (CurrencyBuilder_upgradeWindow UPGRADE_WINDOW (c \<lparr> m_upgradeVotingWindow := UPGRADE_VOTING_WINDOW \<rparr>)) (\<lambda>c.
      Inr (c \<lparr> m_blocksFileName := CRYPTONOTE_BLOCKS_FILENAME,
            m_blockIndexesFileName := CRYPTONOTE_BLOCKINDEXES_FILENAME,
            m_txPoolFileName := CRYPTONOTE_POOLDATA_FILENAME,
            m_isBlockexplorer := False,
            m_testnet := False,
            cachedGenesisBlock := None \<rparr>))))))"

definition BLOCK_MINOR_VERSION_0 :: byte where
  "BLOCK_MINOR_VERSION_0 = 0"

text \<open>The block with all members initialised with zero.\<close>

definition value_initialized_block :: BlockTemplate where
  "value_initialized_block =
     \<lparr> majorVersion = 0, minorVersion = 0, nonce = 0, timestamp = 0, previousBlockHash = NULL_HASH,
       parentBlock = \<lparr> pb_majorVersion = 0, pb_minorVersion = 0, pb_previousBlockHash = NULL_HASH,
         pb_transactionCount = 0, baseTransactionBranch = [],
         pb_baseTransaction = \<lparr> tx_version = 0, unlockTime = 0, inputs = [], outputs = [], extra = [] \<rparr>,
         blockchainBranch = [] \<rparr>,
       baseTransaction = \<lparr> tx_version = 0, unlockTime = 0, inputs = [], outputs = [], extra = [], signatures = [] \<rparr>,
       transactionHashes = [] \<rparr>"

text \<open>Whether the block was generated, and the currency.\<close>

definition generateGenesisBlock :: "Currency \<Rightarrow> bool \<times> Currency" where
  "generateGenesisBlock c =
     (let c = c \<lparr> genesisBlockTemplate := value_initialized_block \<rparr>;
          (r, minerTxBlob) = fromHex_append GENESIS_COINBASE_TX_HEX []
      in case (if r then fromBinaryArray read_Transaction minerTxBlob else Inl FailedToUnpack) of
           Inl _ \<Rightarrow> (False, c)
         | Inr tx \<Rightarrow>
             let b = value_initialized_block \<lparr> baseTransaction := tx, majorVersion := BLOCK_MAJOR_VERSION_1,
                       minorVersion := BLOCK_MINOR_VERSION_0, timestamp := 0, nonce := 70 \<rparr>;
                 b = (if m_testnet c then b \<lparr> nonce := nonce b + 1 \<rparr> else b)
             in (True, c \<lparr> genesisBlockTemplate := b, cachedGenesisBlock := Some (CachedBlock_init b) \<rparr>))"

definition Currency_init :: "Currency \<Rightarrow> bool \<times> Currency" where
  "Currency_init c =
     (case generateGenesisBlock c of
        (False, c) \<Rightarrow> (False, c)
      | (True, c) \<Rightarrow>
          (case cachedGenesisBlock c of
             None \<Rightarrow> (False, c)
           | Some cb \<Rightarrow>
               (case getBlockHash cb of
                  (Inl _, cb) \<Rightarrow> (False, c \<lparr> cachedGenesisBlock := Some cb \<rparr>)
                | (Inr _, cb) \<Rightarrow>
                    let c = c \<lparr> cachedGenesisBlock := Some cb \<rparr>
                    in (True, if m_testnet c
                              then c \<lparr> m_upgradeHeightV2 := 0, m_upgradeHeightV3 := -1,
                                       m_blocksFileName := bytes_of ''testnet_'' @ m_blocksFileName c,
                                       m_blockIndexesFileName := bytes_of ''testnet_'' @ m_blockIndexesFileName c,
                                       m_txPoolFileName := bytes_of ''testnet_'' @ m_txPoolFileName c \<rparr>
                              else c))))"

text \<open>The move constructor lists every member but \<open>m_mempoolTxFromAltBlockLiveTime\<close>, which keeps whatever the
  memory holds: the argument \<open>garbage\<close>.\<close>

definition Currency_move :: "u64 \<Rightarrow> Currency \<Rightarrow> Currency" where
  "Currency_move garbage c =
     c \<lparr> m_mempoolTxFromAltBlockLiveTime := garbage,
         cachedGenesisBlock := Some (CachedBlock_init (genesisBlockTemplate c)) \<rparr>"

definition CurrencyBuilder_currency :: "u64 \<Rightarrow> Currency \<Rightarrow> builder_error + Currency" where
  "CurrencyBuilder_currency garbage c =
     (case Currency_init c of
        (False, _) \<Rightarrow> Inl FailedToInitialize
      | (True, c) \<Rightarrow> Inr (Currency_move garbage c))"

text \<open>The assertions that the key operations succeed are left out of a release build; a failure then leaves
  the zero key. \<open>txkey\<close> is the generated pair. Without targets the division has no value.\<close>

fun genesis_outs :: "key_operations \<Rightarrow> secret_key \<Rightarrow> u64 \<Rightarrow> u64 \<Rightarrow> u64 \<Rightarrow> AccountPublicAddress list \<Rightarrow> TransactionOutput list" where
  "genesis_outs ops txsec first_target_amount target_amount i [] = []"
| "genesis_outs ops txsec first_target_amount target_amount i (t # targets) =
     (let derivation = (case generate_key_derivation ops (viewPublicKey t) txsec of Some d \<Rightarrow> d | None \<Rightarrow> NULL_HASH);
          key = (case derive_public_key ops derivation i (spendPublicKey t) of Some k \<Rightarrow> k | None \<Rightarrow> NULL_PUBLIC_KEY)
      in \<lparr> out_amount = (if i = 0 then first_target_amount else target_amount), out_target = KeyOutput key \<rparr> #
         genesis_outs ops txsec first_target_amount target_amount (i + 1) targets)"

definition generateGenesisTransaction_targets ::
  "key_operations \<Rightarrow> KeyPair \<Rightarrow> Currency \<Rightarrow> AccountPublicAddress list \<Rightarrow> Transaction option" where
  "generateGenesisTransaction_targets ops txkey c targets =
     (if targets = [] then None
      else
      let block_reward = m_genesisBlockReward c;
          n = of_nat (length targets);
          target_amount = block_reward div n;
          first_target_amount = target_amount + block_reward mod n
      in Some \<lparr> tx_version = CURRENT_TRANSACTION_VERSION, unlockTime = ucast (m_minedMoneyUnlockWindow c),
                inputs = [BaseInput 0],
                outputs = genesis_outs ops (kp_secretKey txkey) first_target_amount target_amount 0 targets,
                extra = snd (addTransactionPublicKeyToExtra [] (kp_publicKey txkey)), signatures = [] \<rparr>)"

definition generateGenesisTransaction :: "key_operations \<Rightarrow> KeyPair \<Rightarrow> Currency \<Rightarrow> Transaction \<Rightarrow> Transaction option" where
  "generateGenesisTransaction ops txkey c tx =
     map_option snd (constructMinerTx ops txkey c 1 0 0 0 0 0
       \<lparr> spendPublicKey = NULL_PUBLIC_KEY, viewPublicKey = NULL_PUBLIC_KEY \<rparr> tx [] 1)"

section \<open>The block reward\<close>

definition wf_emission :: "Currency \<Rightarrow> bool" where
  "wf_emission c \<longleftrightarrow> m_emissionSpeedFactor c < 64 \<and> m_genesisBlockReward c \<le> m_moneySupply c"

definition effective_median :: "Currency \<Rightarrow> byte \<Rightarrow> u64 \<Rightarrow> u64" where
  "effective_median c v medianSize = max medianSize (blockGrantedFullRewardZoneByBlockVersion c v)"

lemma penalized_le:
  assumes "unat med < 2 ^ 32" "unat cur \<le> 2 * unat med"
  shows "\<exists>r. getPenalizedAmount amount med cur = Some r \<and> r \<le> amount"
proof -
  obtain r where r: "getPenalizedAmount amount med cur = Some r"
    "unat r = (if cur \<le> med then unat amount
      else unat amount * (unat cur * (2 * unat med - unat cur)) div (unat med * unat med))"
    "med < cur \<and> amount \<noteq> 0 \<longrightarrow> r < amount"
    using getPenalizedAmount_exact [OF assms, of amount] by blast
  have "r \<le> amount"
  proof (cases "med < cur \<and> amount \<noteq> 0")
    case True
    then show ?thesis using r(3) by simp
  next
    case False
    then have "unat r = unat amount" using r(2) by (cases "amount = 0") (auto simp: not_less)
    then show ?thesis by (simp add: word_le_unat)
  qed
  with r(1) show ?thesis by blast
qed

text \<open>The reward consists of a part of the base reward and a part of the fee.\<close>

lemma getBlockReward_parts:
  assumes "wf_emission c" "coins \<le> m_moneySupply c" "unat (effective_median c v med) < 2 ^ 32"
    "cur \<le> 2 * effective_median c v med"
  obtains pb pf where "getBlockReward c v med cur coins fee = Inr (pb + pf, pb - (fee - pf))"
    "unat pb \<le> unat (m_moneySupply c) - unat coins" "pf \<le> fee"
proof -
  define m where "m = effective_median c v med"
  define base where "base = (if coins = 0 \<and> m_genesisBlockReward c \<noteq> 0 then m_genesisBlockReward c
    else drop_bit (unat (m_emissionSpeedFactor c)) (m_moneySupply c - coins))"
  have m2: "unat (2 * m) = 2 * unat m" using assms(3) by (subst unat_times_small) (simp_all add: m_def)
  have cur: "unat cur \<le> 2 * unat m" using assms(4) m2 by (simp add: m_def word_le_unat)
  have base: "unat base \<le> unat (m_moneySupply c) - unat coins"
  proof (cases "coins = 0 \<and> m_genesisBlockReward c \<noteq> 0")
    case True
    then show ?thesis using assms(1) by (simp add: base_def wf_emission_def word_le_unat)
  next
    case False
    then have "base = drop_bit (unat (m_emissionSpeedFactor c)) (m_moneySupply c - coins)"
      unfolding base_def by (rule if_not_P)
    then have "unat base = (unat (m_moneySupply c) - unat coins) div 2 ^ unat (m_emissionSpeedFactor c)"
      using assms(2) by (simp add: unat_drop_bit unat_minus_small)
    then show ?thesis by simp
  qed
  obtain pb where pb: "getPenalizedAmount base m cur = Some pb" "pb \<le> base"
    using penalized_le [of m cur base] assms(3) cur by (auto simp: m_def)
  obtain pf where pf: "(if v \<ge> BLOCK_MAJOR_VERSION_2 then getPenalizedAmount fee m cur else Some fee) = Some pf" "pf \<le> fee"
    using penalized_le [of m cur fee] assms(3) cur by (cases "v \<ge> BLOCK_MAJOR_VERSION_2") (auto simp: m_def)
  have "getBlockReward c v med cur coins fee = Inr (pb + pf, pb - (fee - pf))"
    unfolding getBlockReward_def Let_def effective_median_def [symmetric] m_def [symmetric] base_def [symmetric] pb(1) pf(1)
    using assms(1,4) by (simp add: wf_emission_def not_le not_less m_def)
  then show thesis using base pb(2) pf(2) by (intro that [of pb pf]) (simp_all add: word_le_unat)
qed

lemma reward_step:
  assumes "wf_emission c" "coins \<le> m_moneySupply c" "unat (effective_median c v med) < 2 ^ 32" "fee \<le> coins"
    "getBlockReward c v med cur coins fee = Inr (reward, em)"
  shows "em = reward - fee" "coins + em \<le> m_moneySupply c"
    "unat reward \<le> unat fee + (unat (m_moneySupply c) - unat coins)"
proof -
  have "cur \<le> 2 * effective_median c v med"
    using assms(5) by (auto simp: getBlockReward_def Let_def effective_median_def not_less split: if_splits)
  then obtain pb pf where r: "reward = pb + pf" "em = pb - (fee - pf)"
    and pb: "unat pb \<le> unat (m_moneySupply c) - unat coins" and pf: "pf \<le> fee"
    by (rule getBlockReward_parts [OF assms(1-3), of cur fee]) (use assms(5) in simp)
  show "em = reward - fee" by (simp add: r)
  have le: "unat coins \<le> unat (m_moneySupply c)" "unat pf \<le> unat fee" "unat fee \<le> unat coins"
    using assms(2,4) pf by (simp_all add: word_le_unat)
  have lt: "unat (m_moneySupply c) < 2 ^ 64" using unat_lt_64 [of "m_moneySupply c"] by simp
  have "unat reward = unat pb + unat pf" unfolding r by (rule unat_plus_small) (use pb le lt in simp)
  then show "unat reward \<le> unat fee + (unat (m_moneySupply c) - unat coins)" using pb le by simp
  have f: "unat (fee - pf) = unat fee - unat pf" using pf by (rule unat_minus_small)
  have c1: "unat (coins - (fee - pf)) = unat coins - (unat fee - unat pf)"
    unfolding f [symmetric] by (rule unat_minus_small) (use le in \<open>simp add: word_le_unat f\<close>)
  have c2: "coins + em = (coins - (fee - pf)) + pb" by (simp add: r)
  have c3: "unat ((coins - (fee - pf)) + pb) = unat (coins - (fee - pf)) + unat pb"
    by (rule unat_plus_small) (use c1 pb le lt in simp)
  show "coins + em \<le> m_moneySupply c"
    unfolding c2 word_le_unat c3 c1 using pb le by linarith
qed

text \<open>The coins generated by a chain of blocks: each block adds its emission change. Fees are paid
  from coins that exist.\<close>

inductive generated :: "Currency \<Rightarrow> u64 \<Rightarrow> bool" for c where
  start: "generated c 0"
| block: "generated c coins \<Longrightarrow> fee \<le> coins \<Longrightarrow> unat (effective_median c v med) < 2 ^ 32 \<Longrightarrow>
    getBlockReward c v med cur coins fee = Inr (reward, em) \<Longrightarrow> generated c (coins + em)"

lemma generated_bounded: "generated c coins \<Longrightarrow> wf_emission c \<Longrightarrow> coins \<le> m_moneySupply c"
  by (induction rule: generated.induct) (auto intro: reward_step(2))

section \<open>The miner transaction\<close>

lemma merge_outs_correct:
  assumes "1 \<le> m" "nat_sum xs < 2 ^ 64"
  shows "length (merge_outs m xs) = min m (length xs) \<and> nat_sum (merge_outs m xs) = nat_sum xs"
  using assms
proof (induction m xs rule: merge_outs.induct)
  case (1 m xs)
  show ?case
  proof (cases "m < length xs \<and> 2 \<le> length xs")
    case True
    obtain ys a b where xs: "xs = ys @ [a, b]"
    proof (cases xs rule: rev_cases)
      case (snoc zs b)
      then show thesis using True that by (cases zs rule: rev_cases) auto
    qed (use True in simp)
    have step: "take (length xs - 1) (xs[length xs - 2 := xs ! (length xs - 2) + last xs]) = ys @ [a + b]"
      by (simp add: xs list_update_append)
    have "unat (a + b) = unat a + unat b"
      by (rule unat_plus_small) (use 1(3) in \<open>simp add: xs\<close>)
    then have s: "nat_sum (ys @ [a + b]) = nat_sum xs" by (simp add: xs)
    have "merge_outs m xs = merge_outs m (ys @ [a + b])"
      using True by (subst merge_outs.simps) (simp add: step [simplified])
    moreover have "length (merge_outs m (ys @ [a + b])) = min m (length (ys @ [a + b])) \<and>
        nat_sum (merge_outs m (ys @ [a + b])) = nat_sum (ys @ [a + b])"
      using 1(1) [OF True refl] 1(2,3) s unfolding step by simp
    ultimately show ?thesis using s True by (simp add: xs)
  next
    case False
    then have "length xs \<le> m" using 1(2) by auto
    then show ?thesis using False by (subst (1 2) merge_outs.simps) auto
  qed
qed

lemma miner_outs_success:
  assumes "generate_key_derivation ops (viewPublicKey adr) txsec = Some d"
    "\<And>no. derive_public_key ops d no (spendPublicKey adr) \<noteq> None"
  shows "\<exists>outs'. miner_outs ops adr txsec no amounts outs s = (True, outs', s + sum_list amounts) \<and>
    map out_amount outs' = map out_amount outs @ amounts"
  using assms
proof (induction amounts arbitrary: no outs s)
  case (Cons a amounts)
  obtain k where "derive_public_key ops d no (spendPublicKey adr) = Some k" using Cons.prems by blast
  then show ?case
    using Cons.IH [OF Cons.prems, of "no + 1" "outs @ [\<lparr> out_amount = a, out_target = KeyOutput k \<rparr>]" "s + a"] Cons.prems
    by (auto simp: add.assoc)
qed simp

lemma unat_sum_list: "nat_sum xs < 2 ^ 64 \<Longrightarrow> unat (sum_list xs) = nat_sum xs"
  by (induction xs) (simp_all add: unat_plus_small)

section \<open>Fusion transactions\<close>

lemma nat_sum_sort: "nat_sum (sort xs) = nat_sum xs"
proof -
  have "mset (map unat (sort xs)) = mset (map unat xs)" by simp
  then show ?thesis by (metis sum_mset_sum_list)
qed

lemma unat_of_nat_length: "n < 18446744073709551616 \<Longrightarrow> unat (of_nat n :: u64) = n"
  by (rule unat_of_nat_small) simp

text \<open>An amount with one significant digit, or dust.\<close>

definition canonical_amount :: "u64 \<Rightarrow> u64 \<Rightarrow> bool" where
  "canonical_amount thr a \<longleftrightarrow> (\<exists>d i. 0 < d \<and> d < 10 \<and> unat a = d * 10 ^ i) \<or> (a \<noteq> 0 \<and> a \<le> thr)"

lemma call_ok_canonical: "call_ok thr k \<Longrightarrow> canonical_amount thr (call_amount k)"
  by (cases k) (auto simp: call_ok_def canonical_amount_def)

lemma fusion_amounts:
  assumes "isFusionTransaction_amounts c ins outs tx_size h"
  shows "nat_sum outs = nat_sum ins mod 18446744073709551616" "sorted outs"
    "\<forall>a \<in> set outs. canonical_amount (defaultFusionDustThreshold c h) a"
proof -
  let ?thr = "defaultFusionDustThreshold c h"
  let ?calls = "decompose_amount_into_digits (foldl (+) 0 ins) ?thr"
  have outs: "outs = sort (map call_amount ?calls)"
    using assms by (auto simp: isFusionTransaction_amounts_def decomposeAmount_def Let_def split: if_splits)
  show "nat_sum outs = nat_sum ins mod 18446744073709551616"
    unfolding outs nat_sum_sort decompose_correct(1) foldl_plus_unat by simp
  show "sorted outs" unfolding outs by simp
  show "\<forall>a \<in> set outs. canonical_amount ?thr a"
    using decompose_correct(2) [of ?thr "foldl (+) 0 ins"] call_ok_canonical
    by (auto simp: outs list_all_iff)
qed

lemma fusion_counts:
  assumes "isFusionTransaction_amounts c ins outs tx_size h" "length ins < 18446744073709551616"
    "length outs * unat (m_fusionTxMinInOutCountRatio c) < 18446744073709551616"
  shows "unat (m_fusionTxMinInputCount c) \<le> length ins \<and>
    length outs * unat (m_fusionTxMinInOutCountRatio c) \<le> length ins"
proof (cases "m_fusionTxMinInOutCountRatio c = 0")
  case True
  then show ?thesis using assms
    by (auto simp: isFusionTransaction_amounts_def word_less_unat unat_of_nat_length split: if_splits)
next
  case False
  then have "1 \<le> unat (m_fusionTxMinInOutCountRatio c)" by (simp add: Suc_le_eq unat_gt_0)
  then have "length outs * 1 \<le> length outs * unat (m_fusionTxMinInOutCountRatio c)" by (rule mult_le_mono2)
  then have "length outs < 18446744073709551616" using assms(3) by linarith
  then have o: "unat (of_nat (length outs) :: u64) = length outs" by (rule unat_of_nat_length)
  then have "unat (of_nat (length outs) * m_fusionTxMinInOutCountRatio c) = length outs * unat (m_fusionTxMinInOutCountRatio c)"
    using assms(3) by (subst unat_times_small) simp_all
  then show ?thesis using assms
    by (auto simp: isFusionTransaction_amounts_def word_less_unat unat_of_nat_length split: if_splits)
qed

text \<open>The table of pretty amounts: position \<open>9 * p + d - 1\<close> holds \<open>d * 10 ^ p\<close>.\<close>

lemma PRETTY_AMOUNTS_table: "PRETTY_AMOUNTS = map (\<lambda>i. of_nat (i mod 9 + 1) * 10 ^ (i div 9)) [0..<172]"
  unfolding PRETTY_AMOUNTS_def by (simp add: upt_rec [of _ 172])

lemma length_PRETTY_AMOUNTS: "length PRETTY_AMOUNTS = 172"
  unfolding PRETTY_AMOUNTS_table by simp

lemma unat_pretty:
  assumes "i < 172"
  shows "unat (PRETTY_AMOUNTS ! i) = (i mod 9 + 1) * 10 ^ (i div 9)"
proof -
  have "i div 9 \<le> 18 \<or> i = 171" using assms by linarith
  then have "(i mod 9 + 1) * 10 ^ (i div 9) \<le> 10 * (10 :: nat) ^ 18"
  proof
    assume "i div 9 \<le> 18"
    then have "(10 :: nat) ^ (i div 9) \<le> 10 ^ 18" by (intro power_increasing) simp_all
    moreover have "i mod 9 + 1 \<le> 10" by (simp add: Suc_leI less_imp_le)
    ultimately show ?thesis by (rule mult_le_mono [rotated])
  qed simp
  then have small: "(i mod 9 + 1) * 10 ^ (i div 9) < (2 :: nat) ^ 64" by simp
  have "PRETTY_AMOUNTS ! i = of_nat ((i mod 9 + 1) * 10 ^ (i div 9))"
    using assms by (simp add: PRETTY_AMOUNTS_table distrib_right)
  then show ?thesis using small by (metis unat_of_nat_length two_64)
qed

lemma pretty_less:
  assumes "i < j"
  shows "(i mod 9 + 1) * 10 ^ (i div 9) < (j mod 9 + 1) * (10 :: nat) ^ (j div 9)"
proof (cases "i div 9 = j div 9")
  case True
  then have "i mod 9 < j mod 9" using assms div_mult_mod_eq [of i 9] div_mult_mod_eq [of j 9] by linarith
  then show ?thesis by (simp add: True)
next
  case False
  then have d: "i div 9 + 1 \<le> j div 9" using assms div_le_mono [of i j 9] by simp
  have "(i mod 9 + 1) * 10 ^ (i div 9) < 10 * (10 :: nat) ^ (i div 9)"
    by (intro mult_strict_right_mono) (simp_all add: Suc_leI)
  also have "\<dots> = 10 ^ (i div 9 + 1)" by simp
  also have "\<dots> \<le> 10 ^ (j div 9)" using d by (intro power_increasing) simp_all
  also have "\<dots> \<le> (j mod 9 + 1) * 10 ^ (j div 9)" by simp
  finally show ?thesis .
qed

lemma PRETTY_AMOUNTS_ascending: "sorted_wrt (<) PRETTY_AMOUNTS"
  unfolding sorted_wrt_iff_nth_less length_PRETTY_AMOUNTS
proof (intro allI impI)
  fix i j :: nat assume "i < j" "j < 172"
  then show "PRETTY_AMOUNTS ! i < PRETTY_AMOUNTS ! j"
    unfolding word_less_unat using pretty_less unat_pretty [of i] unat_pretty [of j] by simp
qed

lemma lower_bound_ascending:
  assumes "sorted_wrt (<) xs" "i < length xs"
  shows "lower_bound xs (xs ! i) = i"
  using assms
proof (induction xs arbitrary: i)
  case (Cons x xs)
  then show ?case by (cases i) (auto simp: lower_bound_def)
qed simp

lemma pretty_position:
  assumes "0 < d" "d < 10" "unat a = d * 10 ^ p"
  obtains i where "i < 172" "PRETTY_AMOUNTS ! i = a" "i div 9 = p"
proof -
  have p: "p \<le> 19"
  proof (rule ccontr)
    assume "\<not> p \<le> 19"
    then have "(10 :: nat) ^ 20 \<le> 10 ^ p" by (intro power_increasing) simp_all
    also have "\<dots> \<le> unat a" using assms by simp
    finally show False using unat_lt_64 [of a] by simp
  qed
  define i where "i = 9 * p + (d - 1)"
  obtain e where e: "d = Suc e" "e < 9" using assms(1,2) by (cases d) auto
  have i: "i div 9 = p" "i mod 9 + 1 = d" using e by (auto simp: i_def)
  have "i < 172"
  proof (cases "p = 19")
    case True
    then have "d = 1" using assms unat_lt_64 [of a] by (cases "d = 1") auto
    then show ?thesis by (simp add: i_def True)
  qed (use p assms in \<open>simp add: i_def\<close>)
  moreover have "PRETTY_AMOUNTS ! i = a"
    using unat_pretty [OF calculation] assms(3) unfolding i word_eq_unat by simp
  ultimately show thesis using i(1) that by blast
qed

lemma applicable_amount:
  "isAmountApplicableInFusionTransactionInput c a thr h = Some p \<longleftrightarrow>
     a < thr \<and> defaultFusionDustThreshold c h \<le> a \<and> (\<exists>d. 0 < d \<and> d < 10 \<and> unat a = d * 10 ^ unat p)"
  (is "?f = Some p \<longleftrightarrow> ?range \<and> ?low \<and> ?pretty")
proof
  assume f: "?f = Some p"
  define i where "i = lower_bound PRETTY_AMOUNTS a"
  have i: "i \<noteq> 172" "a = PRETTY_AMOUNTS ! i" "p = of_nat (i div 9)" and rng: ?range ?low
    using f by (auto simp: isAmountApplicableInFusionTransactionInput_def Let_def i_def length_PRETTY_AMOUNTS not_le not_less
        split: if_splits)
  have "i \<le> 172"
    unfolding i_def lower_bound_def length_PRETTY_AMOUNTS [symmetric] by (rule length_takeWhile_le)
  then have i172: "i < 172" using i(1) by simp
  then have "unat p = i div 9" unfolding i(3) by (intro unat_of_nat_small) auto
  then have "unat a = (i mod 9 + 1) * 10 ^ unat p" using unat_pretty [OF i172] i(2) by simp
  moreover have "i mod 9 + 1 < 10" by (simp add: Suc_leI)
  ultimately show "?range \<and> ?low \<and> ?pretty" using rng by (metis zero_less_Suc Suc_eq_plus1)
next
  assume r: "?range \<and> ?low \<and> ?pretty"
  then obtain d where d: "0 < d" "d < 10" "unat a = d * 10 ^ unat p" by blast
  obtain i where i: "i < 172" "PRETTY_AMOUNTS ! i = a" "i div 9 = unat p"
    by (rule pretty_position [OF d])
  have "lower_bound PRETTY_AMOUNTS a = i"
    using lower_bound_ascending [OF PRETTY_AMOUNTS_ascending, of i] i by (simp add: length_PRETTY_AMOUNTS)
  then show "?f = Some p"
    using r i by (simp add: isAmountApplicableInFusionTransactionInput_def Let_def length_PRETTY_AMOUNTS not_le not_less)
qed

section \<open>Amounts as text\<close>

lemma dec_value_append: "dec_value (xs @ ys) = dec_value xs * 10 ^ length ys + dec_value ys"
proof (induction ys rule: rev_induct)
  case Nil
  then show ?case by (simp add: dec_value_def)
next
  case (snoc y ys)
  then show ?case unfolding append_assoc [symmetric] dec_value_snoc by (simp add: algebra_simps)
qed

lemma dec_value_zeros: "dec_value (replicate n zero_char) = 0"
  by (induction n) (simp_all add: dec_value_def)

text \<open>The digits of an amount, at least one before the point.\<close>

definition amount_digits :: "nat \<Rightarrow> u64 \<Rightarrow> bytes" where
  "amount_digits places a =
     (let s = to_string (unat a) in if length s < places + 1 then replicate (places + 1 - length s) zero_char @ s else s)"

lemma amount_digits:
  "places < length (amount_digits places a)" "dec_value (amount_digits places a) = unat a"
  "list_all isdigit (amount_digits places a)"
  using to_string_digits [of _ "unat a"]
  by (auto simp: amount_digits_def Let_def dec_value_append dec_value_zeros list_all_iff isdigit_def word_le_unat)

lemma boost_trim_digits:
  assumes "s \<noteq> []" "\<not> isspace (hd s)" "\<not> isspace (last s)"
  shows "boost_trim s = s"
proof -
  have "dropWhile isspace s = s" using assms by (cases s) auto
  moreover have "dropWhile isspace (rev s) = rev s"
    using assms by (cases "rev s") (auto simp: hd_rev [symmetric])
  ultimately show ?thesis by (simp add: boost_trim_def)
qed

lemma parseAmount_digits:
  assumes "list_all isdigit (xs @ ys)" "xs \<noteq> []" "length ys = unat (m_numberOfDecimalPlaces c)"
  shows "parseAmount c (xs @ point_char # ys) = fromString_u64 (xs @ ys)"
proof -
  let ?s = "xs @ point_char # ys"
  have digit: "isdigit a \<Longrightarrow> \<not> isspace a \<and> a \<noteq> point_char" for a
    by (auto simp: isdigit_def isspace_def word_le_unat)
  have nd: "point_char \<notin> set xs" using assms(1) digit by (auto simp: list_all_iff)
  have "boost_trim ?s = ?s"
  proof (rule boost_trim_digits)
    show "\<not> isspace (hd ?s)" using assms(1,2) digit by (cases xs) auto
    show "\<not> isspace (last ?s)"
      using assms(1) digit last_in_set [of ys] by (cases "ys = []") (auto simp: isspace_def list_all_iff word_le_unat)
  qed simp
  moreover have "find_char point_char ?s = Some (length xs)"
    using nd by (simp add: find_char_Some)
  moreover have "strip_zeros (length ys) ?s (length ys) = (?s, length ys)" by (cases "length ys") simp_all
  ultimately show ?thesis
    unfolding parseAmount_def Let_def assms(3) [symmetric] using assms(1,2) by simp
qed

lemma formatAmount_digits:
  "formatAmount c a = (let s = amount_digits (unat (m_numberOfDecimalPlaces c)) a;
     n = length s - unat (m_numberOfDecimalPlaces c) in take n s @ point_char # drop n s)"
  by (simp add: formatAmount_def amount_digits_def Let_def)

lemma parseAmount_formatAmount: "parseAmount c (formatAmount c a) = Some a"
proof -
  define places where "places = unat (m_numberOfDecimalPlaces c)"
  define s where "s = amount_digits places a"
  define n where "n = length s - places"
  have s: "places < length s" "dec_value s = unat a" "list_all isdigit s"
    unfolding s_def by (rule amount_digits)+
  have "parseAmount c (take n s @ point_char # drop n s) = fromString_u64 (take n s @ drop n s)"
    by (rule parseAmount_digits) (use s in \<open>auto simp: n_def places_def\<close>)
  then show ?thesis
    using s(2) unat_lt_64 [of a]
    by (simp add: formatAmount_digits Let_def fromString_u64_def flip: places_def s_def n_def)
qed

section \<open>The currency of the main network\<close>

text \<open>An object whose memory is zero, and the one that the constructor of the builder makes of it.\<close>

definition blank_currency :: Currency where
  "blank_currency =
     \<lparr> m_maxBlockHeight = 0,
       m_maxBlockBlobSize = 0,
       m_maxTxSize = 0,
       m_publicAddressBase58Prefix = 0,
       m_minedMoneyUnlockWindow = 0,
       m_timestampCheckWindow = 0,
       m_blockFutureTimeLimit = 0,
       m_moneySupply = 0,
       m_emissionSpeedFactor = 0,
       m_genesisBlockReward = 0,
       m_rewardBlocksWindow = 0,
       m_zawyDifficultyBlockIndex = 0,
       m_zawyDifficultyV2 = 0,
       m_zawyDifficultyBlockVersion = 0,
       m_blockGrantedFullRewardZone = 0,
       m_minerTxBlobReservedSize = 0,
       m_numberOfDecimalPlaces = 0,
       m_coin = 0,
       m_mininumFee = 0,
       m_defaultDustThreshold = 0,
       m_difficultyTarget = 0,
       m_difficultyWindow = 0,
       m_difficultyLag = 0,
       m_difficultyCut = 0,
       m_maxBlockSizeInitial = 0,
       m_maxBlockSizeGrowthSpeedNumerator = 0,
       m_maxBlockSizeGrowthSpeedDenominator = 0,
       m_lockedTxAllowedDeltaSeconds = 0,
       m_lockedTxAllowedDeltaBlocks = 0,
       m_mempoolTxLiveTime = 0,
       m_mempoolTxFromAltBlockLiveTime = 0,
       m_numberOfPeriodsToForgetTxDeletedFromPool = 0,
       m_fusionTxMaxSize = 0,
       m_fusionTxMinInputCount = 0,
       m_fusionTxMinInOutCountRatio = 0,
       m_upgradeHeightV2 = 0,
       m_upgradeHeightV3 = 0,
       m_upgradeHeightV4 = 0,
       m_upgradeHeightV5 = 0,
       m_upgradeVotingThreshold = 0,
       m_upgradeVotingWindow = 0,
       m_upgradeWindow = 0,
       m_blocksFileName = [],
       m_blockIndexesFileName = [],
       m_txPoolFileName = [],
       m_testnet = False,
       m_isBlockexplorer = False,
       genesisBlockTemplate = value_initialized_block,
       cachedGenesisBlock = None \<rparr>"

definition mainnet_currency :: Currency where
  "mainnet_currency = projr (CurrencyBuilder_init blank_currency)"

lemmas builder_defs = CurrencyBuilder_init_def CurrencyBuilder_emissionSpeedFactor_def CurrencyBuilder_numberOfDecimalPlaces_def
  CurrencyBuilder_difficultyWindow_def CurrencyBuilder_upgradeVotingThreshold_def CurrencyBuilder_upgradeWindow_def

lemmas builder_constants = EMISSION_SPEED_FACTOR_def DIFFICULTY_WINDOW_def UPGRADE_VOTING_THRESHOLD_def
  UPGRADE_WINDOW_def EXPECTED_NUMBER_OF_BLOCKS_PER_DAY_def DIFFICULTY_TARGET_def

lemma builder_succeeds: "\<exists>c. CurrencyBuilder_init u = Inr c"
  by (simp add: builder_defs builder_constants Let_def word_less_unat)

lemma five_places: "((\<lambda>coin. coin * 10) ^^ 5) 1 = (100000 :: u64)"
  by code_simp

lemma builder_fields:
  assumes "CurrencyBuilder_init u = Inr c"
  shows "m_moneySupply c = 100000000000000" "m_emissionSpeedFactor c = 21" "m_genesisBlockReward c = 0"
    "m_blockGrantedFullRewardZone c = 100000" "m_fusionTxMinInputCount c = 12" "m_fusionTxMinInOutCountRatio c = 4"
    "m_fusionTxMaxSize c = FUSION_TX_MAX_SIZE" "m_numberOfDecimalPlaces c = 5" "m_coin c = 100000" "m_testnet c = False"
    "m_defaultDustThreshold c = DEFAULT_DUST_THRESHOLD" "m_difficultyTarget c = 90"
  using assms
  by (auto simp: builder_defs builder_constants Let_def word_less_unat MONEY_SUPPLY_def GENESIS_BLOCK_REWARD_def
      CRYPTONOTE_BLOCK_GRANTED_FULL_REWARD_ZONE_def FUSION_TX_MIN_INPUT_COUNT_def FUSION_TX_MIN_IN_OUT_COUNT_RATIO_def
      CRYPTONOTE_DISPLAY_DECIMAL_POINT_def five_places)

lemma mainnet_builder: "CurrencyBuilder_init blank_currency = Inr mainnet_currency"
  using builder_succeeds [of blank_currency] by (auto simp: mainnet_currency_def)

lemmas mainnet_fields = builder_fields [OF mainnet_builder]

section \<open>The genesis block\<close>

text \<open>What the hard-coded coinbase transaction says.\<close>

definition genesis_transaction :: Transaction where
  "genesis_transaction =
     \<lparr> tx_version = 1, unlockTime = 10, inputs = [BaseInput 0],
       outputs = [\<lparr> out_amount = 2980232, out_target = KeyOutput
         [155, 46, 76, 2, 129, 192, 176, 46, 124, 83, 41, 26, 148, 209, 208, 203, 255, 136, 131, 248, 2, 79, 81, 66, 238, 73, 79, 251, 189, 8, 128, 113] \<rparr>],
       extra = [1, 66, 105, 66, 50, 197, 176, 65, 81, 217, 228, 194, 125, 49, 236, 122, 104, 234, 86, 139, 25, 72, 140, 252, 180, 34, 101, 154, 7, 160, 228, 77, 213],
       signatures = [] \<rparr>"

lemma genesis_hex: "fromHex_append GENESIS_COINBASE_TX_HEX [] = (True, snd (fromHex_append GENESIS_COINBASE_TX_HEX []))"
  by code_simp

lemma genesis_blob: "fromBinaryArray read_Transaction (snd (fromHex_append GENESIS_COINBASE_TX_HEX [])) = Inr genesis_transaction"
  by code_simp

lemma wf_genesis_transaction: "wf_transaction genesis_transaction"
  using genesis_blob transaction_codec.fromBinaryArray_iff by blast

definition genesis_block :: "bool \<Rightarrow> BlockTemplate" where
  "genesis_block testnet = value_initialized_block \<lparr> baseTransaction := genesis_transaction, majorVersion := BLOCK_MAJOR_VERSION_1,
     minorVersion := BLOCK_MINOR_VERSION_0, timestamp := 0, nonce := (if testnet then 71 else 70) \<rparr>"

lemma generateGenesisBlock_result:
  "generateGenesisBlock c = (True, c \<lparr> genesisBlockTemplate := genesis_block (m_testnet c),
     cachedGenesisBlock := Some (CachedBlock_init (genesis_block (m_testnet c))) \<rparr>)"
  unfolding generateGenesisBlock_def by (subst genesis_hex) (simp add: genesis_blob genesis_block_def Let_def)

lemma wf_genesis_block: "wf_block (genesis_block t)"
  using wf_genesis_transaction
  by (simp add: wf_block_def genesis_block_def value_initialized_block_def BLOCK_MAJOR_VERSION_1_def BLOCK_MAJOR_VERSION_2_def
      BLOCK_MAJOR_VERSION_5_def NULL_HASH_def pod32_def word_le_unat)

lemma genesis_hash: "\<exists>h. block_hash_spec (genesis_block t) = Inr h"
  by (simp add: block_hash_spec_def hashing_spec_def genesis_block_def value_initialized_block_def write_BlockHeader_def
      BLOCK_MAJOR_VERSION_1_def BLOCK_MAJOR_VERSION_2_def BLOCK_MAJOR_VERSION_5_def toBinaryArray_def BlockHeader.defs word_le_unat)

lemma Currency_init_result:
  "\<exists>cb. Currency_init c = (True, let c = c \<lparr> genesisBlockTemplate := genesis_block (m_testnet c), cachedGenesisBlock := Some cb \<rparr>
      in if m_testnet c
         then c \<lparr> m_upgradeHeightV2 := 0, m_upgradeHeightV3 := -1,
                  m_blocksFileName := bytes_of ''testnet_'' @ m_blocksFileName c,
                  m_blockIndexesFileName := bytes_of ''testnet_'' @ m_blockIndexesFileName c,
                  m_txPoolFileName := bytes_of ''testnet_'' @ m_txPoolFileName c \<rparr>
         else c)"
proof -
  let ?cb = "CachedBlock_init (genesis_block (m_testnet c))"
  have ok: "block_cache_ok id id id ?cb" by (rule block_cache_ok_init)
  obtain h where h: "block_hash_spec (genesis_block (m_testnet c)) = Inr h" using genesis_hash by blast
  have "fst (getBlockHash ?cb) = Inr h"
    using block_hash_memo.get_spec [OF ok] h by (simp add: CachedBlock_init_def)
  then obtain cb where "getBlockHash ?cb = (Inr h, cb)" by (cases "getBlockHash ?cb") auto
  then show ?thesis
    by (intro exI [of _ cb]) (simp add: Currency_init_def generateGenesisBlock_result Let_def)
qed

section \<open>Properties\<close>

text \<open>C1. The generated coins never exceed the money supply. Whatever blocks follow each other, with any
  versions, sizes and fees paid from existing coins, each block pays its miner at most the fee and
  the part of the supply that is left, its emission change is the reward without the fee, and the
  coins generated so far stay within the supply; nothing wraps around.\<close>

theorem supply_never_exceeded:
  assumes "generated c coins" "wf_emission c"
  shows "coins \<le> m_moneySupply c \<and>
    (\<forall>v med cur fee reward em. fee \<le> coins \<longrightarrow> unat (effective_median c v med) < 2 ^ 32 \<longrightarrow>
       getBlockReward c v med cur coins fee = Inr (reward, em) \<longrightarrow>
       em = reward - fee \<and> unat reward \<le> unat fee + (unat (m_moneySupply c) - unat coins))"
proof (intro conjI allI impI)
  show bound: "coins \<le> m_moneySupply c" by (rule generated_bounded [OF assms])
  fix v med cur fee reward em
  assume "fee \<le> coins" "unat (effective_median c v med) < 2 ^ 32"
    "getBlockReward c v med cur coins fee = Inr (reward, em)"
  note step = reward_step [OF assms(2) bound this(2,1,3)]
  show "em = reward - fee" by (rule step)
  show "unat reward \<le> unat fee + (unat (m_moneySupply c) - unat coins)" by (rule step)
qed

theorem supply_never_exceeded_witness:
  "47683715 \<le> m_moneySupply mainnet_currency \<and> getBlockReward mainnet_currency 4 0 1000 0 0 = Inr (47683715, 47683715)"
proof -
  have r: "getBlockReward mainnet_currency 4 0 1000 0 0 = Inr (47683715, 47683715)"
    by (simp add: getBlockReward_def mainnet_fields blockGrantedFullRewardZoneByBlockVersion_def getPenalizedAmount_def
        BLOCK_MAJOR_VERSION_2_def BLOCK_MAJOR_VERSION_3_def Let_def)
  have "generated mainnet_currency (0 + 47683715)"
    by (rule generated.block [OF generated.start _ _ r])
       (simp_all add: effective_median_def blockGrantedFullRewardZoneByBlockVersion_def mainnet_fields BLOCK_MAJOR_VERSION_3_def)
  moreover have "wf_emission mainnet_currency" by (simp add: wf_emission_def mainnet_fields)
  ultimately show ?thesis using supply_never_exceeded [of mainnet_currency 47683715] r by simp
qed

text \<open>C11. With working key operations, room for an output and an extra nonce of at most 255 bytes, a
  reward always gets its transaction: it has the height as its only input, at most \<open>maxOuts\<close> outputs
  whose amounts add up to the reward without overflow, and is locked for the unlock window.\<close>

theorem miner_tx_pays_reward:
  assumes "getBlockReward c v med cur coins fee = Inr (reward, em)"
    "generate_key_derivation ops (viewPublicKey adr) (kp_secretKey txkey) = Some d"
    "\<And>no. derive_public_key ops d no (spendPublicKey adr) \<noteq> None"
    "1 \<le> maxOuts" "length extraNonce \<le> TX_EXTRA_NONCE_MAX_COUNT"
  shows "\<exists>tx. constructMinerTx ops txkey c v height med coins cur fee adr tx0 extraNonce maxOuts = Some (True, tx) \<and>
    nat_sum (map out_amount (outputs tx)) = unat reward \<and> length (outputs tx) \<le> unat maxOuts \<and>
    inputs tx = [BaseInput height] \<and> unlockTime tx = ucast (height + m_minedMoneyUnlockWindow c)"
proof -
  define amounts where "amounts = map call_amount (decompose_amount_into_digits reward (defaultDustThreshold c height))"
  define merged where "merged = merge_outs (unat maxOuts) amounts"
  have s: "nat_sum amounts = unat reward" unfolding amounts_def by (rule decompose_correct)
  have m: "length merged = min (unat maxOuts) (length amounts)" "nat_sum merged = unat reward"
    using merge_outs_correct [of "unat maxOuts" amounts] assms(4) s unat_lt_64 [of reward]
    by (auto simp: merged_def word_le_unat)
  have total: "sum_list merged = reward"
    using unat_sum_list [of merged] m(2) unat_lt_64 [of reward] by (simp add: word_eq_unat)
  obtain outs where outs: "miner_outs ops adr (kp_secretKey txkey) 0 merged [] 0 = (True, outs, sum_list merged)"
    "map out_amount outs = merged"
    using miner_outs_success [OF assms(2,3), of 0 merged "[]" 0] by auto
  have len: "length outs = length merged" using outs(2) by (metis length_map)
  have sum: "sum_list (map (unat \<circ> out_amount) outs) = unat reward"
    using m(2) unfolding outs(2) [symmetric] map_map .
  show ?thesis
    using assms(1,4,5) outs(1) m total len sum
    by (cases "extraNonce = []")
       (simp_all add: constructMinerTx_def addTransactionPublicKeyToExtra_def addExtraNonceToTransactionExtra_def
         Let_def flip: amounts_def merged_def)
qed
theorem miner_tx_pays_reward_witness:
  "\<exists>tx. constructMinerTx
      \<lparr> generate_key_derivation = \<lambda>p s. Some p, derive_public_key = \<lambda>d n b. Some b,
        derive_secret_key = \<lambda>d n s. s, generate_key_image = \<lambda>p s. p \<rparr>
      \<lparr> kp_publicKey = replicate 32 1, kp_secretKey = replicate 32 2 \<rparr> mainnet_currency 4 5000 0 0 1000 500
      \<lparr> spendPublicKey = replicate 32 3, viewPublicKey = replicate 32 4 \<rparr> genesis_transaction [] 3 = Some (True, tx) \<and>
    nat_sum (map out_amount (outputs tx)) = 47684215 \<and> length (outputs tx) \<le> 3"
proof -
  have "getBlockReward mainnet_currency 4 0 1000 0 500 = Inr (47684215, 47683715)"
    by (simp add: getBlockReward_def mainnet_fields blockGrantedFullRewardZoneByBlockVersion_def getPenalizedAmount_def
        BLOCK_MAJOR_VERSION_2_def BLOCK_MAJOR_VERSION_3_def Let_def)
  from miner_tx_pays_reward [OF this, of
      "\<lparr> generate_key_derivation = \<lambda>p s. Some p, derive_public_key = \<lambda>d n b. Some b,
        derive_secret_key = \<lambda>d n s. s, generate_key_image = \<lambda>p s. p \<rparr>"
      "\<lparr> spendPublicKey = replicate 32 3, viewPublicKey = replicate 32 4 \<rparr>"
      "\<lparr> kp_publicKey = replicate 32 1, kp_secretKey = replicate 32 2 \<rparr>" "replicate 32 4" 3 "[]" 5000 genesis_transaction]
  show ?thesis by auto
qed




text \<open>C36. The builder and its \<open>currency()\<close> succeed from any initial memory. The result has the emission
  parameters that the reward needs, its coin is ten to the number of decimal places, its genesis
  block is well formed and holds the hard-coded coinbase transaction, and its cached block starts
  empty; the live time of transactions from alternative blocks is whatever the memory held.\<close>

theorem builder_makes_currency:
  "\<exists>c0 c. CurrencyBuilder_init u = Inr c0 \<and> CurrencyBuilder_currency garbage c0 = Inr c \<and> wf_emission c \<and>
     m_coin c = 10 ^ unat (m_numberOfDecimalPlaces c) \<and> wf_block (genesisBlockTemplate c) \<and>
     baseTransaction (genesisBlockTemplate c) = genesis_transaction \<and> nonce (genesisBlockTemplate c) = 70 \<and>
     cachedGenesisBlock c = Some (CachedBlock_init (genesisBlockTemplate c)) \<and>
     m_mempoolTxFromAltBlockLiveTime c = garbage"
proof -
  obtain c0 where c0: "CurrencyBuilder_init u = Inr c0" using builder_succeeds by blast
  note fields = builder_fields [OF c0]
  obtain cb where cb: "Currency_init c0 =
      (True, c0 \<lparr> genesisBlockTemplate := genesis_block False, cachedGenesisBlock := Some cb \<rparr>)"
    using Currency_init_result [of c0] fields by auto
  then have "CurrencyBuilder_currency garbage c0 = Inr (c0 \<lparr> genesisBlockTemplate := genesis_block False,
      m_mempoolTxFromAltBlockLiveTime := garbage, cachedGenesisBlock := Some (CachedBlock_init (genesis_block False)) \<rparr>)"
    by (simp add: CurrencyBuilder_currency_def Currency_move_def)
  then show ?thesis
    using c0 fields wf_genesis_block [of False] by (simp add: wf_emission_def genesis_block_def)
qed

end
