(* ===== verification/ProofOfWork.thy ===== *)
theory ProofOfWork
  imports Currency
begin

text \<open>The choice of the difficulty algorithm and the check of the proof of work of
  \<open>src/src/cryptonote_core/currency.cpp\<close>. A value that the language leaves undefined, an index out of range
  for instance, is \<open>None\<close>. The cached block is passed through, since its getters fill its caches.

  The theory shows that below the heights of the weighted averages and from version 6 on a next
  difficulty is always returned, and exactly which blocks pass the check, whatever the state of the
  cache.\<close>

section \<open>Definitions\<close>

definition vec_at :: "'a list \<Rightarrow> u64 \<Rightarrow> 'a option" where
  "vec_at xs i = (if unat i < length xs then Some (xs ! unat i) else None)"

text \<open>\<open>resize\<close> to a smaller or larger size.\<close>

definition vec_resize :: "u64 list \<Rightarrow> u64 \<Rightarrow> u64 list" where
  "vec_resize xs n = take (unat n) xs @ replicate (unat n - length xs) 0"

text \<open>The part of the window that is left when its ends are cut.\<close>

definition cut_range :: "u64 \<Rightarrow> u64 \<Rightarrow> u64 \<Rightarrow> u64 \<times> u64" where
  "cut_range len window c_cut =
     (if len \<le> window - 2 * c_cut then (0, len)
      else let cutBegin = (len - (window - 2 * c_cut) + 1) div 2
           in (cutBegin, cutBegin + (window - 2 * c_cut)))"

text \<open>The time span of the sorted timestamps, at least 1, and the work in the same range.\<close>

definition span_and_work :: "u64 list \<Rightarrow> u64 list \<Rightarrow> u64 \<Rightarrow> u64 \<Rightarrow> (u64 \<times> u64) option" where
  "span_and_work timestamps cumulativeDifficulties cutBegin cutEnd =
     Option.bind (vec_at timestamps (cutEnd - 1)) (\<lambda>t1.
     Option.bind (vec_at timestamps cutBegin) (\<lambda>t0.
     Option.bind (vec_at cumulativeDifficulties (cutEnd - 1)) (\<lambda>d1.
     Option.bind (vec_at cumulativeDifficulties cutBegin) (\<lambda>d0.
       let timeSpan = t1 - t0
       in Some (if timeSpan = 0 then 1 else timeSpan, d1 - d0)))))"

definition nextDifficulty :: "Currency \<Rightarrow> byte \<Rightarrow> u32 \<Rightarrow> u64 list \<Rightarrow> u64 list \<Rightarrow> u64 option" where
  "nextDifficulty c version block_index timestamps cumulativeDifficulties =
     (let timestamps_o = timestamps;
          cumulativeDifficulties_o = cumulativeDifficulties;
          c_difficultyWindow = difficultyWindowByBlockVersion c version;
          c_difficultyCut = difficultyCutByBlockVersion c version;
          shrink = of_nat (length timestamps) > c_difficultyWindow;
          timestamps = (if shrink then vec_resize timestamps c_difficultyWindow else timestamps);
          cumulativeDifficulties = (if shrink then vec_resize cumulativeDifficulties c_difficultyWindow else cumulativeDifficulties);
          len = of_nat (length timestamps) :: u64
      in if len \<le> 1 then Some 1
         else
         let timestamps = sort timestamps;
             (cutBegin, cutEnd) = cut_range len c_difficultyWindow c_difficultyCut
         in Option.bind (span_and_work timestamps cumulativeDifficulties cutBegin cutEnd) (\<lambda>(timeSpan, totalWork).
            let (low, high) = mul128 totalWork (m_difficultyTarget c)
            in if high \<noteq> 0 \<or> -1 - low < timeSpan - 1 then Some 0
               else
               let c_zawyDifficultyBlockVersion = (if m_zawyDifficultyV2 c \<noteq> 0 then 2 else m_zawyDifficultyBlockVersion c)
               in if version \<ge> c_zawyDifficultyBlockVersion \<and> c_zawyDifficultyBlockVersion \<noteq> 0
                  then Some (low div timeSpan)
                  else if m_zawyDifficultyBlockIndex c \<noteq> 0 \<and> m_zawyDifficultyBlockIndex c \<le> block_index
                  then
                    let t_difficultyWindow = min 17 (length timestamps)
                    in if length cumulativeDifficulties_o < t_difficultyWindow then None
                       else
                       let timestamps_tmp = drop (length timestamps_o - t_difficultyWindow) timestamps_o;
                           cumulativeDifficulties_tmp = drop (length cumulativeDifficulties_o - t_difficultyWindow) cumulativeDifficulties_o;
                           len = of_nat (length timestamps_tmp) :: u64
                       in if len \<le> 1 then Some 1
                          else
                          let timestamps_tmp = sort timestamps_tmp;
                              (cutBegin, cutEnd) = cut_range len 17 0
                          in Option.bind (span_and_work timestamps_tmp cumulativeDifficulties_tmp cutBegin cutEnd) (\<lambda>(timeSpan, totalWork).
                             let (low, high) = mul128 totalWork (m_difficultyTarget c)
                             in if high \<noteq> 0 \<or> -1 - low < timeSpan - 1 then Some 0
                                else let nextDiffZ = low div timeSpan
                                     in Some (if nextDiffZ \<le> 100 then 100 else nextDiffZ))
                  else Some ((low + timeSpan - 1) div timeSpan)))"

definition getNextDifficulty :: "Currency \<Rightarrow> byte \<Rightarrow> u32 \<Rightarrow> u64 list \<Rightarrow> u64 list \<Rightarrow> u64 option" where
  "getNextDifficulty c version block_index timestamps cumulativeDifficulties =
     (if ucast block_index \<ge> LWMA_3_DIFFICULTY_BLOCK_INDEX then nextDifficultyV6 timestamps cumulativeDifficulties
      else if ucast block_index \<ge> LWMA_2_DIFFICULTY_BLOCK_INDEX_V3 then nextDifficultyV5 timestamps cumulativeDifficulties
      else if ucast block_index \<ge> LWMA_2_DIFFICULTY_BLOCK_INDEX_V2 then nextDifficultyV4 timestamps cumulativeDifficulties
      else if ucast block_index \<ge> LWMA_2_DIFFICULTY_BLOCK_INDEX then nextDifficultyV3 timestamps cumulativeDifficulties
      else nextDifficulty c version block_index timestamps cumulativeDifficulties)"

text \<open>The slow hashes.\<close>

record slow_hashes =
  cn_slow_hash_v0 :: "bytes \<Rightarrow> hash"
  cn_lite_slow_hash_v1 :: "bytes \<Rightarrow> hash"
  cn_turtle_lite_slow_hash_v2 :: "bytes \<Rightarrow> hash"

abbreviation longHash :: "slow_hashes \<Rightarrow> CachedBlock \<Rightarrow> (cache_error + hash) \<times> CachedBlock" where
  "longHash sh \<equiv> getBlockLongHash (cn_slow_hash_v0 sh) (cn_lite_slow_hash_v1 sh) (cn_turtle_lite_slow_hash_v2 sh)"

text \<open>Of the members of the currency only the cached genesis block \<open>g\<close> is used, and its cache may be filled.\<close>

definition checkProofOfWorkV1 ::
  "slow_hashes \<Rightarrow> CachedBlock \<Rightarrow> CachedBlock \<Rightarrow> u64 \<Rightarrow> (cache_error + bool) \<times> CachedBlock \<times> CachedBlock" where
  "checkProofOfWorkV1 sh g block currentDifficulty =
     (if BLOCK_MAJOR_VERSION_1 \<noteq> majorVersion (cb_block block) then (Inr False, block, g)
      else case longHash sh block of
             (Inl e, block) \<Rightarrow> (Inl e, block, g)
           | (Inr h, block) \<Rightarrow> (Inr (check_hash h currentDifficulty), block, g))"

text \<open>The bits of the hash of the genesis block are the path in the tree of chains.\<close>

definition checkProofOfWorkV2 ::
  "slow_hashes \<Rightarrow> CachedBlock \<Rightarrow> CachedBlock \<Rightarrow> u64 \<Rightarrow> (cache_error + bool) \<times> CachedBlock \<times> CachedBlock" where
  "checkProofOfWorkV2 sh g cachedBlock currentDifficulty =
     (let block = cb_block cachedBlock in
      if majorVersion block < BLOCK_MAJOR_VERSION_2 then (Inr False, cachedBlock, g)
      else case longHash sh cachedBlock of
             (Inl e, cachedBlock) \<Rightarrow> (Inl e, cachedBlock, g)
           | (Inr h, cachedBlock) \<Rightarrow>
               if \<not> check_hash h currentDifficulty then (Inr False, cachedBlock, g)
               else
               (case getMergeMiningTagFromExtra (extra (pb_baseTransaction (parentBlock block))) of
                  None \<Rightarrow> (Inr False, cachedBlock, g)
                | Some mmTag \<Rightarrow>
                    if 8 * 32 < length (blockchainBranch (parentBlock block)) then (Inr False, cachedBlock, g)
                    else
                    (case getAuxiliaryBlockHeaderHash cachedBlock of
                       (Inl e, cachedBlock) \<Rightarrow> (Inl e, cachedBlock, g)
                     | (Inr leaf, cachedBlock) \<Rightarrow>
                         (case getBlockHash g of
                            (Inl e, g) \<Rightarrow> (Inl e, cachedBlock, g)
                          | (Inr path, g) \<Rightarrow>
                              let auxBlocksMerkleRoot =
                                    tree_hash_from_branch cn_fast_hash (blockchainBranch (parentBlock block))
                                      (length (blockchainBranch (parentBlock block))) leaf (Some path)
                              in (Inr (auxBlocksMerkleRoot = merkleRoot mmTag), cachedBlock, g)))))"

definition checkProofOfWork ::
  "slow_hashes \<Rightarrow> CachedBlock \<Rightarrow> CachedBlock \<Rightarrow> u64 \<Rightarrow> (cache_error + bool) \<times> CachedBlock \<times> CachedBlock" where
  "checkProofOfWork sh g block currentDiffic =
     (let v = majorVersion (cb_block block) in
      if v = BLOCK_MAJOR_VERSION_1 then checkProofOfWorkV1 sh g block currentDiffic
      else if v \<in> {BLOCK_MAJOR_VERSION_2, BLOCK_MAJOR_VERSION_3, BLOCK_MAJOR_VERSION_4, BLOCK_MAJOR_VERSION_5}
      then checkProofOfWorkV2 sh g block currentDiffic
      else (Inr False, block, g))"

section \<open>The oldest difficulty algorithm\<close>

lemma cut_range_bounds:
  assumes "2 \<le> unat len" "unat len \<le> unat window" "2 * unat c_cut + 2 \<le> unat window" "cut_range len window c_cut = (b, e)"
  shows "unat b + 2 \<le> unat e \<and> unat e \<le> unat len"
proof -
  have lt: "unat window < 18446744073709551616" by (rule unat_lt_64)
  have c2: "unat (2 * c_cut) = 2 * unat c_cut" using assms(3) lt by (subst unat_times_small) simp_all
  have k: "unat (window - 2 * c_cut) = unat window - 2 * unat c_cut"
    unfolding c2 [symmetric] using assms(3) by (intro unat_minus_small) (simp add: word_le_unat c2)
  show ?thesis
  proof (cases "len \<le> window - 2 * c_cut")
    case True
    then show ?thesis using assms(1,4) by (simp add: cut_range_def)
  next
    case False
    define x where "x = len - (window - 2 * c_cut)"
    have x: "unat x = unat len - (unat window - 2 * unat c_cut)"
      unfolding x_def k [symmetric] using False by (intro unat_minus_small) simp
    have x1: "unat (x + 1) = unat x + 1" by (subst unat_plus_small) (use x assms(2,3) lt in simp_all)
    have be: "b = (x + 1) div 2" "e = b + (window - 2 * c_cut)"
      using assms(4) False unfolding cut_range_def Let_def x_def by auto
    have b: "unat b = (unat x + 1) div 2" unfolding be(1) by (simp add: unat_div_distrib x1)
    have "2 * unat b \<le> unat x + 1" unfolding b by simp
    moreover have "1 \<le> unat x" using False x k assms(3) by (simp add: word_le_unat)
    ultimately have bx: "unat b \<le> unat x" by linarith
    have "unat e = unat b + (unat window - 2 * unat c_cut)"
      unfolding be(2) k [symmetric] by (rule unat_plus_small) (use bx x k assms lt in simp)
    moreover have "unat window - 2 * unat c_cut \<le> unat len" using False k by (simp add: word_le_unat)
    ultimately show ?thesis using bx x assms(2,3) by (intro conjI) linarith+
  qed
qed

lemma span_and_work_returns:
  assumes "unat b + 2 \<le> unat e" "unat e \<le> length ts" "unat e \<le> length cds"
  shows "\<exists>s w. span_and_work ts cds b e = Some (s, w) \<and> s \<noteq> 0"
proof -
  have "unat (e - 1) = unat e - 1" using assms(1) by (intro unat_minus_one) auto
  then show ?thesis using assms by (auto simp: span_and_work_def vec_at_def Let_def)
qed

lemma unat_of_length: "n \<le> unat (w :: u64) \<Longrightarrow> unat (of_nat n :: u64) = n"
  using unat_lt_64 [of w] by (intro unat_of_nat_small) simp

lemma nextDifficulty_returns:
  assumes "length ts = length cds" "length ts < 18446744073709551616"
    "2 * unat (difficultyCutByBlockVersion c v) + 2 \<le> unat (difficultyWindowByBlockVersion c v)"
  shows "nextDifficulty c v i ts cds \<noteq> None"
proof -
  define w where "w = difficultyWindowByBlockVersion c v"
  define k where "k = difficultyCutByBlockVersion c v"
  define ts' where "ts' = (if of_nat (length ts) > w then vec_resize ts w else ts)"
  define cds' where "cds' = (if of_nat (length ts) > w then vec_resize cds w else cds)"
  have n: "unat (of_nat (length ts) :: u64) = length ts" using assms(2) by (intro unat_of_nat_small) simp
  have len: "length ts' = length cds'" "length ts' \<le> unat w" "length ts' \<le> length ts"
    using assms(1) n by (auto simp: ts'_def cds'_def vec_resize_def word_less_unat)
  define l :: u64 where "l = of_nat (length ts')"
  have l: "unat l = length ts'" unfolding l_def by (rule unat_of_length [OF len(2)])
  show ?thesis
  proof (cases "l \<le> 1")
    case True
    then show ?thesis
      by (simp add: nextDifficulty_def Let_def flip: w_def k_def ts'_def cds'_def l_def)
  next
    case False
    then have l2: "2 \<le> unat l" by (simp add: word_le_unat)
    obtain b e where be: "cut_range l w k = (b, e)" by fastforce
    have range: "unat b + 2 \<le> unat e" "unat e \<le> unat l"
      using cut_range_bounds [OF l2 _ _ be] len l assms(3) by (auto simp: w_def k_def)
    obtain s t where st: "span_and_work (sort ts') cds' b e = Some (s, t)"
      using span_and_work_returns [OF range(1), of "sort ts'" cds'] range(2) l len by auto
    define m where "m = min 17 (length ts')"
    define ts2 where "ts2 = drop (length ts - m) ts"
    define cds2 where "cds2 = drop (length cds - m) cds"
    have m: "length ts2 = m" "length cds2 = m" "m \<le> length cds" "2 \<le> m" "m \<le> 17"
      using len assms(1) l l2 by (auto simp: ts2_def cds2_def m_def)
    have m64: "unat (of_nat m :: u64) = m" using m(5) by (intro unat_of_nat_small) simp
    obtain b2 e2 where be2: "cut_range (of_nat m) 17 0 = (b2, e2)" by fastforce
    have range2: "unat b2 + 2 \<le> unat e2" "unat e2 \<le> m"
      using cut_range_bounds [OF _ _ _ be2] m m64 by auto
    obtain s2 t2 where st2: "span_and_work (sort ts2) cds2 b2 e2 = Some (s2, t2)"
      using span_and_work_returns [OF range2(1), of "sort ts2" cds2] range2(2) m by auto
    show ?thesis
      unfolding nextDifficulty_def Let_def w_def [symmetric] k_def [symmetric] ts'_def [symmetric] cds'_def [symmetric]
        l_def [symmetric] be prod.case st length_sort m_def [symmetric] ts2_def [symmetric] cds2_def [symmetric] m(1) be2 st2
      using False m(3) by (simp add: st st2 split: prod.split)
  qed
qed

lemma LWMA_order: "LWMA_2_DIFFICULTY_BLOCK_INDEX \<le> LWMA_2_DIFFICULTY_BLOCK_INDEX_V2" "LWMA_2_DIFFICULTY_BLOCK_INDEX \<le> LWMA_2_DIFFICULTY_BLOCK_INDEX_V3"
  "LWMA_2_DIFFICULTY_BLOCK_INDEX \<le> LWMA_3_DIFFICULTY_BLOCK_INDEX"
  by (simp_all add: LWMA_2_DIFFICULTY_BLOCK_INDEX_def LWMA_2_DIFFICULTY_BLOCK_INDEX_V2_def
      LWMA_2_DIFFICULTY_BLOCK_INDEX_V3_def LWMA_3_DIFFICULTY_BLOCK_INDEX_def word_le_unat)

lemma builder_windows:
  assumes "CurrencyBuilder_init u = Inr c"
  shows "2 * unat (difficultyCutByBlockVersion c v) + 2 \<le> unat (difficultyWindowByBlockVersion c v)"
proof -
  have "m_difficultyWindow c = 17" "m_difficultyCut c = DIFFICULTY_CUT"
    using assms by (auto simp: builder_defs builder_constants Let_def word_less_unat)
  then show ?thesis
    by (simp add: difficultyCutByBlockVersion_def difficultyWindowByBlockVersion_def DIFFICULTY_CUT_def
        DIFFICULTY_CUT_V1_def DIFFICULTY_CUT_V2_def DIFFICULTY_WINDOW_V1_def DIFFICULTY_WINDOW_V2_def
        DIFFICULTY_WINDOW_def EXPECTED_NUMBER_OF_BLOCKS_PER_DAY_def)
qed

section \<open>The check of the proof of work\<close>

text \<open>What a block has to satisfy; \<open>path\<close> is the hash of the genesis block.\<close>

definition pow_accepts :: "slow_hashes \<Rightarrow> hash \<Rightarrow> BlockTemplate \<Rightarrow> u64 \<Rightarrow> bool" where
  "pow_accepts sh path b difficulty \<longleftrightarrow>
     (\<exists>h. long_hash_spec (cn_slow_hash_v0 sh) (cn_lite_slow_hash_v1 sh) (cn_turtle_lite_slow_hash_v2 sh) b = Inr h \<and>
          le_nat h * unat difficulty < 2 ^ 256) \<and>
     (majorVersion b = BLOCK_MAJOR_VERSION_1 \<or>
      BLOCK_MAJOR_VERSION_2 \<le> majorVersion b \<and> majorVersion b \<le> BLOCK_MAJOR_VERSION_5 \<and>
      (\<exists>tag leaf. getMergeMiningTagFromExtra (extra (pb_baseTransaction (parentBlock b))) = Some tag \<and>
         length (blockchainBranch (parentBlock b)) \<le> 256 \<and> aux_hash_spec b = Inr leaf \<and>
         tree_hash_from_branch cn_fast_hash (blockchainBranch (parentBlock b)) (length (blockchainBranch (parentBlock b)))
           leaf (Some path) = merkleRoot tag))"

abbreviation cache_consistent :: "slow_hashes \<Rightarrow> CachedBlock \<Rightarrow> bool" where
  "cache_consistent sh \<equiv> block_cache_ok (cn_slow_hash_v0 sh) (cn_lite_slow_hash_v1 sh) (cn_turtle_lite_slow_hash_v2 sh)"

definition hashes_sized :: "slow_hashes \<Rightarrow> bool" where
  "hashes_sized sh \<longleftrightarrow> (\<forall>x. length (cn_slow_hash_v0 sh x) = 32 \<and> length (cn_lite_slow_hash_v1 sh x) = 32 \<and>
     length (cn_turtle_lite_slow_hash_v2 sh x) = 32)"

lemma long_hash_length:
  assumes "hashes_sized sh"
    "long_hash_spec (cn_slow_hash_v0 sh) (cn_lite_slow_hash_v1 sh) (cn_turtle_lite_slow_hash_v2 sh) b = Inr h"
  shows "length h = 32"
  using assms by (auto simp: long_hash_spec_def hashes_sized_def Let_def split: if_splits)

lemma version_values:
  "BLOCK_MAJOR_VERSION_1 = 1" "BLOCK_MAJOR_VERSION_2 = 2" "BLOCK_MAJOR_VERSION_3 = 3" "BLOCK_MAJOR_VERSION_4 = 4"
  "BLOCK_MAJOR_VERSION_5 = 5"
  by (simp_all add: BLOCK_MAJOR_VERSION_1_def BLOCK_MAJOR_VERSION_2_def BLOCK_MAJOR_VERSION_3_def
      BLOCK_MAJOR_VERSION_4_def BLOCK_MAJOR_VERSION_5_def)

lemma version_range: "2 \<le> v \<and> v \<le> 5 \<longleftrightarrow> v \<in> {2, 3, 4, 5}" for v :: byte
proof -
  have "2 \<le> n \<and> n \<le> 5 \<longleftrightarrow> n \<in> {2, 3, 4, 5}" for n :: nat by auto
  from this [of "unat v"] show ?thesis by (simp add: word_le_unat word_eq_unat)
qed

lemma checkProofOfWorkV2_exact:
  assumes sized: "hashes_sized sh" and cb: "cache_consistent sh cb" and g: "cache_consistent sh g"
    and path: "block_hash_spec (cb_block g) = Inr path" and v: "BLOCK_MAJOR_VERSION_2 \<le> majorVersion (cb_block cb)"
      "majorVersion (cb_block cb) \<le> BLOCK_MAJOR_VERSION_5"
  shows "\<exists>r cb' g'. checkProofOfWorkV2 sh g cb d = (r, cb', g') \<and> (r = Inr True \<longleftrightarrow> pow_accepts sh path (cb_block cb) d) \<and>
    cache_consistent sh cb' \<and> cb_block cb' = cb_block cb \<and> cache_consistent sh g' \<and> cb_block g' = cb_block g"
proof -
  have v1: "majorVersion (cb_block cb) \<noteq> BLOCK_MAJOR_VERSION_1" and v2: "\<not> majorVersion (cb_block cb) < BLOCK_MAJOR_VERSION_2"
    using v(1) by (auto simp: version_values word_le_unat word_less_unat word_eq_unat)
  let ?branch = "blockchainBranch (parentBlock (cb_block cb))"
  from cb show ?thesis
  proof (cases rule: long_hash_memo.get_cases)
    case (fails e c1)
    then show ?thesis using g v1 v2 by (simp add: checkProofOfWorkV2_def pow_accepts_def Let_def)
  next
    case (returns h c1)
    note lh = this
    have hash: "check_hash h d \<longleftrightarrow> le_nat h * unat d < 2 ^ 256"
      by (rule check_hash_exact) (rule long_hash_length [OF sized lh(2)])
    show ?thesis
    proof (cases "getMergeMiningTagFromExtra (extra (pb_baseTransaction (parentBlock (cb_block cb))))")
      case None
      then show ?thesis using g v1 v2 lh by (simp add: checkProofOfWorkV2_def pow_accepts_def Let_def)
    next
      case (Some tag)
      show ?thesis
      proof (cases "check_hash h d \<and> length ?branch \<le> 256")
        case False
        then show ?thesis using g v1 v2 lh Some hash by (auto simp: checkProofOfWorkV2_def pow_accepts_def Let_def)
      next
        case True
        from lh(3) show ?thesis
        proof (cases rule: aux_hash_memo.get_cases)
          case (fails e c2)
          then show ?thesis using g v1 v2 lh Some True by (auto simp: checkProofOfWorkV2_def pow_accepts_def Let_def)
        next
          case (returns leaf c2)
          note ah = this
          from g show ?thesis
          proof (cases rule: block_hash_memo.get_cases)
            case (fails e g2)
            then show ?thesis using path by simp
          next
            case (returns p g2)
            then show ?thesis using v v1 v2 lh Some True ah path hash
              by (auto simp: checkProofOfWorkV2_def pow_accepts_def Let_def)
          qed
        qed
      qed
    qed
  qed
qed

lemma checkProofOfWork_exact:
  assumes sized: "hashes_sized sh" and cb: "cache_consistent sh cb" and g: "cache_consistent sh g"
    and path: "block_hash_spec (cb_block g) = Inr path"
  shows "\<exists>r cb' g'. checkProofOfWork sh g cb d = (r, cb', g') \<and> (r = Inr True \<longleftrightarrow> pow_accepts sh path (cb_block cb) d) \<and>
    cache_consistent sh cb' \<and> cb_block cb' = cb_block cb \<and> cache_consistent sh g' \<and> cb_block g' = cb_block g"
proof -
  consider (one) "majorVersion (cb_block cb) = BLOCK_MAJOR_VERSION_1"
    | (two) "BLOCK_MAJOR_VERSION_2 \<le> majorVersion (cb_block cb)" "majorVersion (cb_block cb) \<le> BLOCK_MAJOR_VERSION_5"
    | (other) "majorVersion (cb_block cb) \<noteq> BLOCK_MAJOR_VERSION_1"
        "\<not> (BLOCK_MAJOR_VERSION_2 \<le> majorVersion (cb_block cb) \<and> majorVersion (cb_block cb) \<le> BLOCK_MAJOR_VERSION_5)"
    by blast
  then show ?thesis
  proof cases
    case one
    from cb show ?thesis
    proof (cases rule: long_hash_memo.get_cases)
      case (fails e c1)
      then show ?thesis using g one by (simp add: checkProofOfWork_def checkProofOfWorkV1_def pow_accepts_def Let_def)
    next
      case (returns h c1)
      have "check_hash h d \<longleftrightarrow> le_nat h * unat d < 2 ^ 256"
        by (rule check_hash_exact) (rule long_hash_length [OF sized returns(2)])
      then show ?thesis using g one returns by (simp add: checkProofOfWork_def checkProofOfWorkV1_def pow_accepts_def Let_def)
    qed
  next
    case two
    then have "checkProofOfWork sh g cb d = checkProofOfWorkV2 sh g cb d"
      using version_range [of "majorVersion (cb_block cb)"] by (auto simp: checkProofOfWork_def version_values Let_def)
    then show ?thesis using checkProofOfWorkV2_exact [OF assms two] by simp
  next
    case other
    then show ?thesis using g cb version_range [of "majorVersion (cb_block cb)"]
      by (auto simp: checkProofOfWork_def pow_accepts_def version_values Let_def)
  qed
qed

section \<open>Properties\<close>

text \<open>C2. The check of the proof of work accepts exactly the blocks that it should, whatever was cached
  before: the slow hash of the block's version times the difficulty stays below \<open>2 ^ 256\<close>; a block of
  version 2 to 5 also has a merge mining tag whose root is reached from the block's own hash by
  a branch of at most 256 hashes, along the bits of the genesis hash; other versions are refused.
  The caches stay consistent.\<close>

theorem proof_of_work_exact:
  assumes "hashes_sized sh" "cache_consistent sh cb" "cache_consistent sh g" "block_hash_spec (cb_block g) = Inr path"
  shows "\<exists>r cb' g'. checkProofOfWork sh g cb d = (r, cb', g') \<and> (r = Inr True \<longleftrightarrow> pow_accepts sh path (cb_block cb) d) \<and>
    cache_consistent sh cb' \<and> cb_block cb' = cb_block cb \<and> cache_consistent sh g' \<and> cb_block g' = cb_block g"
  by (rule checkProofOfWork_exact [OF assms])

theorem proof_of_work_exact_witness:
  "\<exists>cb' g'. checkProofOfWork \<lparr> cn_slow_hash_v0 = \<lambda>x. replicate 32 0, cn_lite_slow_hash_v1 = \<lambda>x. replicate 32 0,
      cn_turtle_lite_slow_hash_v2 = \<lambda>x. replicate 32 0 \<rparr> (CachedBlock_init (genesis_block False))
      (CachedBlock_init (genesis_block False)) 1000 = (Inr True, cb', g')"
proof -
  let ?sh = "\<lparr> cn_slow_hash_v0 = \<lambda>x. replicate 32 0, cn_lite_slow_hash_v1 = \<lambda>x. replicate 32 0,
      cn_turtle_lite_slow_hash_v2 = \<lambda>x. replicate 32 0 \<rparr> :: slow_hashes"
  obtain path where path: "block_hash_spec (cb_block (CachedBlock_init (genesis_block False))) = Inr path"
    using genesis_hash [of False] by (auto simp: CachedBlock_init_def)
  have v: "majorVersion (genesis_block False) = BLOCK_MAJOR_VERSION_1" by (simp add: genesis_block_def)
  obtain ba where "hashing_spec (genesis_block False) = Inr ba"
    using path by (cases "hashing_spec (genesis_block False)") (auto simp: block_hash_spec_def CachedBlock_init_def)
  then have "pow_accepts ?sh path (genesis_block False) 1000"
    by (simp add: pow_accepts_def v long_hash_spec_def le_nat_zeros)
  moreover have "hashes_sized ?sh" by (simp add: hashes_sized_def)
  ultimately show ?thesis
    using proof_of_work_exact [OF _ block_cache_ok_init block_cache_ok_init path, of ?sh "genesis_block False" 1000]
    by (auto simp: CachedBlock_init_def)
qed



end
