(* ===== verification/TxPool.thy ===== *)
theory TxPool
  imports Complex_Main "HOL-Library.Product_Lexorder" CachedObjects FormatUtils
begin

text \<open>The transaction pool and its cleaner: \<open>src/src/cryptonote_core/transaction_pool.cpp\<close>,
  \<open>transaction_pool_cleaner.cpp\<close> and \<open>transaction_validatior_state.cpp\<close>. The container with three indexes is the
  list of its elements in the order of the cost index; the other two indexes are searches in it. The
  getters of a pooled transaction fill its caches without changing their answers, and the pool
  keeps the object as it was pushed. The clock and the JSON parser are arguments.

  The theory shows that the order of the pool is the order by fee per byte, that no sequence of
  operations lets two pooled transactions spend the same key image, and which transactions the
  cleaner removes. Both implementations of the pool interface satisfy the contract \<open>pool_contract\<close>.\<close>

section \<open>Definitions\<close>

subsection \<open>Spent key images\<close>

record TransactionValidatorState =
  spentKeyImages :: "key_image set"

definition mergeStates :: "TransactionValidatorState \<Rightarrow> TransactionValidatorState \<Rightarrow> TransactionValidatorState" where
  "mergeStates destination source = destination \<lparr> spentKeyImages := spentKeyImages destination \<union> spentKeyImages source \<rparr>"

definition hasIntersections :: "TransactionValidatorState \<Rightarrow> TransactionValidatorState \<Rightarrow> bool" where
  "hasIntersections destination source \<longleftrightarrow> (\<exists>ki \<in> spentKeyImages source. ki \<in> spentKeyImages destination)"

fun exclude_inputs :: "TransactionInput list \<Rightarrow> TransactionValidatorState \<Rightarrow> TransactionValidatorState" where
  "exclude_inputs [] state = state"
| "exclude_inputs (KeyInput a offs ki # ins) state =
     exclude_inputs ins (state \<lparr> spentKeyImages := spentKeyImages state - {ki} \<rparr>)"
| "exclude_inputs (BaseInput i # ins) state = exclude_inputs ins state"

definition excludeFromState :: "TransactionValidatorState \<Rightarrow> CachedTransaction \<Rightarrow> TransactionValidatorState" where
  "excludeFromState state c = exclude_inputs (inputs (ct_transaction c)) state"

subsection \<open>The pool\<close>

record PendingTransactionInfo =
  receiveTime :: u64
  cachedTransaction :: CachedTransaction
  paymentId :: "hash option"

record TransactionPool =
  poolState :: TransactionValidatorState
  pool_transactions :: "PendingTransactionInfo list"

definition TransactionPool_init :: TransactionPool where
  "TransactionPool_init = \<lparr> poolState = \<lparr> spentKeyImages = {} \<rparr>, pool_transactions = [] \<rparr>"

definition pending_hash :: "PendingTransactionInfo \<Rightarrow> hash" where
  "pending_hash p = projr (fst (getTransactionHash (cachedTransaction p)))"

definition pending_fee :: "PendingTransactionInfo \<Rightarrow> u64" where
  "pending_fee p = projr (fst (getTransactionFee (cachedTransaction p)))"

definition pending_size :: "PendingTransactionInfo \<Rightarrow> u64" where
  "pending_size p = of_nat (length (projr (fst (getTransactionBinaryArray (cachedTransaction p)))))"

text \<open>Whether the left one comes first.\<close>

definition TransactionPriorityComparator :: "PendingTransactionInfo \<Rightarrow> PendingTransactionInfo \<Rightarrow> bool" where
  "TransactionPriorityComparator lhs rhs =
     (let (lhs_lo, lhs_hi) = mul128 (pending_fee lhs) (pending_size rhs);
          (rhs_lo, rhs_hi) = mul128 (pending_fee rhs) (pending_size lhs)
      in lhs_hi > rhs_hi \<or>
         (lhs_hi = rhs_hi \<and> lhs_lo > rhs_lo) \<or>
         (lhs_hi = rhs_hi \<and> lhs_lo = rhs_lo \<and> pending_size lhs < pending_size rhs) \<or>
         (lhs_hi = rhs_hi \<and> lhs_lo = rhs_lo \<and> pending_size lhs = pending_size rhs \<and> receiveTime lhs < receiveTime rhs))"

text \<open>Insertion into the cost index: after the elements that do not come later.\<close>

fun insert_by_cost :: "PendingTransactionInfo \<Rightarrow> PendingTransactionInfo list \<Rightarrow> PendingTransactionInfo list" where
  "insert_by_cost p [] = [p]"
| "insert_by_cost p (x # xs) = (if TransactionPriorityComparator p x then p # x # xs else x # insert_by_cost p xs)"

definition find_pending :: "TransactionPool \<Rightarrow> hash \<Rightarrow> PendingTransactionInfo option" where
  "find_pending pool h = find (\<lambda>p. pending_hash p = h) (pool_transactions pool)"

text \<open>\<open>now\<close> is the value of \<open>time\<close>. A transaction that cannot be serialized raises the exception of its
  getter.\<close>

definition pushTransaction ::
  "u64 \<Rightarrow> CachedTransaction \<Rightarrow> TransactionValidatorState \<Rightarrow> TransactionPool \<Rightarrow> cache_error + bool \<times> TransactionPool" where
  "pushTransaction now c transactionState pool =
     (let pendingTx = \<lparr> receiveTime = now, cachedTransaction = c, paymentId = getPaymentIdFromTxExtra (extra (ct_transaction c)) \<rparr>
      in case fst (getTransactionHash c) of
           Inl e \<Rightarrow> Inl e
         | Inr h \<Rightarrow>
             if find_pending pool h \<noteq> None then Inr (False, pool)
             else if hasIntersections (poolState pool) transactionState then Inr (False, pool)
             else Inr (True, pool \<lparr> poolState := mergeStates (poolState pool) transactionState,
                                   pool_transactions := insert_by_cost pendingTx (pool_transactions pool) \<rparr>))"

text \<open>A missing transaction violates the assertion: \<open>None\<close>.\<close>

definition pool_getTransaction :: "TransactionPool \<Rightarrow> hash \<Rightarrow> CachedTransaction option" where
  "pool_getTransaction pool h = map_option cachedTransaction (find_pending pool h)"

definition removeTransaction :: "hash \<Rightarrow> TransactionPool \<Rightarrow> bool \<times> TransactionPool" where
  "removeTransaction h pool =
     (case find_pending pool h of
        None \<Rightarrow> (False, pool)
      | Some it \<Rightarrow> (True, pool \<lparr> poolState := excludeFromState (poolState pool) (cachedTransaction it),
                               pool_transactions := remove1 it (pool_transactions pool) \<rparr>))"

definition getTransactionCount :: "TransactionPool \<Rightarrow> nat" where
  "getTransactionCount pool = length (pool_transactions pool)"

definition getTransactionHashes :: "TransactionPool \<Rightarrow> hash list" where
  "getTransactionHashes pool = map pending_hash (pool_transactions pool)"

definition checkIfTransactionPresent :: "TransactionPool \<Rightarrow> hash \<Rightarrow> bool" where
  "checkIfTransactionPresent pool h \<longleftrightarrow> find_pending pool h \<noteq> None"

definition getPoolTransactions :: "TransactionPool \<Rightarrow> CachedTransaction list" where
  "getPoolTransactions pool = map cachedTransaction (pool_transactions pool)"

definition getTransactionReceiveTime :: "TransactionPool \<Rightarrow> hash \<Rightarrow> u64 option" where
  "getTransactionReceiveTime pool h = map_option receiveTime (find_pending pool h)"

definition getTransactionHashesByPaymentId :: "TransactionPool \<Rightarrow> hash \<Rightarrow> hash list" where
  "getTransactionHashesByPaymentId pool pid =
     map pending_hash (filter (\<lambda>p. paymentId p = Some pid) (pool_transactions pool))"

definition pool_flush :: "TransactionPool \<Rightarrow> TransactionPool" where
  "pool_flush pool = fold (\<lambda>h pool. snd (removeTransaction h pool)) (getTransactionHashes pool) pool"

subsection \<open>The cleaner\<close>

record CleanWrapper =
  transactionPool :: TransactionPool
  recentlyDeletedTransactions :: "hash \<Rightarrow> u64 option"
  timeout :: u64

text \<open>The order of evaluation of the conjunction: the pool is asked only for a transaction that was not
  deleted recently.\<close>

definition isTransactionRecentlyDeleted :: "CleanWrapper \<Rightarrow> hash \<Rightarrow> bool" where
  "isTransactionRecentlyDeleted w h =
     (case recentlyDeletedTransactions w h of None \<Rightarrow> False | Some t \<Rightarrow> t \<ge> timeout w)"

definition clean_pushTransaction ::
  "u64 \<Rightarrow> CachedTransaction \<Rightarrow> TransactionValidatorState \<Rightarrow> CleanWrapper \<Rightarrow> cache_error + bool \<times> CleanWrapper" where
  "clean_pushTransaction now c transactionState w =
     bindE (fst (getTransactionHash c)) (\<lambda>h.
       if isTransactionRecentlyDeleted w h then Inr (False, w)
       else bindE (pushTransaction now c transactionState (transactionPool w)) (\<lambda>(r, pool).
              Inr (r, w \<lparr> transactionPool := pool \<rparr>)))"

definition clean_removeTransaction :: "hash \<Rightarrow> CleanWrapper \<Rightarrow> bool \<times> CleanWrapper" where
  "clean_removeTransaction h w =
     (case removeTransaction h (transactionPool w) of (r, pool) \<Rightarrow> (r, w \<lparr> transactionPool := pool \<rparr>))"

definition clean_flush :: "CleanWrapper \<Rightarrow> CleanWrapper" where
  "clean_flush w = w \<lparr> transactionPool := pool_flush (transactionPool w) \<rparr>"

text \<open>The value of \<open>std::stoul\<close> in base 16 of one or two characters as \<open>toHex\<close> writes them; \<open>None\<close> is its
  exception.\<close>

fun hex2ascii :: "bytes \<Rightarrow> bytes option" where
  "hex2ascii [] = Some []"
| "hex2ascii [a] = (case fromHex_char_opt a of None \<Rightarrow> None | Some x \<Rightarrow> Some [x])"
| "hex2ascii (a # b # s) =
     (case fromHex_char_opt a of
        None \<Rightarrow> None
      | Some x \<Rightarrow> map_option (\<lambda>r. (case fromHex_char_opt b of Some y \<Rightarrow> push_bit 4 x OR y | None \<Rightarrow> x) # r) (hex2ascii s))"

text \<open>\<open>substr\<close> raises an exception past the end.\<close>

definition substr_from :: "nat \<Rightarrow> bytes \<Rightarrow> bytes option" where
  "substr_from n s = (if n > length s then None else Some (drop n s))"

text \<open>\<open>json_parse\<close> is the parser of the JSON library; its exception is \<open>None\<close>.\<close>

definition trimExtra :: "(bytes \<Rightarrow> 'json option) \<Rightarrow> bytes \<Rightarrow> 'json option" where
  "trimExtra json_parse ex =
     (case Option.bind (Option.bind (substr_from 66 ex) hex2ascii) json_parse of
        Some j \<Rightarrow> Some j
      | None \<Rightarrow>
          (case Option.bind (Option.bind (substr_from 78 ex) hex2ascii) json_parse of
             Some j \<Rightarrow> Some j
           | None \<Rightarrow> json_parse (bytes_of ''{ 't': 0 }'')))"

text \<open>Whether a transaction is deleted; \<open>json_t\<close> reads the member \<open>t\<close> as an unsigned number or raises an
  exception.\<close>

definition clean_verdict ::
  "(bytes \<Rightarrow> 'json option) \<Rightarrow> ('json \<Rightarrow> u64 option) \<Rightarrow> u64 \<Rightarrow> u64 \<Rightarrow> u32 \<Rightarrow> u64 \<Rightarrow> Transaction \<Rightarrow> bool" where
  "clean_verdict json_parse json_t timeout' currentTime height received tx =
     (let transactionAge = currentTime - received;
          tx_extra_data_size = of_nat (length (extra tx)) :: u64
      in case validate_mixin_transactions [tx] (ucast height) of
           Inl _ \<Rightarrow> True
         | Inr _ \<Rightarrow>
             if transactionAge \<ge> timeout' then True
             else if tx_extra_data_size > MAX_EXTRA_SIZE_BLOCK then
               if transactionAge \<ge> CRYPTONOTE_MEMPOOL_TX_LIVETIME \<or> tx_extra_data_size \<ge> MAX_EXTRA_SIZE_POOL then True
               else
               (case Option.bind (trimExtra json_parse (toHex (extra tx))) json_t of
                  None \<Rightarrow> True
                | Some box_time \<Rightarrow> currentTime - box_time div 1000 \<ge> CRYPTONOTE_MEMPOOL_TX_LIVETIME)
             else False)"

text \<open>\<open>emplace\<close> keeps an entry that exists.\<close>

definition map_emplace :: "'k \<Rightarrow> 'v \<Rightarrow> ('k \<Rightarrow> 'v option) \<Rightarrow> ('k \<Rightarrow> 'v option)" where
  "map_emplace k v m = (case m k of None \<Rightarrow> m(k \<mapsto> v) | Some _ \<Rightarrow> m)"

fun clean_loop ::
  "(bytes \<Rightarrow> 'json option) \<Rightarrow> ('json \<Rightarrow> u64 option) \<Rightarrow> u64 \<Rightarrow> u32 \<Rightarrow> hash list \<Rightarrow> CleanWrapper \<Rightarrow> hash list \<Rightarrow>
   (CleanWrapper \<times> hash list) option" where
  "clean_loop json_parse json_t currentTime height [] w deleted = Some (w, deleted)"
| "clean_loop json_parse json_t currentTime height (h # hs) w deleted =
     (case find_pending (transactionPool w) h of
        None \<Rightarrow> None
      | Some p \<Rightarrow>
          if clean_verdict json_parse json_t (timeout w) currentTime height (receiveTime p) (ct_transaction (cachedTransaction p))
          then clean_loop json_parse json_t currentTime height hs
                 (w \<lparr> recentlyDeletedTransactions := map_emplace h currentTime (recentlyDeletedTransactions w),
                      transactionPool := snd (removeTransaction h (transactionPool w)) \<rparr>) (deleted @ [h])
          else clean_loop json_parse json_t currentTime height hs w deleted)"

definition cleanRecentlyDeletedTransactions :: "u64 \<Rightarrow> CleanWrapper \<Rightarrow> CleanWrapper" where
  "cleanRecentlyDeletedTransactions currentTime w =
     w \<lparr> recentlyDeletedTransactions := (\<lambda>h. case recentlyDeletedTransactions w h of
           None \<Rightarrow> None | Some t \<Rightarrow> if currentTime - t \<ge> timeout w then None else Some t) \<rparr>"

definition clean ::
  "(bytes \<Rightarrow> 'json option) \<Rightarrow> ('json \<Rightarrow> u64 option) \<Rightarrow> u64 \<Rightarrow> u32 \<Rightarrow> CleanWrapper \<Rightarrow> (CleanWrapper \<times> hash list) option" where
  "clean json_parse json_t currentTime height w =
     Option.bind (clean_loop json_parse json_t currentTime height (getTransactionHashes (transactionPool w)) w []) (\<lambda>(w, deleted).
       Some (cleanRecentlyDeletedTransactions currentTime w, deleted))"

section \<open>The order of the pool\<close>

lemma mul128_less:
  assumes "mul128 a b = (lo, hi)" "mul128 c d = (lo', hi')"
  shows "hi > hi' \<or> hi = hi' \<and> lo > lo' \<longleftrightarrow> unat c * unat d < unat a * unat b"
    "hi = hi' \<and> lo = lo' \<longleftrightarrow> unat a * unat b = unat c * unat d"
proof -
  note n = mul128_nat [OF assms(1), symmetric] mul128_nat [OF assms(2), symmetric]
  show "hi > hi' \<or> hi = hi' \<and> lo > lo' \<longleftrightarrow> unat c * unat d < unat a * unat b"
    unfolding n word_less_unat word_eq_unat using unat_lt_64 [of lo] unat_lt_64 [of lo'] by auto
  show "hi = hi' \<and> lo = lo' \<longleftrightarrow> unat a * unat b = unat c * unat d"
    unfolding n word_eq_unat using unat_lt_64 [of lo] unat_lt_64 [of lo']
    by (cases "unat hi" "unat hi'" rule: linorder_cases) auto
qed

lemma comparator_nat:
  "TransactionPriorityComparator l r \<longleftrightarrow>
     (let vl = unat (pending_fee l) * unat (pending_size r); vr = unat (pending_fee r) * unat (pending_size l) in
      vl > vr \<or> vl = vr \<and> (unat (pending_size l) < unat (pending_size r) \<or>
        unat (pending_size l) = unat (pending_size r) \<and> unat (receiveTime l) < unat (receiveTime r)))"
proof -
  obtain ll lh where l: "mul128 (pending_fee l) (pending_size r) = (ll, lh)" by fastforce
  obtain rl rh where r: "mul128 (pending_fee r) (pending_size l) = (rl, rh)" by fastforce
  note less = mul128_less [OF l r]
  show ?thesis
    unfolding TransactionPriorityComparator_def l r Let_def prod.case less [symmetric] word_less_unat word_eq_unat by blast
qed

lemma price_less:
  assumes "0 < (s :: nat)" "0 < (t :: nat)"
  shows "(of_nat a / of_nat s :: rat) < of_nat b / of_nat t \<longleftrightarrow> a * t < b * s"
  using assms by (simp add: divide_less_eq less_divide_eq flip: of_nat_mult)

lemma price_eq:
  assumes "0 < (s :: nat)" "0 < (t :: nat)"
  shows "(of_nat a / of_nat s :: rat) = of_nat b / of_nat t \<longleftrightarrow> a * t = b * s"
  using assms by (simp add: frac_eq_eq flip: of_nat_mult)

text \<open>The price per byte, the highest first, then the size, then the time of reception.\<close>

definition priority :: "PendingTransactionInfo \<Rightarrow> rat \<times> nat \<times> nat" where
  "priority p = (- (of_nat (unat (pending_fee p)) / of_nat (unat (pending_size p))), unat (pending_size p), unat (receiveTime p))"

lemma comparator_priority:
  assumes "0 < pending_size l" "0 < pending_size r"
  shows "TransactionPriorityComparator l r \<longleftrightarrow> priority l < priority r"
proof -
  have pos: "0 < unat (pending_size l)" "0 < unat (pending_size r)"
    using assms by (simp_all add: word_less_unat)
  have lex: "((- x, a, b) < (- y, c, d)) \<longleftrightarrow> y < x \<or> y = x \<and> (a < c \<or> a = c \<and> b < d)"
    for x y :: rat and a b c d :: nat
    by (auto simp: less_prod_def)
  show ?thesis
    unfolding comparator_nat Let_def priority_def lex price_less [OF pos(2,1)] price_eq [OF pos(2,1)]
    by (metis less_irrefl)
qed

section \<open>The contract of a pool\<close>

text \<open>What the users of \<open>ITransactionPool\<close> rely on: the pool itself and the cleaner around it provide it.\<close>

locale pool_contract =
  fixes invar :: "'p \<Rightarrow> bool"
    and hashes :: "'p \<Rightarrow> hash list"
    and present :: "'p \<Rightarrow> hash \<Rightarrow> bool"
    and images :: "'p \<Rightarrow> key_image set"
    and remove :: "hash \<Rightarrow> 'p \<Rightarrow> bool \<times> 'p"
  assumes present_iff: "invar p \<Longrightarrow> present p h \<longleftrightarrow> h \<in> set (hashes p)"
    and remove_result: "invar p \<Longrightarrow> fst (remove h p) = present p h"
    and remove_hashes: "invar p \<Longrightarrow> hashes (snd (remove h p)) = remove1 h (hashes p)"
    and remove_invar: "invar p \<Longrightarrow> invar (snd (remove h p))"
    and distinct_hashes: "invar p \<Longrightarrow> distinct (hashes p)"
    and no_images: "invar p \<Longrightarrow> hashes p = [] \<Longrightarrow> images p = {}"
begin

lemma remove_all:
  "invar p \<Longrightarrow> invar (fold (\<lambda>h p. snd (remove h p)) hs p) \<and>
    hashes (fold (\<lambda>h p. snd (remove h p)) hs p) = filter (\<lambda>h. h \<notin> set hs) (hashes p)"
proof (induction hs arbitrary: p)
  case (Cons h hs)
  have "filter (\<lambda>x. x \<notin> set hs) (remove1 h (hashes p)) = filter (\<lambda>x. x \<notin> set (h # hs)) (hashes p)"
    using distinct_hashes [OF Cons.prems] by (auto simp: distinct_remove1_removeAll removeAll_filter_not_eq intro!: filter_cong)
  then show ?case using Cons.IH [OF remove_invar [OF Cons.prems]] remove_hashes [OF Cons.prems] by simp
qed simp

text \<open>Removing everything that the pool lists leaves an empty pool without spent key images.\<close>

lemma flush_empties:
  assumes "invar p"
  shows "hashes (fold (\<lambda>h p. snd (remove h p)) (hashes p) p) = []"
    "images (fold (\<lambda>h p. snd (remove h p)) (hashes p) p) = {}"
  using remove_all [OF assms, of "hashes p"] no_images by simp_all

end

section \<open>The invariant of the pool\<close>

text \<open>The key images that a pooled transaction spends.\<close>

definition key_images :: "TransactionInput list \<Rightarrow> key_image list" where
  "key_images ins = map keyImage (filter (\<lambda>i. \<not> is_BaseInput i) ins)"

abbreviation pending_images :: "PendingTransactionInfo \<Rightarrow> key_image list" where
  "pending_images p \<equiv> key_images (inputs (ct_transaction (cachedTransaction p)))"

definition pending_ok :: "PendingTransactionInfo \<Rightarrow> bool" where
  "pending_ok p \<longleftrightarrow> 0 < pending_size p \<and> distinct (pending_images p)"

definition pool_inv :: "TransactionPool \<Rightarrow> bool" where
  "pool_inv pool \<longleftrightarrow>
     list_all pending_ok (pool_transactions pool) \<and>
     sorted (map priority (pool_transactions pool)) \<and>
     distinct (map pending_hash (pool_transactions pool)) \<and>
     distinct (concat (map pending_images (pool_transactions pool))) \<and>
     spentKeyImages (poolState pool) = set (concat (map pending_images (pool_transactions pool)))"

lemma exclude_inputs_images: "spentKeyImages (exclude_inputs ins st) = spentKeyImages st - set (key_images ins)"
  by (induction ins st rule: exclude_inputs.induct) (auto simp: key_images_def)

lemma mset_insert_by_cost: "mset (insert_by_cost p xs) = add_mset p (mset xs)"
  by (induction xs) auto

lemma set_insert_by_cost: "set (insert_by_cost p xs) = insert p (set xs)"
  using mset_insert_by_cost [of p xs] by (metis set_mset_add_mset_insert set_mset_mset)

lemma sorted_insert_by_cost:
  assumes "list_all pending_ok (p # xs)" "sorted (map priority xs)"
  shows "sorted (map priority (insert_by_cost p xs))"
  using assms
proof (induction xs)
  case (Cons x xs)
  have c: "TransactionPriorityComparator p x \<longleftrightarrow> priority p < priority x"
    by (rule comparator_priority) (use Cons.prems in \<open>simp_all add: pending_ok_def\<close>)
  show ?case
  proof (cases "TransactionPriorityComparator p x")
    case True
    then show ?thesis using Cons.prems c by (auto intro: order.trans less_imp_le)
  next
    case False
    then show ?thesis using Cons c by (auto simp: set_insert_by_cost not_less)
  qed
qed simp

lemma perm_concat_map:
  assumes "mset xs = mset ys"
  shows "mset (map f xs) = mset (map f ys)" "mset (concat (map g xs)) = mset (concat (map g ys))"
  using assms by (simp_all add: mset_concat flip: sum_mset_sum_list)

text \<open>What the caller of \<open>pushTransaction\<close> provides: a transaction without base inputs and repeated key
  images, whose state holds its key images.\<close>

definition pushable :: "CachedTransaction \<Rightarrow> TransactionValidatorState \<Rightarrow> bool" where
  "pushable c st \<longleftrightarrow> tx_cache_ok c \<and> distinct (key_images (inputs (ct_transaction c))) \<and>
     spentKeyImages st = set (key_images (inputs (ct_transaction c))) \<and>
     (\<forall>ba. tx_blob_spec (ct_transaction c) = Inr ba \<longrightarrow> length ba < 2 ^ 64)"

lemma write_Transaction_nonempty: "write_Transaction t = Inr ba \<Longrightarrow> ba \<noteq> []"
  by (auto simp: write_Transaction_def write_TransactionPrefix_def out_uint8_def writeVarint_write_varint write_varint_nat
      bindE_eq_Inr Let_def split: if_splits)

lemma pending_size_positive:
  assumes "pushable c st" "fst (getTransactionHash c) = Inr h"
  shows "0 < pending_size \<lparr> receiveTime = now, cachedTransaction = c, paymentId = i \<rparr>"
proof -
  have ok: "tx_cache_ok c" using assms(1) by (simp add: pushable_def)
  then have "tx_hash_spec (ct_transaction c) = Inr h" using assms(2) tx_hash_memo.get_spec by metis
  then obtain ba where ba: "tx_blob_spec (ct_transaction c) = Inr ba" by (auto simp: tx_hash_spec_def bindE_eq_Inr)
  then have "ba \<noteq> []" using write_Transaction_nonempty by (auto simp: tx_blob_spec_def split: sum.splits)
  moreover have "length ba < 2 ^ 64" using assms(1) ba by (simp add: pushable_def)
  moreover have "fst (getTransactionBinaryArray c) = Inr ba" using tx_blob_memo.get_spec [OF ok] ba by simp
  ultimately show ?thesis
    by (simp add: pending_size_def word_less_unat unat_of_nat_small)
qed

lemma find_pending_None: "find_pending pool h = None \<longleftrightarrow> h \<notin> pending_hash ` set (pool_transactions pool)"
  by (auto simp: find_pending_def find_None_iff)

lemma find_pending_Some: "find_pending pool h = Some p \<Longrightarrow> p \<in> set (pool_transactions pool) \<and> pending_hash p = h"
  by (auto simp: find_pending_def find_Some_iff)

lemma push_keeps_inv:
  assumes inv: "pool_inv pool" and ok: "pushable c st" and push: "pushTransaction now c st pool = Inr (r, pool')"
  shows "pool_inv pool'"
proof (cases "r")
  case False
  then show ?thesis using push inv by (auto simp: pushTransaction_def Let_def split: sum.splits if_splits)
next
  case True
  let ?p = "\<lparr> receiveTime = now, cachedTransaction = c, paymentId = getPaymentIdFromTxExtra (extra (ct_transaction c)) \<rparr>"
  let ?xs = "insert_by_cost ?p (pool_transactions pool)"
  obtain h where h: "fst (getTransactionHash c) = Inr h" "find_pending pool h = None"
    "\<not> hasIntersections (poolState pool) st"
    and pool': "pool' = pool \<lparr> poolState := mergeStates (poolState pool) st, pool_transactions := ?xs \<rparr>"
    using push True by (auto simp: pushTransaction_def Let_def split: sum.splits if_splits)
  have m: "mset ?xs = mset (?p # pool_transactions pool)" by (simp add: mset_insert_by_cost)
  have p: "pending_ok ?p" using ok pending_size_positive [OF ok h(1)] by (simp add: pending_ok_def pushable_def)
  have all: "list_all pending_ok (?p # pool_transactions pool)" using p inv by (simp add: pool_inv_def)
  have hash: "pending_hash ?p \<notin> pending_hash ` set (pool_transactions pool)"
    using h by (simp add: pending_hash_def find_pending_None)
  have st: "spentKeyImages st = set (pending_images ?p)" using ok by (simp add: pushable_def)
  have "distinct (map pending_hash ?xs)"
    unfolding mset_eq_imp_distinct_iff [OF perm_concat_map(1) [OF m]] using inv hash by (simp add: pool_inv_def)
  moreover have "distinct (concat (map pending_images ?xs))"
    unfolding mset_eq_imp_distinct_iff [OF perm_concat_map(2) [OF m]] using inv p h(3) st by (auto simp: pool_inv_def hasIntersections_def pending_ok_def)
  moreover have "set (concat (map pending_images ?xs)) = spentKeyImages (poolState pool) \<union> spentKeyImages st"
    using inv st by (auto simp: pool_inv_def set_insert_by_cost)
  moreover have "list_all pending_ok ?xs" using all by (auto simp: list_all_iff set_insert_by_cost)
  moreover have "sorted (map priority ?xs)"
    using sorted_insert_by_cost [OF all] inv by (simp add: pool_inv_def)
  ultimately show ?thesis unfolding pool' pool_inv_def by (simp add: mergeStates_def)
qed

lemma distinct_map_unique: "distinct (map f xs) \<Longrightarrow> x \<in> set xs \<Longrightarrow> y \<in> set xs \<Longrightarrow> f x = f y \<Longrightarrow> x = y"
  by (auto simp: distinct_map dest: inj_onD)

lemma pool_inv_distinct: "pool_inv pool \<Longrightarrow> distinct (map pending_hash (pool_transactions pool))"
  by (simp add: pool_inv_def)

lemma remove_transactions:
  assumes d: "distinct (map pending_hash (pool_transactions pool))"
  shows "pool_transactions (snd (removeTransaction h pool)) = filter (\<lambda>p. pending_hash p \<noteq> h) (pool_transactions pool)"
proof (cases "find_pending pool h")
  case None
  then have "\<forall>p \<in> set (pool_transactions pool). pending_hash p \<noteq> h" by (auto simp: find_pending_None)
  then show ?thesis using None by (simp add: removeTransaction_def)
next
  case (Some p)
  note p = find_pending_Some [OF Some]
  have "distinct (pool_transactions pool)" using d by (simp add: distinct_map)
  moreover have "q \<noteq> p \<longleftrightarrow> pending_hash q \<noteq> h" if "q \<in> set (pool_transactions pool)" for q
    using distinct_map_unique [OF d that] p by auto
  ultimately show ?thesis
    using Some by (auto simp: removeTransaction_def distinct_remove1_removeAll removeAll_filter_not_eq intro: filter_cong)
qed

lemma concat_filter_parts:
  "set (concat (map f xs)) = set (concat (map f (filter P xs))) \<union> set (concat (map f (filter (\<lambda>x. \<not> P x) xs)))"
  by auto

lemma distinct_concat_filter: "distinct (concat (map f xs)) \<Longrightarrow> distinct (concat (map f (filter P xs)))"
  by (induction xs) auto

lemma distinct_concat_disjoint:
  "distinct (concat (map f xs)) \<Longrightarrow>
    set (concat (map f (filter P xs))) \<inter> set (concat (map f (filter (\<lambda>x. \<not> P x) xs))) = {}"
  by (induction xs) auto

lemma remove_keeps_inv:
  assumes inv: "pool_inv pool"
  shows "pool_inv (snd (removeTransaction h pool))"
proof (cases "find_pending pool h")
  case None
  then show ?thesis using inv by (simp add: removeTransaction_def)
next
  case (Some p)
  let ?xs = "pool_transactions pool"
  note p = find_pending_Some [OF Some]
  have d: "distinct (map pending_hash ?xs)" "distinct (concat (map pending_images ?xs))" using inv by (simp_all add: pool_inv_def)
  have gone: "set (concat (map pending_images (filter (\<lambda>q. \<not> pending_hash q \<noteq> h) ?xs))) = set (pending_images p)"
    using p distinct_map_unique [OF d(1)] by auto
  have st: "spentKeyImages (poolState (snd (removeTransaction h pool))) = spentKeyImages (poolState pool) - set (pending_images p)"
    using Some by (simp add: removeTransaction_def excludeFromState_def exclude_inputs_images)
  have "spentKeyImages (poolState pool) - set (pending_images p) =
      set (concat (map pending_images (filter (\<lambda>q. pending_hash q \<noteq> h) ?xs)))"
    using inv concat_filter_parts [of pending_images ?xs "\<lambda>q. pending_hash q \<noteq> h"]
      distinct_concat_disjoint [OF d(2), of "\<lambda>q. pending_hash q \<noteq> h"] gone
    unfolding pool_inv_def by blast
  then show ?thesis
    using inv distinct_concat_filter [OF d(2)] unfolding pool_inv_def remove_transactions [OF pool_inv_distinct [OF inv]] st
    by (auto simp: list_all_iff sorted_filter distinct_map_filter)
qed

lemma filter_hash_remove1:
  assumes "distinct (map f xs)"
  shows "map f (filter (\<lambda>p. f p \<noteq> h) xs) = remove1 h (map f xs)"
  using assms by (induction xs) (auto simp: filter_id_conv image_iff intro!: map_cong filter_True)

interpretation pool: pool_contract pool_inv getTransactionHashes checkIfTransactionPresent
  "\<lambda>pool. spentKeyImages (poolState pool)" removeTransaction
proof
  fix pool h assume inv: "pool_inv pool"
  then show "distinct (getTransactionHashes pool)" by (simp add: pool_inv_def getTransactionHashes_def)
  show "checkIfTransactionPresent pool h \<longleftrightarrow> h \<in> set (getTransactionHashes pool)"
    by (auto simp: checkIfTransactionPresent_def getTransactionHashes_def find_pending_None simp del: not_None_eq)
  show "fst (removeTransaction h pool) = checkIfTransactionPresent pool h"
    by (simp add: removeTransaction_def checkIfTransactionPresent_def split: option.split)
  show "getTransactionHashes (snd (removeTransaction h pool)) = remove1 h (getTransactionHashes pool)"
    unfolding getTransactionHashes_def remove_transactions [OF pool_inv_distinct [OF inv]]
    by (rule filter_hash_remove1) (use inv in \<open>simp add: pool_inv_def\<close>)
  show "pool_inv (snd (removeTransaction h pool))" by (rule remove_keeps_inv [OF inv])
  show "spentKeyImages (poolState pool) = {}" if "getTransactionHashes pool = []"
    using inv that by (simp add: pool_inv_def getTransactionHashes_def)
qed

interpretation clean_pool: pool_contract "\<lambda>w. pool_inv (transactionPool w)" "\<lambda>w. getTransactionHashes (transactionPool w)"
  "\<lambda>w. checkIfTransactionPresent (transactionPool w)" "\<lambda>w. spentKeyImages (poolState (transactionPool w))" clean_removeTransaction
  by unfold_locales
    (simp_all add: clean_removeTransaction_def split_beta pool.present_iff pool.remove_result pool.remove_hashes
      pool.remove_invar pool.distinct_hashes pool.no_images)

lemma pool_flush_empty:
  assumes "pool_inv pool"
  shows "pool_inv (pool_flush pool)" "getTransactionHashes (pool_flush pool) = []" "spentKeyImages (poolState (pool_flush pool)) = {}"
  unfolding pool_flush_def using pool.remove_all [OF assms] pool.flush_empties [OF assms] by blast+

section \<open>Reachable pools\<close>

inductive pool_reachable :: "TransactionPool \<Rightarrow> bool" where
  init: "pool_reachable TransactionPool_init"
| push: "pool_reachable pool \<Longrightarrow> pushable c st \<Longrightarrow> pushTransaction now c st pool = Inr (r, pool') \<Longrightarrow> pool_reachable pool'"
| remove: "pool_reachable pool \<Longrightarrow> removeTransaction h pool = (r, pool') \<Longrightarrow> pool_reachable pool'"
| flush: "pool_reachable pool \<Longrightarrow> pool_reachable (pool_flush pool)"

lemma pool_reachable_inv: "pool_reachable pool \<Longrightarrow> pool_inv pool"
proof (induction rule: pool_reachable.induct)
  case init
  then show ?case by (simp add: pool_inv_def TransactionPool_init_def)
next
  case (push pool c st now r pool')
  then show ?case using push_keeps_inv by blast
next
  case (remove pool h r pool')
  then show ?case using remove_keeps_inv [of pool h] by simp
next
  case (flush pool)
  then show ?case using pool_flush_empty by blast
qed

section \<open>The cleaner\<close>

abbreviation verdict ::
  "(bytes \<Rightarrow> 'json option) \<Rightarrow> ('json \<Rightarrow> u64 option) \<Rightarrow> u64 \<Rightarrow> u64 \<Rightarrow> u32 \<Rightarrow> PendingTransactionInfo \<Rightarrow> bool" where
  "verdict jp jt to now height p \<equiv> clean_verdict jp jt to now height (receiveTime p) (ct_transaction (cachedTransaction p))"

lemma find_pending_member:
  assumes "pool_inv pool" "p \<in> set (pool_transactions pool)"
  shows "find_pending pool (pending_hash p) = Some p"
proof (cases "find_pending pool (pending_hash p)")
  case None
  then show ?thesis using assms(2) by (auto simp: find_pending_None)
next
  case (Some q)
  then show ?thesis
    using find_pending_Some [OF Some] assms distinct_map_unique [of pending_hash "pool_transactions pool" q p]
    by (simp add: pool_inv_def)
qed

lemma clean_loop_result:
  assumes "pool_inv (transactionPool w)" "set ps \<subseteq> set (pool_transactions (transactionPool w))" "distinct (map pending_hash ps)"
  shows "\<exists>w'. clean_loop jp jt now height (map pending_hash ps) w del =
      Some (w', del @ map pending_hash (filter (verdict jp jt (timeout w) now height) ps)) \<and>
    pool_inv (transactionPool w') \<and> timeout w' = timeout w \<and>
    pool_transactions (transactionPool w') =
      filter (\<lambda>p. \<not> (p \<in> set ps \<and> verdict jp jt (timeout w) now height p)) (pool_transactions (transactionPool w))"
  using assms
proof (induction ps arbitrary: w del)
  case Nil
  then show ?case by simp
next
  case (Cons p ps)
  let ?v = "verdict jp jt (timeout w) now height"
  let ?pool = "transactionPool w"
  have p: "find_pending ?pool (pending_hash p) = Some p"
    by (rule find_pending_member) (use Cons.prems in simp_all)
  show ?case
  proof (cases "?v p")
    case False
    have "\<exists>w'. clean_loop jp jt now height (map pending_hash ps) w del = Some (w', del @ map pending_hash (filter ?v ps)) \<and>
        pool_inv (transactionPool w') \<and> timeout w' = timeout w \<and>
        pool_transactions (transactionPool w') = filter (\<lambda>p. \<not> (p \<in> set ps \<and> ?v p)) (pool_transactions ?pool)"
      by (rule Cons.IH) (use Cons.prems in simp_all)
    moreover have "filter (\<lambda>q. \<not> (q \<in> set ps \<and> ?v q)) (pool_transactions ?pool) =
        filter (\<lambda>q. \<not> (q \<in> set (p # ps) \<and> ?v q)) (pool_transactions ?pool)"
      using False by (intro filter_cong) auto
    ultimately show ?thesis using p False by simp
  next
    case True
    let ?w = "w \<lparr> recentlyDeletedTransactions := map_emplace (pending_hash p) now (recentlyDeletedTransactions w),
      transactionPool := snd (removeTransaction (pending_hash p) ?pool) \<rparr>"
    have txs: "pool_transactions (transactionPool ?w) = filter (\<lambda>q. pending_hash q \<noteq> pending_hash p) (pool_transactions ?pool)"
      using remove_transactions [OF pool_inv_distinct [OF Cons.prems(1)]] by simp
    have IH: "\<exists>w'. clean_loop jp jt now height (map pending_hash ps) ?w (del @ [pending_hash p]) =
        Some (w', (del @ [pending_hash p]) @ map pending_hash (filter (verdict jp jt (timeout ?w) now height) ps)) \<and>
        pool_inv (transactionPool w') \<and> timeout w' = timeout ?w \<and>
        pool_transactions (transactionPool w') =
          filter (\<lambda>q. \<not> (q \<in> set ps \<and> verdict jp jt (timeout ?w) now height q)) (pool_transactions (transactionPool ?w))"
    proof (rule Cons.IH)
      show "pool_inv (transactionPool ?w)" using remove_keeps_inv [OF Cons.prems(1)] by simp
      show "set ps \<subseteq> set (pool_transactions (transactionPool ?w))" unfolding txs using Cons.prems by (auto simp: image_iff)
      show "distinct (map pending_hash ps)" using Cons.prems by simp
    qed
    have kept: "filter (\<lambda>q. \<not> (q \<in> set ps \<and> ?v q)) (filter (\<lambda>q. pending_hash q \<noteq> pending_hash p) (pool_transactions ?pool)) =
        filter (\<lambda>q. \<not> (q \<in> set (p # ps) \<and> ?v q)) (pool_transactions ?pool)"
    proof -
      have "pending_hash q \<noteq> pending_hash p \<longleftrightarrow> q \<noteq> p" if "q \<in> set (pool_transactions ?pool)" for q
        using distinct_map_unique [OF _ that, of pending_hash p] Cons.prems by (auto simp: pool_inv_def)
      then show ?thesis using True by (auto intro!: filter_cong)
    qed
    obtain w' where w': "clean_loop jp jt now height (map pending_hash ps) ?w (del @ [pending_hash p]) =
        Some (w', (del @ [pending_hash p]) @ map pending_hash (filter ?v ps))"
      "pool_inv (transactionPool w')" "timeout w' = timeout w"
      "pool_transactions (transactionPool w') = filter (\<lambda>q. \<not> (q \<in> set (p # ps) \<and> ?v q)) (pool_transactions ?pool)"
      using IH [unfolded txs] unfolding kept [symmetric] by auto
    show ?thesis by (intro exI [of _ w'] conjI) (use w' p True in simp_all)
  qed
qed

lemma clean_result:
  assumes "pool_inv (transactionPool w)"
  shows "\<exists>w'. clean jp jt now height w =
      Some (w', map pending_hash (filter (verdict jp jt (timeout w) now height) (pool_transactions (transactionPool w)))) \<and>
    pool_inv (transactionPool w') \<and>
    pool_transactions (transactionPool w') =
      filter (\<lambda>p. \<not> verdict jp jt (timeout w) now height p) (pool_transactions (transactionPool w))"
proof -
  let ?xs = "pool_transactions (transactionPool w)"
  have d: "distinct (map pending_hash ?xs)" using assms by (simp add: pool_inv_def)
  obtain w' where w': "clean_loop jp jt now height (map pending_hash ?xs) w [] =
      Some (w', map pending_hash (filter (verdict jp jt (timeout w) now height) ?xs))"
    "pool_inv (transactionPool w')" "pool_transactions (transactionPool w') =
      filter (\<lambda>p. \<not> (p \<in> set ?xs \<and> verdict jp jt (timeout w) now height p)) ?xs"
    using clean_loop_result [OF assms subset_refl d, of jp jt now height "[]"] by auto
  have "filter (\<lambda>p. \<not> (p \<in> set ?xs \<and> verdict jp jt (timeout w) now height p)) ?xs =
      filter (\<lambda>p. \<not> verdict jp jt (timeout w) now height p) ?xs"
    by (intro filter_cong) auto
  with w' show ?thesis
    by (simp add: clean_def getTransactionHashes_def cleanRecentlyDeletedTransactions_def)
qed

section \<open>Properties\<close>

lemma push_result:
  assumes "pushable c st" "fst (getTransactionHash c) = Inr h"
  shows "\<exists>pool'. pushTransaction now c st pool =
    Inr (h \<notin> set (getTransactionHashes pool) \<and>
         set (key_images (inputs (ct_transaction c))) \<inter> spentKeyImages (poolState pool) = {}, pool')"
  using assms
  by (auto simp: pushTransaction_def pushable_def hasIntersections_def getTransactionHashes_def find_pending_None
      simp del: not_None_eq)

text \<open>C3. In every pool that pushes, removals and flushes can produce, no hash is listed twice and no key
  image is spent twice, the recorded state is exactly the key images of the listed transactions, and the
  transactions are listed by falling fee per byte, then growing size, then arrival. A push answers true
  exactly when the hash is new and none of its key images is spent in the pool.\<close>

theorem pool_never_double_spends:
  assumes "pool_reachable pool"
  shows "distinct (getTransactionHashes pool) \<and>
    distinct (concat (map pending_images (pool_transactions pool))) \<and>
    spentKeyImages (poolState pool) = set (concat (map pending_images (pool_transactions pool))) \<and>
    sorted (map priority (pool_transactions pool)) \<and>
    (\<forall>now c st h. pushable c st \<and> fst (getTransactionHash c) = Inr h \<longrightarrow>
       (\<exists>pool'. pushTransaction now c st pool =
          Inr (h \<notin> set (getTransactionHashes pool) \<and>
               set (key_images (inputs (ct_transaction c))) \<inter> spentKeyImages (poolState pool) = {}, pool')))"
  using pool_reachable_inv [OF assms] push_result unfolding pool_inv_def getTransactionHashes_def by blast

definition sample_cached :: CachedTransaction where
  "sample_cached = CachedTransaction_init sample_transaction"

definition sample_spent :: TransactionValidatorState where
  "sample_spent = \<lparr> spentKeyImages = {replicate 32 9} \<rparr>"

lemma sample_pushable:
  "pushable sample_cached sample_spent" "\<exists>h. fst (getTransactionHash sample_cached) = Inr h"
proof -
  have w: "write_Transaction sample_transaction = Inr (transaction_bytes sample_transaction)"
    by (rule write_Transaction_wf [OF wf_sample_transaction])
  have "length (transaction_bytes sample_transaction) < 2 ^ 64"
    by (simp add: transaction_bytes_def write_TransactionPrefix_def sample_transaction_def write_container_def
        write_TransactionInput_def write_TransactionOutput_def write_TransactionOutputTarget_def write_varintVector_def
        write_asBinary_def out_string_def out_binary_def out_tag_def out_uint8_def out_uint32_def out_uint64_def
        out_beginArray_def signature_bytes_def writeVarint_write_varint write_varint_nat varint_nat.simps)
  then show "pushable sample_cached sample_spent"
    using w tx_cache_ok_init [of sample_transaction]
    by (simp add: pushable_def sample_cached_def sample_spent_def key_images_def CachedTransaction_init_def
        tx_blob_spec_def sample_transaction_def)
  show "\<exists>h. fst (getTransactionHash sample_cached) = Inr h"
    using tx_hash_memo.get_spec [OF tx_cache_ok_init, of sample_transaction] w
    by (simp add: sample_cached_def tx_hash_spec_def tx_blob_spec_def CachedTransaction_init_def)
qed

lemma reachable_singleton:
  assumes "pushable c st" "fst (getTransactionHash c) = Inr h"
  shows "\<exists>pool. pool_reachable pool \<and> map cachedTransaction (pool_transactions pool) = [c] \<and>
     map receiveTime (pool_transactions pool) = [now]"
proof -
  let ?p = "\<lparr> receiveTime = now, cachedTransaction = c, paymentId = getPaymentIdFromTxExtra (extra (ct_transaction c)) \<rparr>"
  let ?pool = "\<lparr> poolState = mergeStates \<lparr> spentKeyImages = {} \<rparr> st, pool_transactions = [?p] \<rparr>"
  have "pushTransaction now c st TransactionPool_init = Inr (True, ?pool)"
    using assms(2) by (simp add: pushTransaction_def TransactionPool_init_def find_pending_def hasIntersections_def)
  then have "pool_reachable ?pool"
    by (rule pool_reachable.push [OF pool_reachable.init assms(1)])
  then show ?thesis by (intro exI [of _ ?pool]) simp
qed

lemma sample_pool:
  "\<exists>pool. pool_reachable pool \<and> map cachedTransaction (pool_transactions pool) = [sample_cached] \<and>
     map receiveTime (pool_transactions pool) = [1000]"
proof -
  obtain h where "fst (getTransactionHash sample_cached) = Inr h" using sample_pushable(2) by (rule exE)
  then show ?thesis by (rule reachable_singleton [OF sample_pushable(1)])
qed

theorem pool_never_double_spends_witness:
  "\<exists>pool. pool_reachable pool \<and> length (getTransactionHashes pool) = 1 \<and>
     spentKeyImages (poolState pool) = {replicate 32 9}"
proof -
  obtain pool where p: "pool_reachable pool" "map cachedTransaction (pool_transactions pool) = [sample_cached]"
    using sample_pool by (elim exE conjE)
  have "spentKeyImages (poolState pool) = set (concat (map pending_images (pool_transactions pool)))"
    using pool_never_double_spends [OF p(1)] by (elim conjE)
  moreover obtain q where q: "pool_transactions pool = [q]" "cachedTransaction q = sample_cached"
    using p(2) by (cases "pool_transactions pool") simp_all
  moreover have "pending_images q = [replicate 32 9]"
    unfolding q key_images_def
    by (simp add: sample_cached_def CachedTransaction_init_def sample_transaction_def)
  ultimately have "spentKeyImages (poolState pool) = {replicate 32 9}" by simp
  moreover have "length (getTransactionHashes pool) = 1"
    using arg_cong [OF p(2), of length] by (simp add: getTransactionHashes_def)
  ultimately show ?thesis using p(1) by (intro exI [of _ pool] conjI)
qed

text \<open>C19. A cleaning pass over a reachable pool always ends normally: it removes exactly the transactions
  the rules condemn (wrong ring size, too old, extra data too large, too old or unreadable), keeps all the
  others in their order, reports the hashes it removed, and leaves the key images of the kept transactions
  as the recorded state.\<close>

theorem pool_clean_exact:
  assumes "pool_reachable (transactionPool w)"
  shows "\<exists>w'. clean json_parse json_t now height w =
      Some (w', map pending_hash (filter (verdict json_parse json_t (timeout w) now height)
                 (pool_transactions (transactionPool w)))) \<and>
    pool_transactions (transactionPool w') =
      filter (\<lambda>p. \<not> verdict json_parse json_t (timeout w) now height p) (pool_transactions (transactionPool w)) \<and>
    spentKeyImages (poolState (transactionPool w')) =
      set (concat (map pending_images (pool_transactions (transactionPool w'))))"
  using clean_result [OF pool_reachable_inv [OF assms], of json_parse json_t now height] by (auto simp: pool_inv_def)

theorem pool_clean_exact_witness:
  "\<exists>w w' :: CleanWrapper. \<exists>h. pool_reachable (transactionPool w) \<and> getTransactionHashes (transactionPool w) = [h] \<and>
     clean (\<lambda>_. None :: unit option) (\<lambda>_. None) 90000 10 w = Some (w', [h]) \<and>
     getTransactionHashes (transactionPool w') = [] \<and> spentKeyImages (poolState (transactionPool w')) = {}"
proof -
  obtain pool where p: "pool_reachable pool" "map cachedTransaction (pool_transactions pool) = [sample_cached]"
    "map receiveTime (pool_transactions pool) = [1000]"
    using sample_pool by (elim exE conjE)
  let ?w = "\<lparr> transactionPool = pool, recentlyDeletedTransactions = Map.empty, timeout = 86400 \<rparr>"
  obtain q where q: "pool_transactions pool = [q]" "receiveTime q = 1000" using p by auto
  have v: "verdict (\<lambda>_. None :: unit option) (\<lambda>_. None) 86400 90000 10 q"
    using q by (simp add: clean_verdict_def Let_def split: sum.split)
  obtain w' where "clean (\<lambda>_. None :: unit option) (\<lambda>_. None) 90000 10 ?w = Some (w', [pending_hash q])"
    "pool_transactions (transactionPool w') = []" "spentKeyImages (poolState (transactionPool w')) = {}"
    using pool_clean_exact [of ?w "\<lambda>_. None :: unit option" "\<lambda>_. None" 90000 10] p q v by auto
  then show ?thesis
    by (intro exI [of _ ?w] exI [of _ w'] exI [of _ "pending_hash q"]) (use p(1) q(1) in \<open>simp add: getTransactionHashes_def\<close>)
qed

end
