(* ===== verification/ChainCache.thy ===== *)
theory ChainCache
  imports ProofOfWork TxPool
begin

text \<open>The segments of the block chain in memory, \<open>src/src/cryptonote_core/blockchain_cache.cpp\<close>, and the
  schedule of block versions, \<open>upgrade_manager.cpp\<close>. A segment knows its parent; a query that a segment
  cannot answer goes to the parent. A chain is therefore the list of a segment, its parent, the parent's
  parent and so on to the root. Block indexes are natural numbers (a chain has fewer than \<open>2\<^sup>3\<^sup>2\<close> blocks);
  global output indexes, amounts, coins and difficulties are machine words. A thrown exception or an access
  out of range is \<open>None\<close>.

  The theory shows that every query of a segmented chain is the query of one flat chain, and that
  pushing a block and splitting a segment act on that flat chain as they should: a split changes no
  answer.\<close>

section \<open>Definitions\<close>

subsection \<open>Block versions\<close>

record SimpleUpgradeDetector =
  m_targetVersion :: byte
  m_upgradeIndex :: u32

definition addMajorBlockVersion :: "byte \<Rightarrow> u32 \<Rightarrow> SimpleUpgradeDetector list \<Rightarrow> SimpleUpgradeDetector list" where
  "addMajorBlockVersion targetVersion upgradeHeight' detectors =
     detectors @ [\<lparr> m_targetVersion = targetVersion, m_upgradeIndex = upgradeHeight' \<rparr>]"

primrec version_search :: "SimpleUpgradeDetector list \<Rightarrow> u32 \<Rightarrow> byte" where
  "version_search [] blockIndex' = BLOCK_MAJOR_VERSION_1"
| "version_search (d # ds) blockIndex' =
     (if m_upgradeIndex d < blockIndex' then m_targetVersion d else version_search ds blockIndex')"

definition getBlockMajorVersion :: "SimpleUpgradeDetector list \<Rightarrow> u32 \<Rightarrow> byte" where
  "getBlockMajorVersion detectors blockIndex' = version_search (rev detectors) blockIndex'"

definition upgradeDetectors :: "Currency \<Rightarrow> SimpleUpgradeDetector list" where
  "upgradeDetectors c =
     addMajorBlockVersion BLOCK_MAJOR_VERSION_5 (upgradeHeight c BLOCK_MAJOR_VERSION_5)
     (addMajorBlockVersion BLOCK_MAJOR_VERSION_4 (upgradeHeight c BLOCK_MAJOR_VERSION_4)
     (addMajorBlockVersion BLOCK_MAJOR_VERSION_3 (upgradeHeight c BLOCK_MAJOR_VERSION_3)
     (addMajorBlockVersion BLOCK_MAJOR_VERSION_2 (upgradeHeight c BLOCK_MAJOR_VERSION_2) [])))"

definition getBlockMajorVersionForHeight :: "Currency \<Rightarrow> nat \<Rightarrow> byte" where
  "getBlockMajorVersionForHeight c height = getBlockMajorVersion (upgradeDetectors c) (of_nat height)"

subsection \<open>Segments\<close>

record PackedOutIndex =
  poi_blockIndex :: nat
  poi_transactionIndex :: u16
  poi_outputIndex :: u16

record CachedTransactionInfo =
  cti_blockIndex :: nat
  cti_transactionIndex :: u32
  cti_transactionHash :: hash
  cti_unlockTime :: u64
  cti_outputs :: "TransactionOutputTarget list"
  cti_globalIndexes :: "u32 list"

record CachedBlockInfo =
  cbi_blockHash :: hash
  cbi_timestamp :: u64
  cbi_cumulativeDifficulty :: u64
  cbi_alreadyGeneratedCoins :: u64
  cbi_alreadyGeneratedTransactions :: u64
  cbi_blockSize :: u32

record OutputGlobalIndexesForAmount =
  ogi_startIndex :: u32
  ogi_outputs :: "PackedOutIndex list"

text \<open>The containers by their unique keys: the spent key images with the index of their block, the
  transactions in the order of their blocks, the payment id and hash pairs.\<close>

record BlockchainCache =
  bc_startIndex :: nat
  bc_transactions :: "CachedTransactionInfo list"
  bc_spentKeyImages :: "key_image \<Rightarrow> nat option"
  bc_blockInfos :: "CachedBlockInfo list"
  bc_keyOutputsGlobalIndexes :: "u64 \<Rightarrow> OutputGlobalIndexesForAmount option"
  bc_paymentIds :: "(hash \<times> hash) list"
  bc_storage :: "RawBlock list"

type_synonym chain = "BlockchainCache list"

definition empty_segment :: "nat \<Rightarrow> BlockchainCache" where
  "empty_segment start =
     \<lparr> bc_startIndex = start, bc_transactions = [], bc_spentKeyImages = (\<lambda>_. None), bc_blockInfos = [],
       bc_keyOutputsGlobalIndexes = (\<lambda>_. None), bc_paymentIds = [], bc_storage = [] \<rparr>"

subsection \<open>Queries\<close>

definition getTopBlockIndex :: "BlockchainCache \<Rightarrow> nat" where
  "getTopBlockIndex s = bc_startIndex s + length (bc_blockInfos s) - 1"

definition hasBlock :: "BlockchainCache \<Rightarrow> hash \<Rightarrow> bool" where
  "hasBlock s h = list_ex (\<lambda>b. cbi_blockHash b = h) (bc_blockInfos s)"

primrec position :: "('a \<Rightarrow> bool) \<Rightarrow> 'a list \<Rightarrow> nat option" where
  "position P [] = None"
| "position P (x # xs) = (if P x then Some 0 else map_option Suc (position P xs))"

text \<open>\<open>None\<close> is the exception ``no such block''.\<close>

definition cache_getBlockIndex :: "BlockchainCache \<Rightarrow> hash \<Rightarrow> nat option" where
  "cache_getBlockIndex s h =
     map_option (\<lambda>i. i + bc_startIndex s) (position (\<lambda>b. cbi_blockHash b = h) (bc_blockInfos s))"

primrec checkIfSpent_at :: "key_image \<Rightarrow> nat \<Rightarrow> chain \<Rightarrow> bool" where
  "checkIfSpent_at ki blockIndex' [] = False"
| "checkIfSpent_at ki blockIndex' (s # ps) =
     (if blockIndex' < bc_startIndex s then checkIfSpent_at ki blockIndex' ps
      else case bc_spentKeyImages s ki of
             None \<Rightarrow> checkIfSpent_at ki blockIndex' ps
           | Some b \<Rightarrow> b \<le> blockIndex')"

primrec checkIfSpent :: "key_image \<Rightarrow> chain \<Rightarrow> bool" where
  "checkIfSpent ki [] = False"
| "checkIfSpent ki (s # ps) = (bc_spentKeyImages s ki \<noteq> None \<or> checkIfSpent ki ps)"

text \<open>The lookups by block index, \<open>f\<close> being the member that is read: \<open>getBlockHash\<close>,
  \<open>getAlreadyGeneratedCoins\<close> and \<open>getAlreadyGeneratedTransactions\<close>.\<close>

primrec block_lookup :: "(CachedBlockInfo \<Rightarrow> 'a) \<Rightarrow> nat \<Rightarrow> chain \<Rightarrow> 'a option" where
  "block_lookup f blockIndex' [] = None"
| "block_lookup f blockIndex' (s # ps) =
     (if blockIndex' < bc_startIndex s then block_lookup f blockIndex' ps
      else if blockIndex' - bc_startIndex s < length (bc_blockInfos s)
      then Some (f (bc_blockInfos s ! (blockIndex' - bc_startIndex s)))
      else None)"

definition chain_getBlockHash :: "nat \<Rightarrow> chain \<Rightarrow> hash option" where
  "chain_getBlockHash = block_lookup cbi_blockHash"

definition getAlreadyGeneratedCoins :: "nat \<Rightarrow> chain \<Rightarrow> u64 option" where
  "getAlreadyGeneratedCoins = block_lookup cbi_alreadyGeneratedCoins"

definition getAlreadyGeneratedTransactions :: "nat \<Rightarrow> chain \<Rightarrow> u64 option" where
  "getAlreadyGeneratedTransactions = block_lookup cbi_alreadyGeneratedTransactions"

text \<open>\<open>getCurrentCumulativeDifficulty\<close> does not ask the parent.\<close>

definition getCurrentCumulativeDifficulty :: "nat \<Rightarrow> BlockchainCache \<Rightarrow> u64 option" where
  "getCurrentCumulativeDifficulty blockIndex' s =
     (if bc_startIndex s \<le> blockIndex' \<and> blockIndex' - bc_startIndex s < length (bc_blockInfos s)
      then Some (cbi_cumulativeDifficulty (bc_blockInfos s ! (blockIndex' - bc_startIndex s)))
      else None)"

text \<open>The count of the blocks left wraps when the first index is above the segment; the loop then reads
  out of range.\<close>

primrec cache_getBlockHashes :: "nat \<Rightarrow> nat \<Rightarrow> chain \<Rightarrow> hash list option" where
  "cache_getBlockHashes startBlockIndex maxCount [] = None"
| "cache_getBlockHashes startBlockIndex maxCount (s # ps) =
     (let n = length (bc_blockInfos s) in
      if startBlockIndex < bc_startIndex s
      then map_option (\<lambda>hashes. hashes @ map cbi_blockHash (take (min (maxCount - length hashes) n) (bc_blockInfos s)))
             (cache_getBlockHashes startBlockIndex maxCount ps)
      else let start = startBlockIndex - bc_startIndex s
           in if n < start then None
              else Some (map cbi_blockHash (take (min (n - start) maxCount) (drop start (bc_blockInfos s)))))"

primrec getLastUnits :: "(CachedBlockInfo \<Rightarrow> u64) \<Rightarrow> bool \<Rightarrow> nat \<Rightarrow> nat \<Rightarrow> chain \<Rightarrow> u64 list" where
  "getLastUnits f useGenesis cnt blockIndex' [] = []"
| "getLastUnits f useGenesis cnt blockIndex' (s # ps) =
     (let to = (if blockIndex' < bc_startIndex s then 0 else blockIndex' - bc_startIndex s + 1);
          realCount = min cnt to;
          from = to - realCount;
          skip = (\<not> useGenesis \<and> from = 0 \<and> realCount \<noteq> 0 \<and> ps = []);
          from = (if skip then from + 1 else from);
          realCount = (if skip then realCount - 1 else realCount);
          result = (case ps of [] \<Rightarrow> []
                    | p # _ \<Rightarrow> if realCount < cnt
                               then getLastUnits f useGenesis (cnt - realCount) (min blockIndex' (getTopBlockIndex p)) ps
                               else [])
      in result @ map f (take (to - from) (drop from (bc_blockInfos s))))"

definition getLastTimestamps :: "nat \<Rightarrow> nat \<Rightarrow> bool \<Rightarrow> chain \<Rightarrow> u64 list" where
  "getLastTimestamps cnt blockIndex' useGenesis = getLastUnits cbi_timestamp useGenesis cnt blockIndex'"

definition getLastBlocksSizes :: "nat \<Rightarrow> nat \<Rightarrow> bool \<Rightarrow> chain \<Rightarrow> u64 list" where
  "getLastBlocksSizes cnt blockIndex' useGenesis = getLastUnits (\<lambda>b. ucast (cbi_blockSize b)) useGenesis cnt blockIndex'"

definition getLastCumulativeDifficulties :: "nat \<Rightarrow> nat \<Rightarrow> bool \<Rightarrow> chain \<Rightarrow> u64 list" where
  "getLastCumulativeDifficulties cnt blockIndex' useGenesis = getLastUnits cbi_cumulativeDifficulty useGenesis cnt blockIndex'"

definition getDifficultyForNextBlock :: "Currency \<Rightarrow> nat \<Rightarrow> chain \<Rightarrow> u64 option" where
  "getDifficultyForNextBlock c blockIndex' ch =
     (let nextBlockMajorVersion = getBlockMajorVersionForHeight c (blockIndex' + 1);
          cnt = unat (difficultyBlocksCountByBlockVersion c nextBlockMajorVersion (of_nat blockIndex'));
          timestamps = getLastTimestamps cnt blockIndex' False ch;
          commulativeDifficulties = getLastCumulativeDifficulties cnt blockIndex' False ch
      in getNextDifficulty c nextBlockMajorVersion (of_nat blockIndex') timestamps commulativeDifficulties)"

subsection \<open>Outputs by amount\<close>

text \<open>\<open>std::lower_bound\<close> of a block index in outputs that are sorted by it.\<close>

definition outs_lower_bound :: "PackedOutIndex list \<Rightarrow> nat \<Rightarrow> nat" where
  "outs_lower_bound outs k = length (takeWhile (\<lambda>o'. poi_blockIndex o' < k) outs)"

primrec getKeyOutputsCountForAmount :: "u64 \<Rightarrow> nat \<Rightarrow> chain \<Rightarrow> nat" where
  "getKeyOutputsCountForAmount amount blockIndex' [] = 0"
| "getKeyOutputsCountForAmount amount blockIndex' (s # ps) =
     (case bc_keyOutputsGlobalIndexes s amount of
        None \<Rightarrow> getKeyOutputsCountForAmount amount blockIndex' ps
      | Some e \<Rightarrow> unat (ogi_startIndex e) + outs_lower_bound (ogi_outputs e) blockIndex')"

definition isTransactionSpendTimeUnlocked :: "Currency \<Rightarrow> u64 \<Rightarrow> u64 \<Rightarrow> nat \<Rightarrow> bool" where
  "isTransactionSpendTimeUnlocked c now unlockTime' blockIndex' =
     (if unlockTime' < ucast (m_maxBlockHeight c)
      then of_nat blockIndex' + m_lockedTxAllowedDeltaBlocks c \<ge> unlockTime'
      else now + m_lockedTxAllowedDeltaSeconds c \<ge> unlockTime')"

text \<open>The failures of \<open>ExtractOutputKeysResult\<close>; a success carries what the callback collected.\<close>

datatype ExtractOutputKeysResult = INVALID_GLOBAL_INDEX | OUTPUT_LOCKED

primrec extract_own ::
  "(CachedTransactionInfo \<Rightarrow> PackedOutIndex \<Rightarrow> u32 \<Rightarrow> ExtractOutputKeysResult + 'a) \<Rightarrow> BlockchainCache \<Rightarrow>
   OutputGlobalIndexesForAmount \<Rightarrow> u32 list \<Rightarrow> ExtractOutputKeysResult + 'a list" where
  "extract_own pred s e [] = Inr []"
| "extract_own pred s e (g # gs) =
     (if length (ogi_outputs e) \<le> unat (g - ogi_startIndex e) then Inl INVALID_GLOBAL_INDEX
      else let outputIndex = ogi_outputs e ! unat (g - ogi_startIndex e) in
           case find (\<lambda>t. cti_blockIndex t = poi_blockIndex outputIndex \<and>
                          cti_transactionIndex t = ucast (poi_transactionIndex outputIndex)) (bc_transactions s) of
             None \<Rightarrow> Inl INVALID_GLOBAL_INDEX
           | Some t \<Rightarrow> bindE (pred t outputIndex g) (\<lambda>x. bindE (extract_own pred s e gs) (\<lambda>xs. Inr (x # xs))))"

primrec extractKeyOutputs ::
  "(CachedTransactionInfo \<Rightarrow> PackedOutIndex \<Rightarrow> u32 \<Rightarrow> ExtractOutputKeysResult + 'a) \<Rightarrow> u64 \<Rightarrow> nat \<Rightarrow> u32 list \<Rightarrow> chain \<Rightarrow>
   ExtractOutputKeysResult + 'a list" where
  "extractKeyOutputs pred amount blockIndex' globalIndexes [] = Inl INVALID_GLOBAL_INDEX"
| "extractKeyOutputs pred amount blockIndex' globalIndexes (s # ps) =
     (case bc_keyOutputsGlobalIndexes s amount of
        None \<Rightarrow> extractKeyOutputs pred amount blockIndex' globalIndexes ps
      | Some e \<Rightarrow>
          if blockIndex' < bc_startIndex s then extractKeyOutputs pred amount blockIndex' globalIndexes ps
          else let offset = length (takeWhile (\<lambda>g. g < ogi_startIndex e) globalIndexes) in
               bindE (if offset \<noteq> 0 then extractKeyOutputs pred amount blockIndex' (take offset globalIndexes) ps
                      else Inr []) (\<lambda>xs.
               bindE (extract_own pred s e (drop offset globalIndexes)) (\<lambda>ys. Inr (xs @ ys))))"

definition extractKeyOutputKeys ::
  "Currency \<Rightarrow> u64 \<Rightarrow> u64 \<Rightarrow> nat \<Rightarrow> u32 list \<Rightarrow> chain \<Rightarrow> ExtractOutputKeysResult + public_key list" where
  "extractKeyOutputKeys c now amount blockIndex' globalIndexes ch =
     extractKeyOutputs (\<lambda>info index g.
       if \<not> isTransactionSpendTimeUnlocked c now (cti_unlockTime info) blockIndex' then Inl OUTPUT_LOCKED
       else Inr (target_key (cti_outputs info ! unat (poi_outputIndex index)))) amount blockIndex' globalIndexes ch"

subsection \<open>Pushing a block\<close>

definition insertKeyOutputToGlobalIndex ::
  "u64 \<Rightarrow> PackedOutIndex \<Rightarrow> nat \<Rightarrow> chain \<Rightarrow> BlockchainCache \<Rightarrow> u32 \<times> BlockchainCache" where
  "insertKeyOutputToGlobalIndex amount output blockIndex' ps s =
     (let e = (case bc_keyOutputsGlobalIndexes s amount of
                 Some e \<Rightarrow> e \<lparr> ogi_outputs := ogi_outputs e @ [output] \<rparr>
               | None \<Rightarrow> \<lparr> ogi_startIndex = of_nat (getKeyOutputsCountForAmount amount blockIndex' ps), ogi_outputs = [output] \<rparr>)
      in (ogi_startIndex e + of_nat (length (ogi_outputs e)) - 1,
          s \<lparr> bc_keyOutputsGlobalIndexes := (bc_keyOutputsGlobalIndexes s)(amount \<mapsto> e) \<rparr>))"

primrec push_outputs ::
  "nat \<Rightarrow> u16 \<Rightarrow> chain \<Rightarrow> nat \<Rightarrow> TransactionOutput list \<Rightarrow> BlockchainCache \<Rightarrow> u32 list \<times> BlockchainCache" where
  "push_outputs blockIndex' transactionInBlockIndex ps outputCount [] s = ([], s)"
| "push_outputs blockIndex' transactionInBlockIndex ps outputCount (out # outs) s =
     (let poi = \<lparr> poi_blockIndex = blockIndex', poi_transactionIndex = transactionInBlockIndex, poi_outputIndex = of_nat outputCount \<rparr>;
          (g, s) = insertKeyOutputToGlobalIndex (out_amount out) poi blockIndex' ps s;
          (gs, s) = push_outputs blockIndex' transactionInBlockIndex ps (outputCount + 1) outs s
      in (g # gs, s))"

text \<open>The containers reject an element that repeats a unique key.\<close>

definition cache_pushTransaction :: "CachedTransaction \<Rightarrow> nat \<Rightarrow> u16 \<Rightarrow> chain \<Rightarrow> BlockchainCache \<Rightarrow> BlockchainCache option" where
  "cache_pushTransaction cachedTransaction' blockIndex' transactionInBlockIndex ps s =
     (case fst (getTransactionHash cachedTransaction') of
        Inl _ \<Rightarrow> None
      | Inr h \<Rightarrow>
          let tx = ct_transaction cachedTransaction';
              (globalIndexes, s) = push_outputs blockIndex' transactionInBlockIndex ps 0 (outputs tx) s;
              info = \<lparr> cti_blockIndex = blockIndex', cti_transactionIndex = ucast transactionInBlockIndex, cti_transactionHash = h,
                       cti_unlockTime = unlockTime tx, cti_outputs = map out_target (outputs tx), cti_globalIndexes = globalIndexes \<rparr>;
              s = (if list_ex (\<lambda>t. cti_transactionHash t = h \<or>
                        cti_blockIndex t = blockIndex' \<and> cti_transactionIndex t = ucast transactionInBlockIndex) (bc_transactions s)
                   then s else s \<lparr> bc_transactions := bc_transactions s @ [info] \<rparr>)
          in Some (case getPaymentIdFromTxExtra (extra tx) of
                     None \<Rightarrow> s
                   | Some pid \<Rightarrow> if list_ex (\<lambda>p. snd p = h) (bc_paymentIds s) then s
                                 else s \<lparr> bc_paymentIds := bc_paymentIds s @ [(pid, h)] \<rparr>))"

primrec push_transactions :: "nat \<Rightarrow> chain \<Rightarrow> nat \<Rightarrow> CachedTransaction list \<Rightarrow> BlockchainCache \<Rightarrow> BlockchainCache option" where
  "push_transactions blockIndex' ps transactionBlockIndex [] s = Some s"
| "push_transactions blockIndex' ps transactionBlockIndex (tx # txs) s =
     Option.bind (cache_pushTransaction tx blockIndex' (of_nat transactionBlockIndex) ps s)
       (push_transactions blockIndex' ps (transactionBlockIndex + 1) txs)"

definition addSpentKeyImage :: "key_image set \<Rightarrow> nat \<Rightarrow> (key_image \<Rightarrow> nat option) \<Rightarrow> (key_image \<Rightarrow> nat option)" where
  "addSpentKeyImage kis blockIndex' m = (\<lambda>ki. case m ki of Some b \<Rightarrow> Some b | None \<Rightarrow> if ki \<in> kis then Some blockIndex' else None)"

definition doPushBlock ::
  "CachedBlock \<Rightarrow> CachedTransaction list \<Rightarrow> TransactionValidatorState \<Rightarrow> u64 \<Rightarrow> u64 \<Rightarrow> u64 \<Rightarrow> RawBlock \<Rightarrow> chain \<Rightarrow> chain option" where
  "doPushBlock cachedBlock cachedTransactions validatorState blockSize generatedCoins blockDifficulty rawBlock ch =
     (case (ch, fst (getBlockHash cachedBlock), fst (getBlockIndex cachedBlock)) of
        (s # ps, Inr h, Inr index) \<Rightarrow>
          Option.bind
            (if bc_blockInfos s = [] then
               (case ps of
                  [] \<Rightarrow> Some (0, 0, 0)
                | p # _ \<Rightarrow>
                    Option.bind (getCurrentCumulativeDifficulty (unat (index - 1)) p) (\<lambda>cd.
                    Option.bind (getAlreadyGeneratedCoins (unat (index - 1)) ps) (\<lambda>coins.
                    map_option (\<lambda>n. (cd, coins, n)) (getAlreadyGeneratedTransactions (unat (index - 1)) ps))))
             else let lastBlockInfo = last (bc_blockInfos s)
                  in Some (cbi_cumulativeDifficulty lastBlockInfo, cbi_alreadyGeneratedCoins lastBlockInfo,
                           cbi_alreadyGeneratedTransactions lastBlockInfo))
            (\<lambda>(cumulativeDifficulty, alreadyGeneratedCoins, alreadyGeneratedTransactions).
               let blockInfo = \<lparr> cbi_blockHash = h, cbi_timestamp = timestamp (cb_block cachedBlock),
                     cbi_cumulativeDifficulty = cumulativeDifficulty + blockDifficulty,
                     cbi_alreadyGeneratedCoins = alreadyGeneratedCoins + generatedCoins,
                     cbi_alreadyGeneratedTransactions = alreadyGeneratedTransactions + of_nat (length cachedTransactions) + 1,
                     cbi_blockSize = ucast blockSize \<rparr>;
                   s = (if hasBlock s h then s else s \<lparr> bc_blockInfos := bc_blockInfos s @ [blockInfo] \<rparr>);
                   s = s \<lparr> bc_spentKeyImages := addSpentKeyImage (spentKeyImages validatorState) (unat index) (bc_spentKeyImages s) \<rparr>
               in map_option (\<lambda>s. s \<lparr> bc_storage := bc_storage s @ [rawBlock] \<rparr> # ps)
                    (push_transactions (unat index) ps 0
                       (CachedTransaction_init (baseTransaction (cb_block cachedBlock)) # cachedTransactions) s))
      | _ \<Rightarrow> None)"

text \<open>The root segment holds the genesis block.\<close>

definition root_chain :: "Currency \<Rightarrow> chain option" where
  "root_chain c =
     (let genesisBlock = genesisBlockTemplate c;
          minerReward = foldl (+) 0 (map out_amount (outputs (baseTransaction genesisBlock)))
      in case (write_Transaction (baseTransaction genesisBlock), write_BlockTemplate genesisBlock) of
           (Inr base, Inr block) \<Rightarrow>
             doPushBlock (CachedBlock_init genesisBlock) [] \<lparr> spentKeyImages = {} \<rparr> (of_nat (length base)) minerReward 1
               \<lparr> rb_block = block, rb_transactions = [] \<rparr> [empty_segment 0]
         | _ \<Rightarrow> None)"

subsection \<open>Splitting a segment\<close>

text \<open>The results are the upper and the lower part.\<close>

definition splitSpentKeyImages ::
  "nat \<Rightarrow> (key_image \<Rightarrow> nat option) \<Rightarrow> (key_image \<Rightarrow> nat option) \<times> (key_image \<Rightarrow> nat option)" where
  "splitSpentKeyImages k m =
     ((\<lambda>ki. case m ki of Some b \<Rightarrow> if k \<le> b then Some b else None | None \<Rightarrow> None),
      (\<lambda>ki. case m ki of Some b \<Rightarrow> if k \<le> b then None else Some b | None \<Rightarrow> None))"

definition splitTransactions ::
  "nat \<Rightarrow> CachedTransactionInfo list \<Rightarrow> CachedTransactionInfo list \<times> CachedTransactionInfo list" where
  "splitTransactions k txs = (filter (\<lambda>t. k \<le> cti_blockIndex t) txs, filter (\<lambda>t. \<not> k \<le> cti_blockIndex t) txs)"

definition removePaymentIds :: "hash list \<Rightarrow> (hash \<times> hash) list \<Rightarrow> (hash \<times> hash) list \<times> (hash \<times> hash) list" where
  "removePaymentIds hs ids = (filter (\<lambda>p. snd p \<in> set hs) ids, filter (\<lambda>p. snd p \<notin> set hs) ids)"

definition splitGlobalIndexes ::
  "nat \<Rightarrow> (u64 \<Rightarrow> OutputGlobalIndexesForAmount option) \<Rightarrow>
   (u64 \<Rightarrow> OutputGlobalIndexesForAmount option) \<times> (u64 \<Rightarrow> OutputGlobalIndexesForAmount option)" where
  "splitGlobalIndexes k m =
     ((\<lambda>amount. case m amount of
          None \<Rightarrow> None
        | Some e \<Rightarrow>
            let n = outs_lower_bound (ogi_outputs e) k; newCount = length (ogi_outputs e) - n;
                up = \<lparr> ogi_startIndex = ogi_startIndex e + of_nat (length (ogi_outputs e)) - of_nat newCount,
                       ogi_outputs = drop n (ogi_outputs e) \<rparr>
            in if ogi_outputs up = [] then None else Some up),
      (\<lambda>amount. case m amount of
          None \<Rightarrow> None
        | Some e \<Rightarrow>
            let low = e \<lparr> ogi_outputs := take (outs_lower_bound (ogi_outputs e) k) (ogi_outputs e) \<rparr>
            in if ogi_outputs low = [] then None else Some low))"

definition split_segment :: "nat \<Rightarrow> BlockchainCache \<Rightarrow> BlockchainCache \<times> BlockchainCache" where
  "split_segment splitBlockIndex s =
     (let n = splitBlockIndex - bc_startIndex s;
          (upSpent, lowSpent) = splitSpentKeyImages splitBlockIndex (bc_spentKeyImages s);
          (upTxs, lowTxs) = splitTransactions splitBlockIndex (bc_transactions s);
          (upIds, lowIds) = removePaymentIds (map cti_transactionHash upTxs) (bc_paymentIds s);
          (upOuts, lowOuts) = splitGlobalIndexes splitBlockIndex (bc_keyOutputsGlobalIndexes s)
      in (\<lparr> bc_startIndex = splitBlockIndex, bc_transactions = upTxs, bc_spentKeyImages = upSpent,
            bc_blockInfos = drop n (bc_blockInfos s), bc_keyOutputsGlobalIndexes = upOuts, bc_paymentIds = upIds,
            bc_storage = drop n (bc_storage s) \<rparr>,
          \<lparr> bc_startIndex = bc_startIndex s, bc_transactions = lowTxs, bc_spentKeyImages = lowSpent,
            bc_blockInfos = take n (bc_blockInfos s), bc_keyOutputsGlobalIndexes = lowOuts, bc_paymentIds = lowIds,
            bc_storage = take n (bc_storage s) \<rparr>))"

section \<open>The flat chain\<close>

text \<open>What a chain of segments stands for: the blocks, spent key images, transactions and outputs of one
  undivided chain.\<close>

definition flat_infos :: "chain \<Rightarrow> CachedBlockInfo list" where
  "flat_infos ch = concat (map bc_blockInfos (rev ch))"

primrec flat_spent :: "key_image \<Rightarrow> chain \<Rightarrow> nat option" where
  "flat_spent ki [] = None"
| "flat_spent ki (s # ps) = (case bc_spentKeyImages s ki of None \<Rightarrow> flat_spent ki ps | Some b \<Rightarrow> Some b)"

definition flat_txs :: "chain \<Rightarrow> CachedTransactionInfo list" where
  "flat_txs ch = concat (map bc_transactions (rev ch))"

definition own_outs :: "u64 \<Rightarrow> BlockchainCache \<Rightarrow> PackedOutIndex list" where
  "own_outs amount s = (case bc_keyOutputsGlobalIndexes s amount of None \<Rightarrow> [] | Some e \<Rightarrow> ogi_outputs e)"

definition flat_outs :: "u64 \<Rightarrow> chain \<Rightarrow> PackedOutIndex list" where
  "flat_outs amount ch = concat (map (own_outs amount) (rev ch))"

definition flat_blocks :: "chain \<Rightarrow> RawBlock list" where
  "flat_blocks ch = concat (map bc_storage (rev ch))"

lemma flat_Nil [simp]:
  "flat_infos [] = []" "flat_txs [] = []" "flat_outs a [] = []" "flat_blocks [] = []"
  by (simp_all add: flat_infos_def flat_txs_def flat_outs_def flat_blocks_def)

lemma flat_Cons [simp]:
  "flat_infos (s # ps) = flat_infos ps @ bc_blockInfos s" "flat_txs (s # ps) = flat_txs ps @ bc_transactions s"
  "flat_outs a (s # ps) = flat_outs a ps @ own_outs a s" "flat_blocks (s # ps) = flat_blocks ps @ bc_storage s"
  by (simp_all add: flat_infos_def flat_txs_def flat_outs_def flat_blocks_def)

text \<open>A segment over its parents: its blocks follow theirs, and what it records belongs to its blocks.\<close>

definition in_segment :: "BlockchainCache \<Rightarrow> nat \<Rightarrow> bool" where
  "in_segment s b \<longleftrightarrow> bc_startIndex s \<le> b \<and> b < bc_startIndex s + length (bc_blockInfos s)"

definition outs_ok :: "u64 \<Rightarrow> BlockchainCache \<Rightarrow> chain \<Rightarrow> bool" where
  "outs_ok a s ps \<longleftrightarrow>
     (case bc_keyOutputsGlobalIndexes s a of
        None \<Rightarrow> True
      | Some e \<Rightarrow> ogi_outputs e \<noteq> [] \<and> unat (ogi_startIndex e) = length (flat_outs a ps) \<and>
          length (flat_outs a ps) + length (ogi_outputs e) < 2 ^ 32 \<and>
          sorted (map poi_blockIndex (ogi_outputs e)) \<and> list_all (in_segment s \<circ> poi_blockIndex) (ogi_outputs e))"

definition segment_ok :: "BlockchainCache \<Rightarrow> chain \<Rightarrow> bool" where
  "segment_ok s ps \<longleftrightarrow>
     bc_startIndex s = length (flat_infos ps) \<and>
     length (bc_storage s) = length (bc_blockInfos s) \<and>
     (\<forall>ki b. bc_spentKeyImages s ki = Some b \<longrightarrow> in_segment s b \<and> flat_spent ki ps = None) \<and>
     list_all (in_segment s \<circ> cti_blockIndex) (bc_transactions s) \<and> sorted (map cti_blockIndex (bc_transactions s)) \<and>
     (\<forall>a. outs_ok a s ps)"

primrec chain_ok :: "chain \<Rightarrow> bool" where
  "chain_ok [] = True"
| "chain_ok (s # ps) = (bc_blockInfos s \<noteq> [] \<and> segment_ok s ps \<and> chain_ok ps)"

section \<open>Queries on the flat chain\<close>

lemma flat_spent_bound:
  "chain_ok ch \<Longrightarrow> flat_spent ki ch = Some b \<Longrightarrow> b < length (flat_infos ch)"
proof (induction ch)
  case (Cons s ps)
  then show ?case
    by (cases "bc_spentKeyImages s ki") (auto simp: segment_ok_def in_segment_def trans_less_add1)
qed simp

lemma checkIfSpent_at_flat:
  "chain_ok ch \<Longrightarrow> checkIfSpent_at ki i ch \<longleftrightarrow> (\<exists>b\<le>i. flat_spent ki ch = Some b)"
proof (induction ch)
  case (Cons s ps)
  show ?case
  proof (cases "bc_spentKeyImages s ki")
    case None
    then show ?thesis using Cons by simp
  next
    case (Some b)
    then have "bc_startIndex s \<le> b" "flat_spent ki ps = None" using Cons.prems by (auto simp: segment_ok_def in_segment_def)
    then show ?thesis using Some Cons by auto
  qed
qed simp

lemma checkIfSpent_flat: "checkIfSpent ki ch \<longleftrightarrow> flat_spent ki ch \<noteq> None"
  by (induction ch) (auto split: option.splits)

lemma block_lookup_flat:
  "chain_ok ch \<Longrightarrow> block_lookup f i ch = (if i < length (flat_infos ch) then Some (f (flat_infos ch ! i)) else None)"
  by (induction ch) (auto simp: segment_ok_def nth_append)

lemma top_of_parent:
  assumes "chain_ok (p # ps)"
  shows "getTopBlockIndex p = length (flat_infos (p # ps)) - 1"
  using assms by (simp add: segment_ok_def getTopBlockIndex_def)

lemma flat_infos_nonempty: "chain_ok (p # ps) \<Longrightarrow> 0 < length (flat_infos (p # ps))"
  by simp

lemma getLastUnits_step:
  assumes "ps = p # ps'"
  shows "getLastUnits f g n i (s # ps) =
    (let to = (if i < bc_startIndex s then 0 else i - bc_startIndex s + 1)
     in (if to < n then getLastUnits f g (n - to) (min i (getTopBlockIndex p)) ps else []) @
        map f (take (min n to) (drop (to - min n to) (bc_blockInfos s))))"
proof -
  have "ps \<noteq> []" and c: "(case ps of [] \<Rightarrow> x | q # _ \<Rightarrow> y q) = y p" for x :: "u64 list" and y using assms by simp_all
  then show ?thesis unfolding getLastUnits.simps(2) Let_def c by (auto simp: min_def)
qed

lemma getLastUnits_flat:
  assumes "chain_ok ch" "i < length (flat_infos ch)"
  shows "getLastUnits f g n i ch = map f (drop (max (if g then 0 else 1) (i + 1 - n)) (take (i + 1) (flat_infos ch)))"
  using assms
proof (induction ch arbitrary: i n)
  case (Cons s ps)
  define L where "L = length (flat_infos ps)"
  have st: "bc_startIndex s = L" and ok: "chain_ok ps" using Cons.prems by (simp_all add: segment_ok_def L_def)
  show ?case
  proof (cases ps)
    case Nil
    then show ?thesis using st by (auto simp: L_def Let_def drop_take min_def max_def)
  next
    case ps: (Cons p ps')
    have top: "getTopBlockIndex p = L - 1" and L: "0 < L"
      using top_of_parent [of p ps'] flat_infos_nonempty [of p ps'] ok unfolding ps L_def by simp_all
    note step = getLastUnits_step [OF ps, of f g n i s, unfolded st top Let_def]
    show ?thesis
    proof (cases "i < L")
      case True
      have IH: "getLastUnits f g n i ps = map f (drop (max (if g then 0 else 1) (i + 1 - n)) (take (i + 1) (flat_infos ps)))"
        using Cons.IH [OF ok, of i n] True by (simp add: L_def)
      have "min i (L - 1) = i" using True by simp
      then show ?thesis unfolding step using True IH by (simp add: L_def [symmetric])
    next
      case False
      define t where "t = i - L + 1"
      have i: "i + 1 = L + t" using False by (simp add: t_def)
      have m: "min i (L - 1) = L - 1" "L - 1 + 1 = L" using False L by simp_all
      have IH: "getLastUnits f g (n - t) (L - 1) ps = map f (drop (max (if g then 0 else 1) (L - (n - t))) (flat_infos ps))"
        using Cons.IH [OF ok, of "L - 1" "n - t"] L m(2) by (simp add: L_def)
      have step': "getLastUnits f g n i (s # ps) = (if t < n then getLastUnits f g (n - t) (L - 1) ps else []) @
          map f (take (min n t) (drop (t - min n t) (bc_blockInfos s)))"
        unfolding step using False by (simp add: t_def m(1))
      have fl: "take (i + 1) (flat_infos (s # ps)) = flat_infos ps @ take t (bc_blockInfos s)"
        unfolding i by (simp add: L_def)
      show ?thesis
      proof (cases "t < n")
        case True
        have "max (if g then 0 else 1) (i + 1 - n) = max (if g then 0 else 1) (L - (n - t))" unfolding i using True by simp
        moreover have "max (if g then 0 else 1) (L - (n - t)) \<le> L" using L by simp
        ultimately show ?thesis unfolding step' IH fl using True by (simp add: L_def)
      next
        case False
        have "max (if g then 0 else 1) (i + 1 - n) = L + (t - n)" unfolding i using False L by simp
        then show ?thesis unfolding step' fl using False by (simp add: L_def drop_take min_def)
      qed
    qed
  qed
qed simp

lemma segment_outs_ok: "segment_ok s ps \<Longrightarrow> outs_ok a s ps"
  by (simp add: segment_ok_def)

lemma outs_in_segment:
  "segment_ok s ps \<Longrightarrow> o' \<in> set (own_outs a s) \<Longrightarrow> in_segment s (poi_blockIndex o')"
  using segment_outs_ok [of s ps a] by (auto simp: outs_ok_def own_outs_def list_all_iff split: option.splits)

lemma flat_outs_bound:
  "chain_ok ch \<Longrightarrow> o' \<in> set (flat_outs a ch) \<Longrightarrow> poi_blockIndex o' < length (flat_infos ch)"
proof (induction ch)
  case (Cons s ps)
  then show ?case
    using outs_in_segment [of s ps o' a] by (auto simp: segment_ok_def in_segment_def)
qed simp

lemma lower_bound_filter:
  "sorted (map poi_blockIndex outs) \<Longrightarrow> outs_lower_bound outs k = length (filter (\<lambda>o'. poi_blockIndex o' < k) outs)"
proof (induction outs)
  case (Cons x xs)
  then show ?case
    by (cases "poi_blockIndex x < k") (auto simp: outs_lower_bound_def filter_empty_conv)
qed (simp add: outs_lower_bound_def)

lemma getKeyOutputsCountForAmount_flat:
  assumes "chain_ok ch" "ch = [] \<or> bc_startIndex (hd ch) \<le> k"
  shows "getKeyOutputsCountForAmount a k ch = length (filter (\<lambda>o'. poi_blockIndex o' < k) (flat_outs a ch))"
  using assms
proof (induction ch)
  case (Cons s ps)
  have st: "bc_startIndex s = length (flat_infos ps)" and ok: "chain_ok ps" and k: "length (flat_infos ps) \<le> k"
    using Cons.prems by (simp_all add: segment_ok_def)
  show ?case
  proof (cases "bc_keyOutputsGlobalIndexes s a")
    case None
    have "ps = [] \<or> bc_startIndex (hd ps) \<le> k"
      using ok k by (cases ps) (auto simp: segment_ok_def)
    then show ?thesis using None Cons.IH [OF ok] by (simp add: own_outs_def)
  next
    case (Some e)
    have "outs_ok a s ps" using Cons.prems by (simp add: segment_ok_def)
    then have e: "unat (ogi_startIndex e) = length (flat_outs a ps)" "sorted (map poi_blockIndex (ogi_outputs e))"
      using Some by (simp_all add: outs_ok_def)
    have "filter (\<lambda>o'. poi_blockIndex o' < k) (flat_outs a ps) = flat_outs a ps"
      using flat_outs_bound [OF ok] k by (intro filter_True) force
    then show ?thesis using Some e by (simp add: lower_bound_filter own_outs_def)
  qed
qed simp

text \<open>The output with a global index, on the flat chain.\<close>

primrec mapE :: "('a \<Rightarrow> 'e + 'b) \<Rightarrow> 'a list \<Rightarrow> 'e + 'b list" where
  "mapE f [] = Inr []"
| "mapE f (x # xs) = bindE (f x) (\<lambda>y. bindE (mapE f xs) (\<lambda>ys. Inr (y # ys)))"

lemma mapE_append: "mapE f (xs @ ys) = bindE (mapE f xs) (\<lambda>as. bindE (mapE f ys) (\<lambda>bs. Inr (as @ bs)))"
  by (induction xs) (auto simp: bindE_def split: sum.splits)

lemma mapE_cong: "(\<And>x. x \<in> set xs \<Longrightarrow> f x = g x) \<Longrightarrow> mapE f xs = mapE g xs"
  by (induction xs) auto

definition tx_of_output :: "CachedTransactionInfo list \<Rightarrow> PackedOutIndex \<Rightarrow> CachedTransactionInfo option" where
  "tx_of_output txs o' = find (\<lambda>t. cti_blockIndex t = poi_blockIndex o' \<and>
     cti_transactionIndex t = ucast (poi_transactionIndex o')) txs"

definition flat_lookup ::
  "(CachedTransactionInfo \<Rightarrow> PackedOutIndex \<Rightarrow> u32 \<Rightarrow> ExtractOutputKeysResult + 'a) \<Rightarrow> CachedTransactionInfo list \<Rightarrow>
   PackedOutIndex list \<Rightarrow> u32 \<Rightarrow> ExtractOutputKeysResult + 'a" where
  "flat_lookup pred txs outs g =
     (if length outs \<le> unat g then Inl INVALID_GLOBAL_INDEX
      else case tx_of_output txs (outs ! unat g) of None \<Rightarrow> Inl INVALID_GLOBAL_INDEX | Some t \<Rightarrow> pred t (outs ! unat g) g)"

lemma flat_txs_bound: "chain_ok ch \<Longrightarrow> t \<in> set (flat_txs ch) \<Longrightarrow> cti_blockIndex t < length (flat_infos ch)"
  by (induction ch) (auto simp: segment_ok_def in_segment_def list_all_iff)

lemma tx_of_output_append:
  assumes "chain_ok (s # ps)"
  shows "in_segment s (poi_blockIndex o') \<Longrightarrow> tx_of_output (flat_txs (s # ps)) o' = tx_of_output (bc_transactions s) o'"
    "poi_blockIndex o' < bc_startIndex s \<Longrightarrow> tx_of_output (flat_txs (s # ps)) o' = tx_of_output (flat_txs ps) o'"
proof -
  have app: "tx_of_output (xs @ ys) o' = (case tx_of_output xs o' of None \<Rightarrow> tx_of_output ys o' | Some t \<Rightarrow> Some t)" for xs ys
    by (induction xs) (simp_all add: tx_of_output_def)
  have none: "tx_of_output xs o' = None" if "\<forall>t \<in> set xs. cti_blockIndex t \<noteq> poi_blockIndex o'" for xs
    using that by (auto simp: tx_of_output_def find_None_iff)
  show "tx_of_output (flat_txs (s # ps)) o' = tx_of_output (bc_transactions s) o'" if "in_segment s (poi_blockIndex o')"
  proof -
    have "tx_of_output (flat_txs ps) o' = None"
      using flat_txs_bound [of ps] assms that by (intro none) (force simp: in_segment_def segment_ok_def)
    then show ?thesis by (simp add: app)
  qed
  show "tx_of_output (flat_txs (s # ps)) o' = tx_of_output (flat_txs ps) o'" if "poi_blockIndex o' < bc_startIndex s"
  proof -
    have "tx_of_output (bc_transactions s) o' = None"
      using assms that by (intro none) (force simp: in_segment_def segment_ok_def list_all_iff)
    then show ?thesis by (simp add: app split: option.split)
  qed
qed

lemma flat_lookup_parent:
  assumes "chain_ok (s # ps)" "unat g < length (flat_outs a ps) \<or> bc_keyOutputsGlobalIndexes s a = None"
  shows "flat_lookup pred (flat_txs (s # ps)) (flat_outs a (s # ps)) g = flat_lookup pred (flat_txs ps) (flat_outs a ps) g"
proof (cases "unat g < length (flat_outs a ps)")
  case True
  have "poi_blockIndex (flat_outs a ps ! unat g) < bc_startIndex s"
    using flat_outs_bound [of ps "flat_outs a ps ! unat g" a] assms(1) True by (simp add: segment_ok_def)
  note tx = tx_of_output_append(2) [OF assms(1) this]
  have n: "flat_outs a (s # ps) ! unat g = flat_outs a ps ! unat g"
    "length (flat_outs a (s # ps)) = length (flat_outs a ps) + length (own_outs a s)"
    using True by (simp_all add: nth_append)
  show ?thesis unfolding flat_lookup_def n tx using True by simp
next
  case False
  then show ?thesis using assms(2) by (simp add: flat_lookup_def own_outs_def)
qed

lemma extract_own_flat:
  assumes ok: "chain_ok (s # ps)" and e: "bc_keyOutputsGlobalIndexes s a = Some e"
    and "\<And>g. g \<in> set gs \<Longrightarrow> ogi_startIndex e \<le> g"
  shows "extract_own pred s e gs = mapE (flat_lookup pred (flat_txs (s # ps)) (flat_outs a (s # ps))) gs"
  using assms(3)
proof (induction gs)
  case (Cons g gs)
  have st: "unat (ogi_startIndex e) = length (flat_outs a ps)" and own: "own_outs a s = ogi_outputs e"
    using segment_outs_ok [of s ps a] ok e by (simp_all add: outs_ok_def own_outs_def)
  have g: "unat (g - ogi_startIndex e) = unat g - length (flat_outs a ps)" "length (flat_outs a ps) \<le> unat g"
    using Cons.prems [of g] st by (simp_all add: unat_sub word_le_unat)
  have "flat_lookup pred (flat_txs (s # ps)) (flat_outs a (s # ps)) g =
      (if length (ogi_outputs e) \<le> unat g - length (flat_outs a ps) then Inl INVALID_GLOBAL_INDEX
       else case tx_of_output (bc_transactions s) (ogi_outputs e ! (unat g - length (flat_outs a ps))) of
         None \<Rightarrow> Inl INVALID_GLOBAL_INDEX | Some t \<Rightarrow> pred t (ogi_outputs e ! (unat g - length (flat_outs a ps))) g)"
  proof (cases "length (ogi_outputs e) \<le> unat g - length (flat_outs a ps)")
    case True
    then have "length (flat_outs a (s # ps)) \<le> unat g" using g(2) own by simp
    then show ?thesis using True by (simp add: flat_lookup_def)
  next
    case False
    then have "in_segment s (poi_blockIndex (ogi_outputs e ! (unat g - length (flat_outs a ps))))"
      using outs_in_segment [of s ps "ogi_outputs e ! (unat g - length (flat_outs a ps))" a] ok own by simp
    note tx = tx_of_output_append(1) [OF ok this]
    have n: "flat_outs a (s # ps) ! unat g = ogi_outputs e ! (unat g - length (flat_outs a ps))"
      "length (flat_outs a (s # ps)) = length (flat_outs a ps) + length (ogi_outputs e)"
      using g own by (simp_all add: nth_append)
    have "\<not> length (flat_outs a ps) + length (ogi_outputs e) \<le> unat g" using False g(2) by linarith
    then show ?thesis unfolding flat_lookup_def n tx using False by (simp only: if_False)
  qed
  then show ?case using Cons g by (simp add: tx_of_output_def Let_def split: option.split)
qed simp

lemma takeWhile_sorted_rest:
  assumes "sorted gs" "g \<in> set (drop (length (takeWhile (\<lambda>x. x < m) gs)) gs)"
  shows "m \<le> (g :: 'a :: linorder)"
  using assms
proof (induction gs)
  case (Cons x xs)
  then show ?case by (cases "x < m") auto
qed simp

lemma extractKeyOutputs_flat:
  assumes "chain_ok ch" "ch = [] \<or> bc_startIndex (hd ch) \<le> i" "sorted gs" "gs \<noteq> []"
  shows "extractKeyOutputs pred a i gs ch = mapE (flat_lookup pred (flat_txs ch) (flat_outs a ch)) gs"
  using assms
proof (induction ch arbitrary: gs)
  case Nil
  then show ?case by (cases gs) (simp_all add: flat_lookup_def)
next
  case (Cons s ps)
  note ok = Cons.prems(1)
  have okp: "chain_ok ps" and i: "length (flat_infos ps) \<le> i" "bc_startIndex s \<le> i"
    using Cons.prems(1,2) by (simp_all add: segment_ok_def)
  have ip: "ps = [] \<or> bc_startIndex (hd ps) \<le> i" using okp i(1) by (cases ps) (auto simp: segment_ok_def)
  let ?F = "flat_lookup pred (flat_txs (s # ps)) (flat_outs a (s # ps))"
  let ?P = "flat_lookup pred (flat_txs ps) (flat_outs a ps)"
  show ?case
  proof (cases "bc_keyOutputsGlobalIndexes s a")
    case None
    have "mapE ?F gs = mapE ?P gs" by (rule mapE_cong) (rule flat_lookup_parent [OF ok disjI2 [OF None]])
    then show ?thesis using None Cons.IH [OF okp ip Cons.prems(3,4)] by (simp del: flat_Cons)
  next
    case (Some e)
    let ?n = "length (takeWhile (\<lambda>g. g < ogi_startIndex e) gs)"
    have st: "unat (ogi_startIndex e) = length (flat_outs a ps)"
      using segment_outs_ok [of s ps a] ok Some by (simp add: outs_ok_def)
    have par: "mapE ?P (take ?n gs) = mapE ?F (take ?n gs)"
    proof (rule mapE_cong)
      fix g assume "g \<in> set (take ?n gs)"
      then have "g < ogi_startIndex e" by (metis set_takeWhileD takeWhile_eq_take)
      then show "?P g = ?F g" by (intro flat_lookup_parent [OF ok, symmetric]) (simp add: word_less_unat st)
    qed
    have own: "extract_own pred s e (drop ?n gs) = mapE ?F (drop ?n gs)"
      by (rule extract_own_flat [OF ok Some]) (rule takeWhile_sorted_rest [OF Cons.prems(3)])
    have "(if ?n \<noteq> 0 then extractKeyOutputs pred a i (take ?n gs) ps else Inr []) = mapE ?F (take ?n gs)"
    proof (cases "?n = 0")
      case False
      then show ?thesis
        using Cons.IH [OF okp ip, of "take ?n gs"] Cons.prems(3,4) par by (simp del: flat_Cons)
    qed simp
    then have "extractKeyOutputs pred a i gs (s # ps) =
        bindE (mapE ?F (take ?n gs)) (\<lambda>xs. bindE (mapE ?F (drop ?n gs)) (\<lambda>ys. Inr (xs @ ys)))"
      using Some i(2) own by (simp add: Let_def del: flat_Cons)
    also have "\<dots> = mapE ?F (take ?n gs @ drop ?n gs)" by (rule mapE_append [symmetric])
    finally show ?thesis by simp
  qed
qed

section \<open>Splitting\<close>

lemma split_segment_fields:
  assumes "split_segment k s = (up, low)"
  shows "bc_startIndex up = k" "bc_startIndex low = bc_startIndex s"
    "bc_blockInfos up = drop (k - bc_startIndex s) (bc_blockInfos s)" "bc_blockInfos low = take (k - bc_startIndex s) (bc_blockInfos s)"
    "bc_storage up = drop (k - bc_startIndex s) (bc_storage s)" "bc_storage low = take (k - bc_startIndex s) (bc_storage s)"
    "bc_transactions up = filter (\<lambda>t. k \<le> cti_blockIndex t) (bc_transactions s)"
    "bc_transactions low = filter (\<lambda>t. \<not> k \<le> cti_blockIndex t) (bc_transactions s)"
    "bc_spentKeyImages up = fst (splitSpentKeyImages k (bc_spentKeyImages s))"
    "bc_spentKeyImages low = snd (splitSpentKeyImages k (bc_spentKeyImages s))"
    "bc_keyOutputsGlobalIndexes up = fst (splitGlobalIndexes k (bc_keyOutputsGlobalIndexes s))"
    "bc_keyOutputsGlobalIndexes low = snd (splitGlobalIndexes k (bc_keyOutputsGlobalIndexes s))"
  using assms by (auto simp: split_segment_def Let_def splitTransactions_def split_beta)

lemma split_own_outs:
  assumes "split_segment k s = (up, low)"
  shows "own_outs a low = take (outs_lower_bound (own_outs a s) k) (own_outs a s)"
    "own_outs a up = drop (outs_lower_bound (own_outs a s) k) (own_outs a s)"
  using split_segment_fields(11,12) [OF assms]
  by (auto simp: own_outs_def splitGlobalIndexes_def Let_def split: option.split)

lemma sorted_filter_split:
  "sorted (map f xs) \<Longrightarrow> filter (\<lambda>x. \<not> k \<le> f x) xs @ filter (\<lambda>x. k \<le> f x) xs = xs" for f :: "'a \<Rightarrow> 'b :: linorder"
proof (induction xs)
  case (Cons x xs)
  show ?case
  proof (cases "k \<le> f x")
    case True
    then have "filter (\<lambda>x. \<not> k \<le> f x) xs = []" "filter (\<lambda>x. k \<le> f x) xs = xs"
      using Cons.prems by (force simp: filter_empty_conv intro!: filter_True)+
    then show ?thesis using True by simp
  next
    case False
    then show ?thesis using Cons by simp
  qed
qed simp

lemma split_flat:
  assumes sp: "split_segment k s = (up, low)" and ok: "segment_ok s ps"
  shows "flat_infos (up # low # ps) = flat_infos (s # ps)" "flat_outs a (up # low # ps) = flat_outs a (s # ps)"
    "flat_txs (up # low # ps) = flat_txs (s # ps)" "flat_blocks (up # low # ps) = flat_blocks (s # ps)"
    "flat_spent ki (up # low # ps) = flat_spent ki (s # ps)"
  using ok sorted_filter_split [of cti_blockIndex "bc_transactions s" k]
  by (simp_all add: split_segment_fields [OF sp] split_own_outs [OF sp] segment_ok_def splitSpentKeyImages_def
      split: option.split)

lemma outs_lower_bound_le: "outs_lower_bound outs k \<le> length outs"
  by (simp add: outs_lower_bound_def length_takeWhile_le)

lemma outs_lower_bound_parts:
  assumes "sorted (map poi_blockIndex outs)"
  shows "o' \<in> set (take (outs_lower_bound outs k) outs) \<Longrightarrow> poi_blockIndex o' < k"
    "o' \<in> set (drop (outs_lower_bound outs k) outs) \<Longrightarrow> k \<le> poi_blockIndex o'"
proof -
  show "poi_blockIndex o' < k" if "o' \<in> set (take (outs_lower_bound outs k) outs)"
    using that unfolding outs_lower_bound_def takeWhile_eq_take [symmetric] by (rule set_takeWhileD [THEN conjunct2])
  show "k \<le> poi_blockIndex o'" if "o' \<in> set (drop (outs_lower_bound outs k) outs)"
    using assms that
  proof (induction outs)
    case (Cons x xs)
    then show ?case by (cases "poi_blockIndex x < k") (auto simp: outs_lower_bound_def)
  qed simp
qed

lemma split_outs_ok:
  assumes sp: "split_segment k s = (up, low)" and ok: "segment_ok s ps"
    and k: "bc_startIndex s < k" "k < bc_startIndex s + length (bc_blockInfos s)"
  shows "outs_ok a low ps" "outs_ok a up (low # ps)"
proof -
  let ?outs = "own_outs a s"
  let ?n = "outs_lower_bound ?outs k"
  have n: "?n \<le> length ?outs" by (rule outs_lower_bound_le)
  have seg_low: "in_segment low b \<longleftrightarrow> in_segment s b \<and> b < k" and seg_up: "in_segment up b \<longleftrightarrow> in_segment s b \<and> k \<le> b" for b
    using k by (auto simp: in_segment_def split_segment_fields [OF sp])
  note oks = segment_outs_ok [OF ok, of a]
  have "outs_ok a low ps \<and> outs_ok a up (low # ps)"
  proof (cases "bc_keyOutputsGlobalIndexes s a")
    case None
    then show ?thesis by (simp add: outs_ok_def split_segment_fields [OF sp] splitGlobalIndexes_def)
  next
    case (Some e)
    then have own: "?outs = ogi_outputs e" by (simp add: own_outs_def)
    have e: "unat (ogi_startIndex e) = length (flat_outs a ps)" "length (flat_outs a ps) + length ?outs < 2 ^ 32"
      "sorted (map poi_blockIndex ?outs)" "list_all (in_segment s \<circ> poi_blockIndex) ?outs"
      using oks Some own by (simp_all add: outs_ok_def)
    note parts = outs_lower_bound_parts [OF e(3), of _ k]
    have low: "bc_keyOutputsGlobalIndexes low a = (if ?n = 0 then None else Some (e \<lparr> ogi_outputs := take ?n ?outs \<rparr>))"
      using Some own n by (auto simp: split_segment_fields [OF sp] splitGlobalIndexes_def Let_def)
    have start: "ogi_startIndex e + of_nat (length ?outs) - of_nat (length ?outs - ?n) = ogi_startIndex e + of_nat ?n"
      using n by (simp add: of_nat_diff)
    have up: "bc_keyOutputsGlobalIndexes up a =
        (if ?n = length ?outs then None else Some \<lparr> ogi_startIndex = ogi_startIndex e + of_nat ?n, ogi_outputs = drop ?n ?outs \<rparr>)"
      using Some own n start by (auto simp: split_segment_fields [OF sp] splitGlobalIndexes_def Let_def)
    have "ogi_startIndex e = of_nat (length (flat_outs a ps))" unfolding e(1) [symmetric] by simp
    then have "ogi_startIndex e + of_nat ?n = of_nat (length (flat_outs a ps) + ?n)" by simp
    then have u: "unat (ogi_startIndex e + of_nat ?n) = length (flat_outs a ps) + ?n"
      using e(2) n by (simp only:) (intro unat_of_nat_small, simp)
    have "list_all (in_segment low \<circ> poi_blockIndex) (take ?n ?outs)"
      using e(4) parts(1) in_set_takeD by (fastforce simp: list_all_iff seg_low)
    moreover have "list_all (in_segment up \<circ> poi_blockIndex) (drop ?n ?outs)"
      using e(4) parts(2) in_set_dropD by (fastforce simp: list_all_iff seg_up)
    moreover have "sorted (map poi_blockIndex (take ?n ?outs))" "sorted (map poi_blockIndex (drop ?n ?outs))"
      using e(3) by (simp_all add: take_map [symmetric] drop_map [symmetric] sorted_wrt_take sorted_wrt_drop)
    moreover have "length (flat_outs a (low # ps)) = length (flat_outs a ps) + ?n"
      using n by (simp add: split_own_outs [OF sp])
    ultimately show ?thesis
      using e(1,2) n u by (auto simp: outs_ok_def low up simp del: flat_Cons)
  qed
  then show "outs_ok a low ps" "outs_ok a up (low # ps)" by simp_all
qed

lemma split_chain_ok:
  assumes sp: "split_segment k s = (up, low)" and ok: "chain_ok (s # ps)"
    and k: "bc_startIndex s < k" "k < bc_startIndex s + length (bc_blockInfos s)"
  shows "chain_ok (up # low # ps)"
proof -
  have s: "segment_ok s ps" and ps: "chain_ok ps" using ok by simp_all
  have seg_low: "in_segment low b \<longleftrightarrow> in_segment s b \<and> b < k" and seg_up: "in_segment up b \<longleftrightarrow> in_segment s b \<and> k \<le> b" for b
    using k by (auto simp: in_segment_def split_segment_fields [OF sp])
  have txs: "list_all (in_segment s \<circ> cti_blockIndex) (bc_transactions s)" "sorted (map cti_blockIndex (bc_transactions s))"
    using s by (simp_all add: segment_ok_def)
  have sf: "sorted (map cti_blockIndex (filter P (bc_transactions s)))" for P
    using txs(2) by (rule sorted_filter)
  have "segment_ok low ps"
    using s split_outs_ok(1) [OF sp s k] k txs sf
    by (auto simp: segment_ok_def split_segment_fields [OF sp] splitSpentKeyImages_def seg_low list_all_iff split: option.splits if_splits)
  moreover have "segment_ok up (low # ps)"
    using s split_outs_ok(2) [OF sp s k] k txs sf
    by (auto simp: segment_ok_def split_segment_fields [OF sp] splitSpentKeyImages_def seg_up list_all_iff split: option.splits if_splits)
  moreover have "bc_blockInfos low \<noteq> []" "bc_blockInfos up \<noteq> []" using k by (auto simp: split_segment_fields [OF sp])
  ultimately show ?thesis using ps by simp
qed

text \<open>Chains that stand for the same flat chain answer alike, also below further segments.\<close>

definition same_flat :: "chain \<Rightarrow> chain \<Rightarrow> bool" where
  "same_flat ch ch' \<longleftrightarrow>
     flat_infos ch = flat_infos ch' \<and> flat_txs ch = flat_txs ch' \<and> flat_blocks ch = flat_blocks ch' \<and>
     (\<forall>a. flat_outs a ch = flat_outs a ch') \<and> (\<forall>ki. flat_spent ki ch = flat_spent ki ch')"

lemma same_flat_segment_ok: "same_flat ps ps' \<Longrightarrow> segment_ok s ps = segment_ok s ps'"
  by (simp add: same_flat_def segment_ok_def outs_ok_def cong: option.case_cong)

lemma same_flat_append:
  assumes "same_flat ps ps'" "chain_ok ps'" "chain_ok (cs @ ps)"
  shows "same_flat (cs @ ps) (cs @ ps') \<and> chain_ok (cs @ ps')"
  using assms
proof (induction cs)
  case (Cons c cs)
  then have IH: "same_flat (cs @ ps) (cs @ ps')" "chain_ok (cs @ ps')" by simp_all
  have "same_flat (c # cs @ ps) (c # cs @ ps')" using IH(1) by (simp add: same_flat_def cong: option.case_cong)
  then show ?case using IH Cons.prems(3) same_flat_segment_ok [OF IH(1), of c] by simp
qed simp

lemma split_same_flat:
  assumes "split_segment k s = (up, low)" "chain_ok (cs @ s # ps)"
    "bc_startIndex s < k" "k < bc_startIndex s + length (bc_blockInfos s)"
  shows "same_flat (cs @ s # ps) (cs @ up # low # ps) \<and> chain_ok (cs @ up # low # ps)"
proof -
  have ok: "chain_ok (s # ps)" using assms(2) by (induction cs) simp_all
  then have "same_flat (s # ps) (up # low # ps)"
    using split_flat [OF assms(1), of ps] by (simp add: same_flat_def del: flat_Cons)
  then show ?thesis using split_chain_ok [OF assms(1) ok assms(3,4)] assms(2) by (intro same_flat_append)
qed

section \<open>Pushing\<close>

primrec new_outs :: "u64 \<Rightarrow> nat \<Rightarrow> u16 \<Rightarrow> nat \<Rightarrow> TransactionOutput list \<Rightarrow> PackedOutIndex list" where
  "new_outs a b t n [] = []"
| "new_outs a b t n (out # outs) =
     (if out_amount out = a then [\<lparr> poi_blockIndex = b, poi_transactionIndex = t, poi_outputIndex = of_nat n \<rparr>] else []) @
     new_outs a b t (n + 1) outs"

lemma length_new_outs: "length (new_outs a b t n outs) \<le> length outs"
proof (induction outs arbitrary: n)
  case (Cons out outs)
  show ?case using Cons.IH [of "n + 1"] by simp
qed simp

text \<open>The last block of a segment is the one that is being pushed.\<close>

definition pushing :: "nat \<Rightarrow> BlockchainCache \<Rightarrow> chain \<Rightarrow> bool" where
  "pushing b s ps \<longleftrightarrow> chain_ok ps \<and> bc_startIndex s = length (flat_infos ps) \<and> b + 1 = bc_startIndex s + length (bc_blockInfos s) \<and>
     bc_blockInfos s \<noteq> [] \<and> (\<forall>a. outs_ok a s ps)"

lemma pushing_above: "pushing b s ps \<Longrightarrow> length (flat_infos ps) \<le> b"
  by (cases "bc_blockInfos s") (auto simp: pushing_def)

lemma pushing_parents: "pushing b s ps \<Longrightarrow> ps = [] \<or> bc_startIndex (hd ps) \<le> b"
  using pushing_above [of b s ps] by (cases ps) (auto simp: pushing_def segment_ok_def)

lemma insert_output:
  assumes p: "pushing b s ps" and o: "poi_blockIndex out = b" and w: "length (flat_outs amount (s # ps)) + 1 < 2 ^ 32"
    and ins: "insertKeyOutputToGlobalIndex amount out b ps s = (g, s')"
  shows "s' = s \<lparr> bc_keyOutputsGlobalIndexes := bc_keyOutputsGlobalIndexes s' \<rparr>" "pushing b s' ps"
    "own_outs a s' = own_outs a s @ (if a = amount then [out] else [])"
    "unat g = length (flat_outs amount (s # ps))"
proof -
  have ok: "chain_ok ps" using p by (simp add: pushing_def)
  have L: "length (flat_infos ps) \<le> b" by (rule pushing_above [OF p])
  have "filter (\<lambda>o'. poi_blockIndex o' < b) (flat_outs amount ps) = flat_outs amount ps"
    using flat_outs_bound [OF ok] L by (intro filter_True) force
  then have cnt: "getKeyOutputsCountForAmount amount b ps = length (flat_outs amount ps)"
    using getKeyOutputsCountForAmount_flat [OF ok pushing_parents [OF p]] by simp
  define e where "e = (case bc_keyOutputsGlobalIndexes s amount of
      Some e \<Rightarrow> e \<lparr> ogi_outputs := ogi_outputs e @ [out] \<rparr>
    | None \<Rightarrow> \<lparr> ogi_startIndex = of_nat (length (flat_outs amount ps)), ogi_outputs = [out] \<rparr>)"
  have s': "s' = s \<lparr> bc_keyOutputsGlobalIndexes := (bc_keyOutputsGlobalIndexes s)(amount \<mapsto> e) \<rparr>"
    and g: "g = ogi_startIndex e + of_nat (length (ogi_outputs e)) - 1"
    using ins by (simp_all add: insertKeyOutputToGlobalIndex_def Let_def e_def cnt cong: option.case_cong)
  show "s' = s \<lparr> bc_keyOutputsGlobalIndexes := bc_keyOutputsGlobalIndexes s' \<rparr>" by (simp add: s')
  have outs: "ogi_outputs e = own_outs amount s @ [out]" by (simp add: e_def own_outs_def split: option.split)
  show "own_outs a s' = own_outs a s @ (if a = amount then [out] else [])"
    by (simp add: own_outs_def s' outs)
  have oks: "outs_ok a s ps" for a using p by (simp add: pushing_def)
  have st: "unat (ogi_startIndex e) = length (flat_outs amount ps)"
  proof (cases "bc_keyOutputsGlobalIndexes s amount")
    case None
    then show ?thesis using w by (simp add: e_def unat_of_nat_small)
  next
    case (Some e')
    then show ?thesis using oks [of amount] by (simp add: e_def outs_ok_def)
  qed
  have seg: "in_segment s' = in_segment s" by (simp add: in_segment_def s' fun_eq_iff)
  have own: "sorted (map poi_blockIndex (own_outs amount s))" "list_all (in_segment s \<circ> poi_blockIndex) (own_outs amount s)"
    using oks [of amount] by (simp_all add: own_outs_def outs_ok_def split: option.splits)
  have "outs_ok amount s' ps"
  proof -
    have "\<forall>x \<in> set (own_outs amount s). poi_blockIndex x \<le> b"
      using own(2) p by (auto simp: list_all_iff in_segment_def pushing_def)
    moreover have "in_segment s b" using p by (auto simp: in_segment_def pushing_def neq_Nil_conv)
    ultimately have "sorted (map poi_blockIndex (ogi_outputs e))" "list_all (in_segment s \<circ> poi_blockIndex) (ogi_outputs e)"
      using own o by (auto simp: outs sorted_append)
    then show ?thesis using w st by (simp add: outs_ok_def s' seg [unfolded s'] outs)
  qed
  moreover have "outs_ok a s' ps" if "a \<noteq> amount" for a
    using oks [of a] that by (simp add: outs_ok_def s' seg [unfolded s'] cong: option.case_cong)
  ultimately have "outs_ok a s' ps" for a by (cases "a = amount") simp_all
  then show "pushing b s' ps" using p by (simp add: pushing_def s')
  have "g = of_nat (unat (ogi_startIndex e)) + of_nat (length (own_outs amount s))" by (simp add: g outs)
  also have "\<dots> = of_nat (length (flat_outs amount (s # ps)))" unfolding st by simp
  finally show "unat g = length (flat_outs amount (s # ps))" using w by (simp add: unat_of_nat_small del: flat_Cons)
qed

lemma push_outputs_result:
  assumes "pushing b s ps" "\<And>a. length (flat_outs a (s # ps)) + length outs < 2 ^ 32"
    and "push_outputs b t ps n outs s = (gs, s')"
  shows "s' = s \<lparr> bc_keyOutputsGlobalIndexes := bc_keyOutputsGlobalIndexes s' \<rparr> \<and> pushing b s' ps \<and>
    (\<forall>a. own_outs a s' = own_outs a s @ new_outs a b t n outs) \<and> length gs = length outs \<and>
    (\<forall>i<length outs. unat (gs ! i) < length (flat_outs (out_amount (outs ! i)) (s' # ps)) \<and>
       flat_outs (out_amount (outs ! i)) (s' # ps) ! unat (gs ! i) =
         \<lparr> poi_blockIndex = b, poi_transactionIndex = t, poi_outputIndex = of_nat (n + i) \<rparr>)"
  using assms
proof (induction outs arbitrary: n s gs)
  case (Cons out outs)
  let ?poi = "\<lparr> poi_blockIndex = b, poi_transactionIndex = t, poi_outputIndex = of_nat n \<rparr>"
  obtain g s1 where ins: "insertKeyOutputToGlobalIndex (out_amount out) ?poi b ps s = (g, s1)" by fastforce
  obtain gs1 where rest: "push_outputs b t ps (n + 1) outs s1 = (gs1, s')" and gs: "gs = g # gs1"
    using Cons.prems(3) ins by (auto simp: Let_def split: prod.splits)
  have w: "length (flat_outs (out_amount out) (s # ps)) + 1 < 2 ^ 32" using Cons.prems(2) [of "out_amount out"] by simp
  note r = insert_output [OF Cons.prems(1) _ w ins, simplified]
  have "length (flat_outs a (s1 # ps)) + length outs < 2 ^ 32" for a using Cons.prems(2) [of a] by (cases "a = out_amount out") (simp_all add: r(3))
  then have IH: "s' = s1 \<lparr> bc_keyOutputsGlobalIndexes := bc_keyOutputsGlobalIndexes s' \<rparr> \<and> pushing b s' ps \<and>
    (\<forall>a. own_outs a s' = own_outs a s1 @ new_outs a b t (n + 1) outs) \<and> length gs1 = length outs \<and>
    (\<forall>i<length outs. unat (gs1 ! i) < length (flat_outs (out_amount (outs ! i)) (s' # ps)) \<and>
       flat_outs (out_amount (outs ! i)) (s' # ps) ! unat (gs1 ! i) =
         \<lparr> poi_blockIndex = b, poi_transactionIndex = t, poi_outputIndex = of_nat (n + 1 + i) \<rparr>)"
    using Cons.IH [OF r(2) _ rest] by blast
  have own: "own_outs a s' = own_outs a s @ new_outs a b t n (out # outs)" for a
    using IH r(3) by simp
  have first: "unat g < length (flat_outs (out_amount out) (s' # ps)) \<and> flat_outs (out_amount out) (s' # ps) ! unat g = ?poi"
    using r(4) by (simp add: own nth_append)
  obtain m where m: "s1 = s \<lparr> bc_keyOutputsGlobalIndexes := m \<rparr>" using r(1) by blast
  obtain m' where "s' = s1 \<lparr> bc_keyOutputsGlobalIndexes := m' \<rparr>" using IH by blast
  then have "s' = s \<lparr> bc_keyOutputsGlobalIndexes := bc_keyOutputsGlobalIndexes s' \<rparr>" by (simp add: m)
  moreover have "unat (gs ! i) < length (flat_outs (out_amount ((out # outs) ! i)) (s' # ps)) \<and>
       flat_outs (out_amount ((out # outs) ! i)) (s' # ps) ! unat (gs ! i) =
         \<lparr> poi_blockIndex = b, poi_transactionIndex = t, poi_outputIndex = of_nat (n + i) \<rparr>" if "i < length (out # outs)" for i
  proof (cases i)
    case 0
    then show ?thesis using first by (simp add: gs del: flat_Cons)
  next
    case (Suc j)
    then show ?thesis using IH that by (simp add: gs del: flat_Cons)
  qed
  ultimately show ?case using IH own gs by (simp del: flat_Cons new_outs.simps)
qed (auto simp: pushing_def)

abbreviation tx_outputs :: "CachedTransaction \<Rightarrow> TransactionOutput list" where
  "tx_outputs ct \<equiv> outputs (ct_transaction ct)"

primrec block_outs :: "u64 \<Rightarrow> nat \<Rightarrow> nat \<Rightarrow> CachedTransaction list \<Rightarrow> PackedOutIndex list" where
  "block_outs a b n [] = []"
| "block_outs a b n (ct # cts) = new_outs a b (of_nat n) 0 (tx_outputs ct) @ block_outs a b (n + 1) cts"

text \<open>The record of a transaction that was pushed, its global indexes pointing at its outputs.\<close>

definition info_of :: "chain \<Rightarrow> nat \<Rightarrow> nat \<Rightarrow> CachedTransaction \<Rightarrow> CachedTransactionInfo \<Rightarrow> bool" where
  "info_of ch b n ct t \<longleftrightarrow>
     cti_blockIndex t = b \<and> cti_transactionIndex t = ucast (of_nat n :: u16) \<and>
     fst (getTransactionHash ct) = Inr (cti_transactionHash t) \<and> cti_unlockTime t = unlockTime (ct_transaction ct) \<and>
     cti_outputs t = map out_target (tx_outputs ct) \<and> length (cti_globalIndexes t) = length (tx_outputs ct) \<and>
     (\<forall>i<length (tx_outputs ct). unat (cti_globalIndexes t ! i) < length (flat_outs (out_amount (tx_outputs ct ! i)) ch) \<and>
        flat_outs (out_amount (tx_outputs ct ! i)) ch ! unat (cti_globalIndexes t ! i) =
          \<lparr> poi_blockIndex = b, poi_transactionIndex = of_nat n, poi_outputIndex = of_nat i \<rparr>)"

text \<open>What a push of transactions leaves alone.\<close>

definition same_blocks :: "BlockchainCache \<Rightarrow> BlockchainCache \<Rightarrow> bool" where
  "same_blocks s s' \<longleftrightarrow> bc_startIndex s' = bc_startIndex s \<and> bc_blockInfos s' = bc_blockInfos s \<and>
     bc_spentKeyImages s' = bc_spentKeyImages s \<and> bc_storage s' = bc_storage s"

definition seen :: "hash \<Rightarrow> nat \<Rightarrow> nat \<Rightarrow> CachedTransactionInfo list \<Rightarrow> bool" where
  "seen h b n ts \<longleftrightarrow> list_ex (\<lambda>t. cti_transactionHash t = h \<or>
     cti_blockIndex t = b \<and> cti_transactionIndex t = ucast (of_nat n :: u16)) ts"

lemma cache_pushTransaction_result:
  assumes p: "pushing b s ps" and h: "fst (getTransactionHash ct) = Inr h"
    and w: "\<And>a. length (flat_outs a (s # ps)) + length (tx_outputs ct) < 2 ^ 32"
  shows "\<exists>s' t. cache_pushTransaction ct b (of_nat n) ps s = Some s' \<and> pushing b s' ps \<and> same_blocks s s' \<and>
    (\<forall>a. own_outs a s' = own_outs a s @ new_outs a b (of_nat n) 0 (tx_outputs ct)) \<and>
    info_of (s' # ps) b n ct t \<and>
    bc_transactions s' = (if seen h b n (bc_transactions s) then bc_transactions s else bc_transactions s @ [t])"
proof -
  obtain gs s1 where po: "push_outputs b (of_nat n) ps 0 (tx_outputs ct) s = (gs, s1)" by fastforce
  note r = push_outputs_result [OF p w po]
  obtain m where m: "s1 = s \<lparr> bc_keyOutputsGlobalIndexes := m \<rparr>" using r by blast
  have f: "bc_startIndex s1 = bc_startIndex s" "bc_blockInfos s1 = bc_blockInfos s" "bc_spentKeyImages s1 = bc_spentKeyImages s"
    "bc_storage s1 = bc_storage s" "bc_transactions s1 = bc_transactions s"
    using m by simp_all
  let ?t = "\<lparr> cti_blockIndex = b, cti_transactionIndex = ucast (of_nat n :: u16), cti_transactionHash = h,
    cti_unlockTime = unlockTime (ct_transaction ct), cti_outputs = map out_target (tx_outputs ct), cti_globalIndexes = gs \<rparr>"
  obtain s' where s': "cache_pushTransaction ct b (of_nat n) ps s = Some s'"
    "bc_keyOutputsGlobalIndexes s' = bc_keyOutputsGlobalIndexes s1" "same_blocks s1 s'"
    "bc_transactions s' = (if seen h b n (bc_transactions s) then bc_transactions s else bc_transactions s @ [?t])"
    using h po f(5) by (auto simp: cache_pushTransaction_def Let_def same_blocks_def seen_def split: option.split)
  have own: "own_outs a s' = own_outs a s1" for a by (simp add: own_outs_def s'(2))
  have fl: "flat_outs a (s' # ps) = flat_outs a (s1 # ps)" for a by (simp add: own)
  have seg: "in_segment s' = in_segment s1" using s'(3) by (simp add: in_segment_def same_blocks_def fun_eq_iff)
  have "outs_ok a s' ps = outs_ok a s1 ps" for a unfolding outs_ok_def s'(2) seg ..
  then have "pushing b s' ps"
    using r s'(3) by (simp add: pushing_def same_blocks_def)
  moreover have "info_of (s' # ps) b n ct ?t" using r h by (simp add: info_of_def fl del: flat_Cons)
  moreover have "same_blocks s s'" using s'(3) f by (simp add: same_blocks_def)
  ultimately show ?thesis using s'(1,4) r own by (intro exI [of _ s'] exI [of _ ?t]) simp
qed

lemma info_of_mono:
  assumes "info_of ch b n ct t" "\<And>a. \<exists>xs. flat_outs a ch' = flat_outs a ch @ xs"
  shows "info_of ch' b n ct t"
proof -
  have "unat g < length (flat_outs a ch') \<and> flat_outs a ch' ! unat g = p"
    if "unat g < length (flat_outs a ch) \<and> flat_outs a ch ! unat g = p" for a p and g :: u32
  proof -
    obtain xs where "flat_outs a ch' = flat_outs a ch @ xs" using assms(2) by blast
    then show ?thesis using that by (simp add: nth_append)
  qed
  then show ?thesis using assms(1) by (simp add: info_of_def)
qed

definition total_outputs :: "CachedTransaction list \<Rightarrow> nat" where
  "total_outputs cts = sum_list (map (\<lambda>ct. length (tx_outputs ct)) cts)"

text \<open>The hashes of the transactions are new to the segment and their numbers in the block fit.\<close>

definition fresh_txs :: "BlockchainCache \<Rightarrow> nat \<Rightarrow> nat \<Rightarrow> CachedTransaction list \<Rightarrow> bool" where
  "fresh_txs s b n cts \<longleftrightarrow>
     n + length cts \<le> 65536 \<and>
     distinct (map (Inr \<circ> cti_transactionHash) (bc_transactions s) @ map (fst \<circ> getTransactionHash) cts) \<and>
     list_all (\<lambda>t. cti_blockIndex t = b \<longrightarrow> unat (cti_transactionIndex t) < n) (bc_transactions s)"

lemma unat_tx_index: "n < 65536 \<Longrightarrow> unat (ucast (of_nat n :: u16) :: u32) = n"
  by (simp add: unat_ucast_up unat_of_nat_small)

lemma fresh_not_seen:
  assumes "fresh_txs s b n (ct # cts)" "fst (getTransactionHash ct) = Inr h"
  shows "\<not> seen h b n (bc_transactions s)"
proof -
  have "n < 65536" using assms(1) by (simp add: fresh_txs_def)
  then show ?thesis
    using assms unat_tx_index [of n] by (auto simp: fresh_txs_def seen_def list_ex_iff list_all_iff image_iff)
qed

lemma push_transactions_result:
  assumes "pushing b s ps" "\<And>ct. ct \<in> set cts \<Longrightarrow> \<exists>h. fst (getTransactionHash ct) = Inr h"
    and "\<And>a. length (flat_outs a (s # ps)) + total_outputs cts < 2 ^ 32"
  shows "\<exists>s' ts. push_transactions b ps n cts s = Some s' \<and> pushing b s' ps \<and> same_blocks s s' \<and>
    (\<forall>a. own_outs a s' = own_outs a s @ block_outs a b n cts) \<and>
    bc_transactions s' = bc_transactions s @ ts \<and> list_all (\<lambda>t. cti_blockIndex t = b) ts \<and>
    (fresh_txs s b n cts \<longrightarrow> length ts = length cts \<and> (\<forall>i<length cts. info_of (s' # ps) b (n + i) (cts ! i) (ts ! i)))"
  using assms
proof (induction cts arbitrary: n s)
  case Nil
  then show ?case by (intro exI [of _ s] exI [of _ "[]"]) (simp add: same_blocks_def)
next
  case (Cons ct cts)
  obtain h where h: "fst (getTransactionHash ct) = Inr h" using Cons.prems(2) [of ct] by auto
  have w: "length (flat_outs a (s # ps)) + length (tx_outputs ct) < 2 ^ 32" for a
    using Cons.prems(3) [of a] by (simp add: total_outputs_def)
  obtain s1 t where 1: "cache_pushTransaction ct b (of_nat n) ps s = Some s1" "pushing b s1 ps" "same_blocks s s1"
    "\<forall>a. own_outs a s1 = own_outs a s @ new_outs a b (of_nat n) 0 (tx_outputs ct)" "info_of (s1 # ps) b n ct t"
    "bc_transactions s1 = (if seen h b n (bc_transactions s) then bc_transactions s else bc_transactions s @ [t])"
    using cache_pushTransaction_result [OF Cons.prems(1) h w, of n] by blast
  have w1: "length (flat_outs a (s1 # ps)) + total_outputs cts < 2 ^ 32" for a
    using Cons.prems(3) [of a] 1(4) length_new_outs [of a b "of_nat n" 0 "tx_outputs ct"] by (simp add: total_outputs_def)
  obtain s' ts where 2: "push_transactions b ps (n + 1) cts s1 = Some s'" "pushing b s' ps" "same_blocks s1 s'"
    "\<forall>a. own_outs a s' = own_outs a s1 @ block_outs a b (n + 1) cts" "bc_transactions s' = bc_transactions s1 @ ts"
    "list_all (\<lambda>t. cti_blockIndex t = b) ts"
    "fresh_txs s1 b (n + 1) cts \<longrightarrow> length ts = length cts \<and> (\<forall>i<length cts. info_of (s' # ps) b (n + 1 + i) (cts ! i) (ts ! i))"
    using Cons.IH [of s1 "n + 1"] 1(2) Cons.prems(2) w1 by fastforce
  have t: "cti_blockIndex t = b" "cti_transactionHash t = h" "cti_transactionIndex t = ucast (of_nat n :: u16)"
    using 1(5) h by (simp_all add: info_of_def)
  have t': "info_of (s' # ps) b n ct t" by (rule info_of_mono [OF 1(5)]) (simp add: 2(4))
  let ?ts = "(if seen h b n (bc_transactions s) then [] else [t]) @ ts"
  have "length ?ts = length (ct # cts) \<and> (\<forall>i<length (ct # cts). info_of (s' # ps) b (n + i) ((ct # cts) ! i) (?ts ! i))"
    if fresh: "fresh_txs s b n (ct # cts)"
  proof -
    have ns: "\<not> seen h b n (bc_transactions s)" by (rule fresh_not_seen [OF fresh h])
    have "fresh_txs s1 b (n + 1) cts"
      using fresh ns t h unat_tx_index [of n] by (auto simp: fresh_txs_def 1(6) list_all_iff)
    with 2(7) have f: "length ts = length cts" "\<forall>i<length cts. info_of (s' # ps) b (n + 1 + i) (cts ! i) (ts ! i)" by blast+
    show ?thesis using ns f t' by (auto simp: nth_Cons split: nat.split)
  qed
  moreover have "same_blocks s s'" using 1(3) 2(3) by (simp add: same_blocks_def)
  ultimately show ?case
    using 1 2 t(1) by (intro exI [of _ s'] exI [of _ ?ts]) simp
qed

text \<open>The preconditions of a push: the asserted ones, and that hashes can be computed.\<close>

definition block_fits :: "CachedBlock \<Rightarrow> CachedTransaction list \<Rightarrow> TransactionValidatorState \<Rightarrow> hash \<Rightarrow> chain \<Rightarrow> bool" where
  "block_fits cb txs st h ch \<longleftrightarrow>
     (let cts = CachedTransaction_init (baseTransaction (cb_block cb)) # txs; L = length (flat_infos ch) in
      fst (getBlockHash cb) = Inr h \<and> fst (getBlockIndex cb) = Inr (of_nat L) \<and> L < 2 ^ 32 \<and> \<not> hasBlock (hd ch) h \<and>
      (\<forall>ki \<in> spentKeyImages st. flat_spent ki ch = None) \<and>
      (\<forall>ct \<in> set cts. \<exists>h. fst (getTransactionHash ct) = Inr h) \<and>
      (\<forall>a. length (flat_outs a ch) + total_outputs cts < 2 ^ 32))"

definition next_info ::
  "CachedBlock \<Rightarrow> hash \<Rightarrow> nat \<Rightarrow> u64 \<Rightarrow> u64 \<Rightarrow> u64 \<Rightarrow> CachedBlockInfo list \<Rightarrow> CachedBlockInfo" where
  "next_info cb h n blockSize generatedCoins blockDifficulty infos =
     (let prev = (\<lambda>f. if infos = [] then 0 else f (last infos)) in
      \<lparr> cbi_blockHash = h, cbi_timestamp = timestamp (cb_block cb),
        cbi_cumulativeDifficulty = prev cbi_cumulativeDifficulty + blockDifficulty,
        cbi_alreadyGeneratedCoins = prev cbi_alreadyGeneratedCoins + generatedCoins,
        cbi_alreadyGeneratedTransactions = prev cbi_alreadyGeneratedTransactions + of_nat n + 1,
        cbi_blockSize = ucast blockSize \<rparr>)"

lemma previous_values:
  assumes ok: "chain_ok ps" and st: "bc_startIndex s = length (flat_infos ps)" and L: "length (flat_infos (s # ps)) < 2 ^ 32"
  shows "(if bc_blockInfos s = [] then
            (case ps of
               [] \<Rightarrow> Some (0, 0, 0)
             | p # _ \<Rightarrow>
                 Option.bind (getCurrentCumulativeDifficulty (unat (of_nat (length (flat_infos (s # ps))) - 1 :: u32)) p) (\<lambda>cd.
                 Option.bind (getAlreadyGeneratedCoins (unat (of_nat (length (flat_infos (s # ps))) - 1 :: u32)) ps) (\<lambda>coins.
                 map_option (\<lambda>n. (cd, coins, n)) (getAlreadyGeneratedTransactions (unat (of_nat (length (flat_infos (s # ps))) - 1 :: u32)) ps))))
          else let lastBlockInfo = last (bc_blockInfos s)
               in Some (cbi_cumulativeDifficulty lastBlockInfo, cbi_alreadyGeneratedCoins lastBlockInfo,
                        cbi_alreadyGeneratedTransactions lastBlockInfo)) =
    (let prev = (\<lambda>f. if flat_infos (s # ps) = [] then 0 else f (last (flat_infos (s # ps))))
     in Some (prev cbi_cumulativeDifficulty, prev cbi_alreadyGeneratedCoins, prev cbi_alreadyGeneratedTransactions))"
proof (cases "bc_blockInfos s = []")
  case True
  show ?thesis
  proof (cases ps)
    case Nil
    then show ?thesis using True by simp
  next
    case ps: (Cons p ps')
    let ?L = "length (flat_infos ps)"
    have pos: "0 < ?L" using flat_infos_nonempty ok ps by blast
    have u: "unat (of_nat (length (flat_infos (s # ps))) - 1 :: u32) = ?L - 1"
    proof -
      have "of_nat (length (flat_infos (s # ps))) - 1 = (of_nat (?L - 1) :: u32)" using True pos by (cases "length (flat_infos ps)") simp_all
      then show ?thesis using L True by (simp only:) (intro unat_of_nat_small, simp)
    qed
    have look: "block_lookup f (?L - 1) ps = Some (f (last (flat_infos ps)))" for f :: "CachedBlockInfo \<Rightarrow> u64"
      using block_lookup_flat [OF ok, of f] pos by (simp add: last_conv_nth)
    have p: "bc_blockInfos p \<noteq> []" "bc_startIndex p = length (flat_infos ps')" using ok ps by (simp_all add: segment_ok_def)
    have "getCurrentCumulativeDifficulty (?L - 1) p = Some (cbi_cumulativeDifficulty (last (flat_infos ps)))"
      using p ps by (cases "length (bc_blockInfos p)") (auto simp: getCurrentCumulativeDifficulty_def last_conv_nth nth_append)
    moreover have "flat_infos (s # ps) = flat_infos ps" "flat_infos ps \<noteq> []" using True pos by auto
    ultimately show ?thesis
      unfolding u using True look
      by (simp add: ps getAlreadyGeneratedCoins_def getAlreadyGeneratedTransactions_def del: flat_Cons block_lookup.simps)
  qed
next
  case False
  then show ?thesis by (simp add: Let_def)
qed

abbreviation block_cts :: "CachedBlock \<Rightarrow> CachedTransaction list \<Rightarrow> CachedTransaction list" where
  "block_cts cb txs \<equiv> CachedTransaction_init (baseTransaction (cb_block cb)) # txs"

text \<open>The flat chain after a push.\<close>

definition pushed ::
  "CachedBlock \<Rightarrow> CachedTransaction list \<Rightarrow> TransactionValidatorState \<Rightarrow> hash \<Rightarrow> u64 \<Rightarrow> u64 \<Rightarrow> u64 \<Rightarrow> RawBlock \<Rightarrow> chain \<Rightarrow> chain \<Rightarrow> bool" where
  "pushed cb txs st h blockSize coins diff raw ch ch' \<longleftrightarrow>
     (let L = length (flat_infos ch) in
      flat_infos ch' = flat_infos ch @ [next_info cb h (length txs) blockSize coins diff (flat_infos ch)] \<and>
      flat_blocks ch' = flat_blocks ch @ [raw] \<and>
      (\<forall>ki. flat_spent ki ch' = (if ki \<in> spentKeyImages st then Some L else flat_spent ki ch)) \<and>
      (\<forall>a. flat_outs a ch' = flat_outs a ch @ block_outs a L 0 (block_cts cb txs)) \<and>
      (\<exists>ts. flat_txs ch' = flat_txs ch @ ts \<and> list_all (\<lambda>t. cti_blockIndex t = L) ts \<and>
         (fresh_txs (hd ch) L 0 (block_cts cb txs) \<longrightarrow>
            list_all2 (\<lambda>i t. info_of ch' L i (block_cts cb txs ! i) t) [0..<length (block_cts cb txs)] ts)))"

lemma outs_ok_mono:
  assumes "outs_ok a s ps" "bc_keyOutputsGlobalIndexes s' = bc_keyOutputsGlobalIndexes s" "\<And>b. in_segment s b \<Longrightarrow> in_segment s' b"
  shows "outs_ok a s' ps"
  using assms by (auto simp: outs_ok_def list_all_iff split: option.splits)

lemma doPushBlock_result:
  assumes s: "segment_ok s ps" and ps: "chain_ok ps" and fits: "block_fits cb txs st h (s # ps)"
  shows "\<exists>s'. doPushBlock cb txs st blockSize coins diff raw (s # ps) = Some (s' # ps) \<and> chain_ok (s' # ps) \<and>
    pushed cb txs st h blockSize coins diff raw (s # ps) (s' # ps)"
proof -
  let ?ch = "s # ps" and ?cts = "block_cts cb txs"
  define L where "L = length (flat_infos ?ch)"
  have st: "bc_startIndex s = length (flat_infos ps)" using s by (simp add: segment_ok_def)
  have h: "fst (getBlockHash cb) = Inr h" and i: "fst (getBlockIndex cb) = Inr (of_nat L)" and L: "L < 2 ^ 32"
    and nb: "\<not> hasBlock s h" and fresh: "\<And>ki. ki \<in> spentKeyImages st \<Longrightarrow> flat_spent ki ?ch = None"
    and hs: "\<And>ct. ct \<in> set ?cts \<Longrightarrow> \<exists>h. fst (getTransactionHash ct) = Inr h"
    and w: "\<And>a. length (flat_outs a ?ch) + total_outputs ?cts < 2 ^ 32"
    using fits unfolding block_fits_def Let_def L_def list.sel by blast+
  have uL: "unat (of_nat L :: u32) = L" using L by (intro unat_of_nat_small) simp
  let ?info = "next_info cb h (length txs) blockSize coins diff (flat_infos ?ch)"
  define s2 where "s2 = s \<lparr> bc_blockInfos := bc_blockInfos s @ [?info],
    bc_spentKeyImages := addSpentKeyImage (spentKeyImages st) L (bc_spentKeyImages s) \<rparr>"
  have LL: "L = bc_startIndex s + length (bc_blockInfos s)" by (simp add: L_def st)
  have seg: "in_segment s b \<Longrightarrow> in_segment s2 b" "in_segment s2 L" for b
    using LL by (auto simp: in_segment_def s2_def)
  have "outs_ok a s2 ps" for a
    by (rule outs_ok_mono [OF segment_outs_ok [OF s] _ seg(1)]) (simp_all add: s2_def)
  then have p2: "pushing L s2 ps" using ps LL st by (simp add: pushing_def s2_def)
  have own2: "own_outs a s2 = own_outs a s" for a by (simp add: own_outs_def s2_def)
  have w2: "length (flat_outs a (s2 # ps)) + total_outputs ?cts < 2 ^ 32" for a using w [of a] by (simp add: own2)
  obtain s3 ts where 3: "push_transactions L ps 0 ?cts s2 = Some s3" "pushing L s3 ps" "same_blocks s2 s3"
    "\<forall>a. own_outs a s3 = own_outs a s2 @ block_outs a L 0 ?cts" "bc_transactions s3 = bc_transactions s2 @ ts"
    "list_all (\<lambda>t. cti_blockIndex t = L) ts"
    "fresh_txs s2 L 0 ?cts \<longrightarrow> length ts = length ?cts \<and> (\<forall>i<length ?cts. info_of (s3 # ps) L (0 + i) (?cts ! i) (ts ! i))"
    using push_transactions_result [OF p2 hs w2, of 0] by blast
  define s' where "s' = s3 \<lparr> bc_storage := bc_storage s3 @ [raw] \<rparr>"
  have f: "bc_startIndex s' = bc_startIndex s" "bc_blockInfos s' = bc_blockInfos s @ [?info]"
    "bc_spentKeyImages s' = addSpentKeyImage (spentKeyImages st) L (bc_spentKeyImages s)"
    "bc_transactions s' = bc_transactions s @ ts" "bc_storage s' = bc_storage s @ [raw]"
    using 3(3,5) by (simp_all add: same_blocks_def s2_def s'_def)
  have "doPushBlock cb txs st blockSize coins diff raw ?ch = Some (s' # ps)"
    using previous_values [OF ps st, folded L_def, OF L] 3(1) h i nb
    by (simp add: doPushBlock_def uL Let_def next_info_def s2_def [unfolded next_info_def Let_def] s'_def del: flat_Cons push_transactions.simps)
  moreover have "chain_ok (s' # ps)"
  proof -
    have seg': "in_segment s b \<Longrightarrow> in_segment s' b" "in_segment s' L" for b
      using LL by (auto simp: in_segment_def f)
    have "outs_ok a s' ps" for a
      by (rule outs_ok_mono [of a s3]) (use 3(2) in \<open>simp_all add: pushing_def s'_def in_segment_def\<close>)
    moreover have "\<forall>t \<in> set (bc_transactions s). in_segment s (cti_blockIndex t)" "sorted (map cti_blockIndex (bc_transactions s))"
      "length (bc_storage s) = length (bc_blockInfos s)"
      "\<forall>ki b. bc_spentKeyImages s ki = Some b \<longrightarrow> in_segment s b \<and> flat_spent ki ps = None"
      using s by (simp_all add: segment_ok_def list_all_iff)
    moreover have "\<forall>t \<in> set (bc_transactions s). cti_blockIndex t \<le> L"
      using s LL by (auto simp: segment_ok_def list_all_iff in_segment_def dest!: bspec)
    moreover have "flat_spent ki ps = None" if "ki \<in> spentKeyImages st" "bc_spentKeyImages s ki = None" for ki
      using fresh [OF that(1)] that(2) by simp
    moreover have "in_segment s' b \<and> flat_spent ki ps = None" if "bc_spentKeyImages s' ki = Some b" for ki b
      using that calculation(5,7) seg' by (auto simp: f addSpentKeyImage_def split: option.splits if_splits)
    moreover have "list_all (in_segment s' \<circ> cti_blockIndex) (bc_transactions s')"
      using calculation(2) seg' 3(6) by (auto simp: f list_all_iff)
    moreover have "sorted (map cti_blockIndex (bc_transactions s'))"
    proof -
      have "map cti_blockIndex ts = replicate (length ts) L"
        using 3(6) by (intro replicate_eqI) (auto simp: list_all_iff)
      then show ?thesis using calculation(3,6) by (auto simp: f sorted_append sorted_replicate)
    qed
    ultimately show ?thesis
      using ps st unfolding segment_ok_def chain_ok.simps by (simp add: f(1,2,5))
  qed
  moreover have "pushed cb txs st h blockSize coins diff raw ?ch (s' # ps)"
  proof -
    have own': "own_outs a s' = own_outs a s @ block_outs a L 0 ?cts" for a
      using 3(4) own2 by (simp add: own_outs_def s'_def)
    have fl: "flat_outs a (s' # ps) = flat_outs a (s3 # ps)" for a by (simp add: own_outs_def s'_def)
    have "info_of (s' # ps) L i ct t = info_of (s3 # ps) L i ct t" for i ct t by (simp add: info_of_def fl del: flat_Cons)
    moreover have "fresh_txs s2 L 0 ?cts = fresh_txs s L 0 ?cts" by (simp add: fresh_txs_def s2_def)
    ultimately have "fresh_txs s L 0 ?cts \<longrightarrow>
        list_all2 (\<lambda>i t. info_of (s' # ps) L i (?cts ! i) t) [0..<length ?cts] ts"
      using 3(7) by (simp add: list_all2_conv_all_nth del: upt_Suc)
    moreover have "flat_spent ki (s' # ps) = (if ki \<in> spentKeyImages st then Some L else flat_spent ki ?ch)" for ki
      using fresh [of ki] by (auto simp: f addSpentKeyImage_def split: option.splits)
    moreover have "flat_txs (s' # ps) = flat_txs ?ch @ ts" by (simp add: f)
    ultimately show ?thesis
      using 3(6) own' unfolding pushed_def Let_def L_def [symmetric] list.sel by (intro conjI exI [of _ ts]) (simp_all add: f)
  qed
  ultimately show ?thesis by blast
qed

lemma getBlockHashes_flat:
  assumes "chain_ok ch" "ch \<noteq> []"
  shows "cache_getBlockHashes i n ch =
    (if length (flat_infos ch) < i then None else Some (map cbi_blockHash (take n (drop i (flat_infos ch)))))"
  using assms
proof (induction ch)
  case (Cons s ps)
  have st: "bc_startIndex s = length (flat_infos ps)" and ok: "chain_ok ps" using Cons.prems by (simp_all add: segment_ok_def)
  show ?case
  proof (cases "i < length (flat_infos ps)")
    case True
    then have "ps \<noteq> []" by auto
    then show ?thesis using True Cons.IH [OF ok] st by (auto simp: Let_def min_def)
  next
    case False
    then show ?thesis using st by (auto simp: Let_def min_def)
  qed
qed simp

lemma same_flat_queries:
  assumes same: "same_flat ch ch'" and ok: "chain_ok ch" "chain_ok ch'" and ne: "ch \<noteq> []" "ch' \<noteq> []"
  shows "checkIfSpent ki ch = checkIfSpent ki ch'" "checkIfSpent_at ki i ch = checkIfSpent_at ki i ch'"
    "block_lookup f i ch = block_lookup f i ch'" "cache_getBlockHashes i n ch = cache_getBlockHashes i n ch'"
    "i < length (flat_infos ch) \<Longrightarrow> getLastUnits u g n i ch = getLastUnits u g n i ch'"
    "bc_startIndex (hd ch) \<le> i \<Longrightarrow> bc_startIndex (hd ch') \<le> i \<Longrightarrow>
     getKeyOutputsCountForAmount a i ch = getKeyOutputsCountForAmount a i ch'"
    "bc_startIndex (hd ch) \<le> i \<Longrightarrow> bc_startIndex (hd ch') \<le> i \<Longrightarrow> sorted gs \<Longrightarrow> gs \<noteq> [] \<Longrightarrow>
     extractKeyOutputs pred a i gs ch = extractKeyOutputs pred a i gs ch'"
  using same ok ne
  by (simp_all add: same_flat_def checkIfSpent_flat checkIfSpent_at_flat block_lookup_flat getBlockHashes_flat getLastUnits_flat
      getKeyOutputsCountForAmount_flat extractKeyOutputs_flat)

section \<open>Reachable chains\<close>

text \<open>The chains that a node can hold: the genesis block, a block pushed to the top, a segment split, a
  fork off the end of a segment.\<close>

inductive chain_reachable :: "Currency \<Rightarrow> chain \<Rightarrow> bool" for c where
  root: "chain_reachable c ch"
    if "root_chain c = Some ch" "block_fits (CachedBlock_init (genesisBlockTemplate c)) [] \<lparr> spentKeyImages = {} \<rparr> h [empty_segment 0]"
| push: "chain_reachable c ch'"
    if "chain_reachable c ch" "block_fits cb txs st h ch" "doPushBlock cb txs st sz coins diff raw ch = Some ch'"
| divide: "chain_reachable c (cs @ up # low # ps)"
    if "chain_reachable c (cs @ s # ps)" "bc_startIndex s < k" "k < bc_startIndex s + length (bc_blockInfos s)"
      "split_segment k s = (up, low)"
| fork: "chain_reachable c ch'"
    if "chain_reachable c (cs @ p # ps)" "block_fits cb txs st h (empty_segment (getTopBlockIndex p + 1) # p # ps)"
      "doPushBlock cb txs st sz coins diff raw (empty_segment (getTopBlockIndex p + 1) # p # ps) = Some ch'"

lemma empty_segment_ok:
  assumes "chain_ok ps" "n = length (flat_infos ps)"
  shows "segment_ok (empty_segment n) ps"
  using assms by (simp add: segment_ok_def empty_segment_def outs_ok_def)

lemma chain_ok_suffix: "chain_ok (cs @ ps) \<Longrightarrow> chain_ok ps"
  by (induction cs) simp_all

lemma root_chain_push:
  assumes "root_chain c = Some ch" "block_fits (CachedBlock_init (genesisBlockTemplate c)) [] \<lparr> spentKeyImages = {} \<rparr> h [empty_segment 0]"
  shows "chain_ok ch" "ch \<noteq> []"
proof -
  obtain sz reward raw where p: "doPushBlock (CachedBlock_init (genesisBlockTemplate c)) [] \<lparr> spentKeyImages = {} \<rparr> sz reward 1 raw
      [empty_segment 0] = Some ch"
    using assms(1) by (auto simp: root_chain_def Let_def split: sum.splits)
  show "chain_ok ch" "ch \<noteq> []"
    using doPushBlock_result [OF empty_segment_ok _ assms(2), of sz reward 1 raw] p by auto
qed

lemma reachable_chain_ok: "chain_reachable c ch \<Longrightarrow> chain_ok ch \<and> ch \<noteq> []"
proof (induction rule: chain_reachable.induct)
  case (root ch h)
  then show ?case using root_chain_push by blast
next
  case (push ch cb txs st h sz coins diff raw ch')
  then obtain s ps where ch: "ch = s # ps" by (cases ch) auto
  then have "segment_ok s ps" "chain_ok ps" using push.IH by simp_all
  from doPushBlock_result [OF this, of cb txs st h sz coins diff raw] push ch show ?case by auto
next
  case (divide cs s ps k up low)
  then show ?case using split_same_flat by blast
next
  case (fork cs p ps cb txs st h sz coins diff raw ch')
  have ok: "chain_ok (p # ps)" using fork.IH chain_ok_suffix by blast
  have "getTopBlockIndex p + 1 = length (flat_infos (p # ps))"
    using top_of_parent [OF ok] flat_infos_nonempty [OF ok] by simp
  from doPushBlock_result [OF empty_segment_ok [OF ok this] ok fork.hyps(2), of sz coins diff raw] fork.hyps(3) show ?case by auto
qed

section \<open>Examples\<close>

lemma genesis_fits:
  assumes "genesisBlockTemplate c = genesis_block t"
  shows "\<exists>h. block_fits (CachedBlock_init (genesisBlockTemplate c)) [] \<lparr> spentKeyImages = {} \<rparr> h [empty_segment 0]"
proof -
  let ?cb = "CachedBlock_init (genesis_block t)"
  obtain h where "block_hash_spec (genesis_block t) = Inr h" using genesis_hash by blast
  then have h: "fst (getBlockHash ?cb) = Inr h"
    using block_hash_memo.get_spec [OF block_cache_ok_init [of id id id "genesis_block t"]] by (simp add: CachedBlock_init_def)
  have b: "baseTransaction (cb_block ?cb) = genesis_transaction" by (simp add: CachedBlock_init_def genesis_block_def)
  have i: "fst (getBlockIndex ?cb) = Inr 0"
    using b by (simp add: getBlockIndex_def CachedBlock_init_def genesis_transaction_def)
  have "\<exists>h. fst (getTransactionHash (CachedTransaction_init genesis_transaction)) = Inr h"
    using tx_hash_memo.get_spec [OF tx_cache_ok_init, of genesis_transaction] write_Transaction_wf [OF wf_genesis_transaction]
    by (simp add: CachedTransaction_init_def tx_hash_spec_def tx_blob_spec_def)
  then have "block_fits ?cb [] \<lparr> spentKeyImages = {} \<rparr> h [empty_segment 0]"
    using h i
    by (simp add: block_fits_def b empty_segment_def hasBlock_def total_outputs_def own_outs_def
        CachedTransaction_init_def genesis_transaction_def)
  then show ?thesis using assms by auto
qed

lemma genesis_chain:
  assumes "genesisBlockTemplate c = genesis_block t"
  shows "\<exists>ch. root_chain c = Some ch \<and> chain_reachable c ch \<and> length (flat_infos ch) = 1 \<and>
    cbi_alreadyGeneratedCoins (flat_infos ch ! 0) = 2980232 \<and> (\<forall>a. length (flat_outs a ch) \<le> 1)"
proof -
  let ?cb = "CachedBlock_init (genesis_block t)"
  obtain h where fits: "block_fits ?cb [] \<lparr> spentKeyImages = {} \<rparr> h [empty_segment 0]"
    using genesis_fits [OF assms] assms by auto
  obtain w where w: "write_Transaction genesis_transaction = Inr w" using write_Transaction_wf [OF wf_genesis_transaction] by blast
  obtain wb where wb: "write_BlockTemplate (genesis_block t) = Inr wb" using write_read_BlockTemplate [OF wf_genesis_block, of t] by blast
  have b: "baseTransaction (genesis_block t) = genesis_transaction" by (simp add: genesis_block_def)
  have r: "foldl (+) 0 (map out_amount (outputs genesis_transaction)) = 2980232" by (simp add: genesis_transaction_def)
  let ?raw = "\<lparr> rb_block = wb, rb_transactions = [] \<rparr>"
  obtain s where s: "doPushBlock ?cb [] \<lparr> spentKeyImages = {} \<rparr> (of_nat (length w)) 2980232 1 ?raw [empty_segment 0] = Some [s]"
    "chain_ok [s]" "pushed ?cb [] \<lparr> spentKeyImages = {} \<rparr> h (of_nat (length w)) 2980232 1 ?raw [empty_segment 0] [s]"
    using doPushBlock_result [OF empty_segment_ok _ fits, of "of_nat (length w)" 2980232 1 ?raw] by auto
  have root: "root_chain c = Some [s]" unfolding root_chain_def assms b Let_def w wb r using s(1) by simp
  have "chain_reachable c [s]" using chain_reachable.root [OF root] fits assms by metis
  moreover have "flat_infos [s] = [next_info ?cb h 0 (of_nat (length w)) 2980232 1 []]"
    using s(3) by (simp add: pushed_def empty_segment_def)
  moreover have "length (flat_outs a [s]) \<le> 1" for a
  proof -
    have "flat_outs a [s] = block_outs a 0 0 (block_cts ?cb [])" using s(3) by (simp add: pushed_def empty_segment_def own_outs_def)
    then show ?thesis
      by (simp add: CachedTransaction_init_def CachedBlock_init_def genesis_block_def genesis_transaction_def del: flat_Cons)
  qed
  ultimately show ?thesis using root by (intro exI [of _ "[s]"]) (simp add: next_info_def del: flat_Cons)
qed

text \<open>A segment of two blocks; the second spends a key image, and each has an output of amount 5.\<close>

definition sample_info :: "byte \<Rightarrow> CachedBlockInfo" where
  "sample_info n = \<lparr> cbi_blockHash = [n], cbi_timestamp = 100, cbi_cumulativeDifficulty = 1, cbi_alreadyGeneratedCoins = 5,
     cbi_alreadyGeneratedTransactions = 1, cbi_blockSize = 80 \<rparr>"

definition sample_tx :: "nat \<Rightarrow> CachedTransactionInfo" where
  "sample_tx b = \<lparr> cti_blockIndex = b, cti_transactionIndex = 0, cti_transactionHash = [of_nat b], cti_unlockTime = 0,
     cti_outputs = [KeyOutput [of_nat b]], cti_globalIndexes = [of_nat b] \<rparr>"

definition sample_segment :: BlockchainCache where
  "sample_segment =
     \<lparr> bc_startIndex = 0, bc_transactions = [sample_tx 0, sample_tx 1], bc_spentKeyImages = [[9] \<mapsto> 1],
       bc_blockInfos = [sample_info 0, sample_info 1],
       bc_keyOutputsGlobalIndexes = [5 \<mapsto> \<lparr> ogi_startIndex = 0,
         ogi_outputs = [\<lparr> poi_blockIndex = 0, poi_transactionIndex = 0, poi_outputIndex = 0 \<rparr>,
                        \<lparr> poi_blockIndex = 1, poi_transactionIndex = 0, poi_outputIndex = 0 \<rparr>] \<rparr>],
       bc_paymentIds = [], bc_storage = [\<lparr> rb_block = [0], rb_transactions = [] \<rparr>, \<lparr> rb_block = [1], rb_transactions = [] \<rparr>] \<rparr>"

lemma sample_segment_ok: "chain_ok [sample_segment]"
  by (simp add: segment_ok_def sample_segment_def in_segment_def sample_tx_def outs_ok_def)

section \<open>Properties\<close>








text \<open>A block of version 1 with the outputs of the genesis transaction, at a given index.\<close>

definition next_block :: "u32 \<Rightarrow> BlockTemplate" where
  "next_block i = genesis_block False \<lparr> baseTransaction := genesis_transaction \<lparr> inputs := [BaseInput i] \<rparr> \<rparr>"

lemma next_block_hashes:
  "\<exists>h. fst (getTransactionHash (CachedTransaction_init (baseTransaction (next_block i)))) = Inr h \<and> length h = 32"
  "\<exists>h. fst (getBlockHash (CachedBlock_init (next_block i))) = Inr h \<and> length h = 32"
  "fst (getBlockIndex (CachedBlock_init (next_block i))) = Inr i"
proof -
  have wf: "wf_transaction (baseTransaction (next_block i))"
    using wf_genesis_transaction
    by (simp add: next_block_def wf_transaction_def wf_prefix_def wf_fields_def genesis_transaction_def unsigned_inputs_def)
  show "\<exists>h. fst (getTransactionHash (CachedTransaction_init (baseTransaction (next_block i)))) = Inr h \<and> length h = 32"
    using tx_hash_memo.get_spec [OF tx_cache_ok_init, of "baseTransaction (next_block i)"] write_Transaction_wf [OF wf]
    by (simp add: CachedTransaction_init_def tx_hash_spec_def tx_blob_spec_def)
  have "\<exists>h. block_hash_spec (next_block i) = Inr h \<and> length h = 32"
    by (simp add: block_hash_spec_def hashing_spec_def next_block_def genesis_block_def value_initialized_block_def write_BlockHeader_def
        BLOCK_MAJOR_VERSION_1_def BLOCK_MAJOR_VERSION_2_def BLOCK_MAJOR_VERSION_5_def toBinaryArray_def BlockHeader.defs word_le_unat
        getObjectHash_blob_def getObjectHash_def getBinaryArrayHash_def)
  then show "\<exists>h. fst (getBlockHash (CachedBlock_init (next_block i))) = Inr h \<and> length h = 32"
    using block_hash_memo.get_spec [OF block_cache_ok_init [of id id id "next_block i"]] by (simp add: CachedBlock_init_def)
  show "fst (getBlockIndex (CachedBlock_init (next_block i))) = Inr i"
    by (simp add: getBlockIndex_def CachedBlock_init_def next_block_def)
qed

lemma hasBlock_not_all: "\<exists>h. \<not> hasBlock s h"
proof -
  have "finite (set (map cbi_blockHash (bc_blockInfos s)))" by simp
  then obtain h where "h \<notin> set (map cbi_blockHash (bc_blockInfos s))"
    using ex_new_if_finite [OF infinite_UNIV_listI] by blast
  then show ?thesis by (intro exI [of _ h]) (auto simp: hasBlock_def list_ex_iff)
qed

lemma next_block_fits:
  assumes "fst (getBlockHash cb) = Inr h" "fst (getBlockIndex cb) = Inr (of_nat (length (flat_infos ch)))"
    "cb_block cb = next_block i" "\<not> hasBlock (hd ch) h" "length (flat_infos ch) < 100" "\<And>a. length (flat_outs a ch) \<le> 2"
  shows "block_fits cb [] \<lparr> spentKeyImages = {} \<rparr> h ch"
proof -
  have "total_outputs (block_cts cb []) = 1"
    by (simp add: total_outputs_def assms(3) next_block_def CachedTransaction_init_def genesis_transaction_def)
  then have "length (flat_outs a ch) + total_outputs (block_cts cb []) < 2 ^ 32" for a using assms(6) [of a] by simp
  then show ?thesis using assms next_block_hashes(1) [of i] by (auto simp: block_fits_def)
qed



end
