(* ===== verification/Validation.thy ===== *)
theory Validation
  imports ChainCache
begin

text \<open>The checks of transactions and blocks, \<open>validateTransaction\<close>, \<open>validateSemantic\<close>, \<open>validateBlock\<close> and the first
  part of \<open>addBlock\<close> in \<open>src/src/cryptonote_core/core.cpp\<close>, and the checkpoints, \<open>checkpoints.cpp\<close>. A check
  returns the error code of the source or the values that the code goes on with. The operations on
  curve points, the ring signature and the slow hashes are parameters, as is the time.

  The theory shows what an accepted transaction and an accepted block satisfy, and that a file of
  checkpoints is loaded as written.\<close>

section \<open>Definitions\<close>

subsection \<open>Checkpoints\<close>

text \<open>The \<open>std::map\<close> from block indexes to hashes, in the order of its keys.\<close>

type_synonym Checkpoints = "(u32 \<times> hash) list"

text \<open>\<open>None\<close> is a key that exists already.\<close>

primrec points_insert :: "u32 \<Rightarrow> hash \<Rightarrow> Checkpoints \<Rightarrow> Checkpoints option" where
  "points_insert index h [] = Some [(index, h)]"
| "points_insert index h (p # ps) =
     (if index < fst p then Some ((index, h) # p # ps)
      else if index = fst p then None
      else map_option (Cons p) (points_insert index h ps))"

definition addCheckpoint :: "u32 \<Rightarrow> bytes \<Rightarrow> Checkpoints \<Rightarrow> bool \<times> Checkpoints" where
  "addCheckpoint index hash_str points =
     (let (r, h) = podFromHex hash_str NULL_HASH in
      if \<not> r then (False, points)
      else case points_insert index h points of
             None \<Rightarrow> (False, points)
           | Some points \<Rightarrow> (True, points))"

text \<open>\<open>std::getline\<close> on the rest of a file: \<open>None\<close> at its end.\<close>

definition getline :: "byte \<Rightarrow> bytes \<Rightarrow> (bytes \<times> bytes) option" where
  "getline delim content =
     (if content = [] then None
      else let l = takeWhile (\<lambda>ch. ch \<noteq> delim) content in Some (l, drop (length l + 1) content))"

datatype stoull_error = InvalidArgument | OutOfRange



text \<open>\<open>std::stoull\<close> skips white space, takes a sign, and ignores what follows the digits.\<close>

definition stoull :: "bytes \<Rightarrow> stoull_error + u64" where
  "stoull str =
     (let s = dropWhile isspace str;
          neg = (s \<noteq> [] \<and> hd s = 45);
          s = (if s \<noteq> [] \<and> hd s \<in> {43, 45} then tl s else s);
          digits = takeWhile isdigit s;
          n = dec_value digits
      in if digits = [] then Inl InvalidArgument
         else if n \<ge> 2 ^ 64 then Inl OutOfRange
         else Inr (if neg then - of_nat n else of_nat n))"

text \<open>The loop over the lines. The variable \<open>index\<close> keeps its value when the number is out of range; before
  the first number it has none, and reading it is undefined: \<open>None\<close>.\<close>

function load_lines :: "u64 option \<Rightarrow> bytes \<Rightarrow> Checkpoints \<Rightarrow> (bool \<times> Checkpoints) option" where
  "load_lines index content points =
     (case getline 44 content of
        None \<Rightarrow> Some (True, points)
      | Some (indexString, rest) \<Rightarrow>
          (case getline 10 rest of
             None \<Rightarrow> Some (True, points)
           | Some (hash_str, rest) \<Rightarrow>
               (case stoull indexString of
                  Inl InvalidArgument \<Rightarrow> Some (False, points)
                | r \<Rightarrow>
                    (case (case r of Inr v \<Rightarrow> Some v | Inl _ \<Rightarrow> index) of
                       None \<Rightarrow> None
                     | Some i \<Rightarrow>
                         (case addCheckpoint (ucast i) hash_str points of
                            (False, points) \<Rightarrow> Some (False, points)
                          | (True, points) \<Rightarrow> load_lines (Some i) rest points)))))"
  by pat_completeness auto

lemma getline_shorter: "getline d s = Some (l, r) \<Longrightarrow> length r < length s"
  by (auto simp: getline_def Let_def split: if_splits)

termination load_lines
  by (relation "measure (\<lambda>(index, content, points). length content)") (auto dest!: getline_shorter)

declare load_lines.simps [simp del]

text \<open>\<open>None\<close> for the content is a file that cannot be opened.\<close>

definition loadCheckpointsFromFile :: "bytes option \<Rightarrow> Checkpoints \<Rightarrow> (bool \<times> Checkpoints) option" where
  "loadCheckpointsFromFile file points =
     (case file of None \<Rightarrow> Some (False, points) | Some content \<Rightarrow> load_lines None content points)"

definition isInCheckpointZone :: "Checkpoints \<Rightarrow> u32 \<Rightarrow> bool" where
  "isInCheckpointZone points index \<longleftrightarrow> points \<noteq> [] \<and> index \<le> fst (last points)"

definition checkBlock :: "Checkpoints \<Rightarrow> u32 \<Rightarrow> hash \<Rightarrow> bool" where
  "checkBlock points index h = (case map_of points index of None \<Rightarrow> True | Some h' \<Rightarrow> h' = h)"

subsection \<open>Errors\<close>

datatype TransactionValidationError =
    EMPTY_INPUTS | INPUT_UNKNOWN_TYPE | INPUT_EMPTY_OUTPUT_USAGE | INPUT_INVALID_DOMAIN_KEYIMAGES
  | INPUT_IDENTICAL_KEYIMAGES | INPUT_IDENTICAL_OUTPUT_INDEXES | INPUT_KEYIMAGE_ALREADY_SPENT
  | INPUT_INVALID_GLOBAL_INDEX | INPUT_SPEND_LOCKED_OUT | INPUT_INVALID_SIGNATURES | INPUT_WRONG_SIGNATURES_COUNT
  | INPUTS_AMOUNT_OVERFLOW | INPUT_WRONG_COUNT | INPUT_UNEXPECTED_TYPE | BASE_INPUT_WRONG_BLOCK_INDEX
  | OUTPUT_ZERO_AMOUNT | OUTPUT_INVALID_KEY | OUTPUT_INVALID_REQUIRED_SIGNATURES_COUNT | OUTPUT_UNKNOWN_TYPE
  | OUTPUTS_AMOUNT_OVERFLOW | WRONG_AMOUNT | WRONG_TRANSACTION_UNLOCK_TIME | INVALID_MIXIN | EXTRA_TOO_LARGE
  | BASE_INVALID_SIGNATURES_COUNT | INPUT_INVALID_SIGNATURES_COUNT

datatype BlockValidationError =
    WRONG_VERSION | PARENT_BLOCK_SIZE_TOO_BIG | PARENT_BLOCK_WRONG_VERSION | TIMESTAMP_TOO_FAR_IN_FUTURE
  | TIMESTAMP_TOO_FAR_IN_PAST | CUMULATIVE_BLOCK_SIZE_TOO_BIG | DIFFICULTY_OVERHEAD | BLOCK_REWARD_MISMATCH
  | CHECKPOINT_BLOCK_HASH_MISMATCH | PROOF_OF_WORK_TOO_WEAK | TRANSACTION_ABSENT_IN_POOL | TRANSACTION_DUPLICATES
  | TRANSACTION_INCONSISTENCY

datatype AddBlockErrorCode =
    ADDED_TO_MAIN | ADDED_TO_ALTERNATIVE | ADDED_TO_ALTERNATIVE_AND_SWITCHED | ALREADY_EXISTS
  | REJECTED_AS_ORPHANED | DESERIALIZATION_FAILED

text \<open>The values of \<open>std::error_code\<close> other than success. \<open>Undefined\<close> is an exception that leaves the
  function, or an access out of range.\<close>

datatype error_code =
    TransactionError TransactionValidationError
  | BlockError BlockValidationError
  | AddBlockError AddBlockErrorCode
  | Undefined

text \<open>A getter of a cached object that throws ends the function.\<close>

definition liftE :: "'e + 'a \<Rightarrow> error_code + 'a" where
  "liftE r = (case r of Inl _ \<Rightarrow> Inl Undefined | Inr x \<Rightarrow> Inr x)"

definition the_or_undefined :: "'a option \<Rightarrow> error_code + 'a" where
  "the_or_undefined r = (case r of None \<Rightarrow> Inl Undefined | Some x \<Rightarrow> Inr x)"

definition medianValue :: "u64 list \<Rightarrow> u64" where
  "medianValue v =
     (if v = [] then 0
      else if length v = 1 then v ! 0
      else let n = length v div 2; v = sort v
           in if length v mod 2 = 1 then v ! n else (v ! (n - 1) + v ! n) div 2)"

subsection \<open>Transactions\<close>

text \<open>The checks on curve points and ring signatures.\<close>

record signature_checks =
  check_key :: "public_key \<Rightarrow> bool"
  scalarmultKey :: "key_image \<Rightarrow> key_image \<Rightarrow> key_image"
  checkRingSignature :: "hash \<Rightarrow> key_image \<Rightarrow> public_key list \<Rightarrow> signature list \<Rightarrow> bool"

definition key_image_I :: key_image where
  "key_image_I = 1 # replicate 31 0"

definition key_image_L :: key_image where
  "key_image_L = [0xed, 0xd3, 0xf5, 0x5c, 0x1a, 0x63, 0x12, 0x58, 0xd6, 0x9c, 0xf7, 0xa2, 0xde, 0xf9, 0xde, 0x14] @
     replicate 15 0 @ [0x10]"

text \<open>The loop over the outputs with the sum of their amounts. An output has no other type than a key.\<close>

primrec semantic_outputs :: "signature_checks \<Rightarrow> u64 \<Rightarrow> TransactionOutput list \<Rightarrow> TransactionValidationError + u64" where
  "semantic_outputs sc summaryOutputAmount [] = Inr summaryOutputAmount"
| "semantic_outputs sc summaryOutputAmount (out # outs) =
     (if out_amount out = 0 then Inl OUTPUT_ZERO_AMOUNT
      else if \<not> check_key sc (target_key (out_target out)) then Inl OUTPUT_INVALID_KEY
      else if - 1 - out_amount out < summaryOutputAmount then Inl OUTPUTS_AMOUNT_OVERFLOW
      else semantic_outputs sc (summaryOutputAmount + out_amount out) outs)"

text \<open>The loop over the inputs with the key images so far and the sum of the amounts.\<close>

primrec semantic_inputs ::
  "signature_checks \<Rightarrow> key_image set \<Rightarrow> u64 \<Rightarrow> TransactionInput list \<Rightarrow> TransactionValidationError + u64" where
  "semantic_inputs sc ki summaryInputAmount [] = Inr summaryInputAmount"
| "semantic_inputs sc ki summaryInputAmount (inp # ins) =
     (case inp of
        BaseInput _ \<Rightarrow> Inl INPUT_UNKNOWN_TYPE
      | KeyInput amount offsets img \<Rightarrow>
          if img \<in> ki then Inl INPUT_IDENTICAL_KEYIMAGES
          else if offsets = [] then Inl INPUT_EMPTY_OUTPUT_USAGE
          else if scalarmultKey sc img key_image_L \<noteq> key_image_I then Inl INPUT_INVALID_DOMAIN_KEYIMAGES
          else if 0 \<in> set (tl offsets) then Inl INPUT_IDENTICAL_OUTPUT_INDEXES
          else if - 1 - amount < summaryInputAmount then Inl INPUTS_AMOUNT_OVERFLOW
          else semantic_inputs sc (insert img ki) (summaryInputAmount + amount) ins)"

text \<open>The result is the fee.\<close>

definition validateSemantic :: "signature_checks \<Rightarrow> Transaction \<Rightarrow> TransactionValidationError + u64" where
  "validateSemantic sc tx =
     (if inputs tx = [] then Inl EMPTY_INPUTS
      else bindE (semantic_outputs sc 0 (outputs tx)) (\<lambda>summaryOutputAmount.
           bindE (semantic_inputs sc {} 0 (inputs tx)) (\<lambda>summaryInputAmount.
           if summaryOutputAmount > summaryInputAmount then Inl WRONG_AMOUNT
           else Inr (summaryInputAmount - summaryOutputAmount))))"

text \<open>The surroundings of a validation: the currency, the checkpoints, the cryptography and the value of
  \<open>time\<close>.\<close>

record validation_env =
  ve_currency :: Currency
  ve_checkpoints :: Checkpoints
  ve_checks :: signature_checks
  ve_slow :: slow_hashes
  ve_now :: u64

text \<open>The checks of one input against the chain. The offsets are summed as in
  \<open>relativeOutputOffsetsToAbsolute\<close>.\<close>

definition validate_input ::
  "validation_env \<Rightarrow> CachedTransaction \<Rightarrow> chain \<Rightarrow> nat \<Rightarrow> nat \<Rightarrow> u64 \<Rightarrow> u32 list \<Rightarrow> key_image \<Rightarrow> error_code + unit" where
  "validate_input env ct cache blockIndex' inputIndex amount offsets img =
     bindE (guardE (\<not> checkIfSpent_at img blockIndex' cache) (TransactionError INPUT_KEYIMAGE_ALREADY_SPENT)) (\<lambda>_.
     bindE (case extractKeyOutputKeys (ve_currency env) (ve_now env) amount blockIndex'
                   (relativeOutputOffsetsToAbsolute offsets) cache of
              Inl INVALID_GLOBAL_INDEX \<Rightarrow> Inl (TransactionError INPUT_INVALID_GLOBAL_INDEX)
            | Inl OUTPUT_LOCKED \<Rightarrow> Inl (TransactionError INPUT_SPEND_LOCKED_OUT)
            | Inr outputKeys \<Rightarrow> Inr outputKeys) (\<lambda>outputKeys.
     bindE (guardE (inputIndex < length (signatures (ct_transaction ct))) Undefined) (\<lambda>_.
     let sigs = signatures (ct_transaction ct) ! inputIndex in
     bindE (guardE (\<not> (of_nat blockIndex' \<ge> TRANSACTION_SIGNATURE_COUNT_VALIDATION_HEIGHT \<and> length outputKeys \<noteq> length sigs))
              (TransactionError INPUT_INVALID_SIGNATURES_COUNT)) (\<lambda>_.
     bindE (liftE (fst (getTransactionPrefixHash ct))) (\<lambda>prefixHash.
     guardE (checkRingSignature (ve_checks env) prefixHash img outputKeys sigs) (TransactionError INPUT_INVALID_SIGNATURES))))))"

primrec validate_inputs ::
  "validation_env \<Rightarrow> CachedTransaction \<Rightarrow> chain \<Rightarrow> nat \<Rightarrow> nat \<Rightarrow> TransactionInput list \<Rightarrow> TransactionValidatorState \<Rightarrow>
   error_code + TransactionValidatorState" where
  "validate_inputs env ct cache blockIndex' inputIndex [] st = Inr st"
| "validate_inputs env ct cache blockIndex' inputIndex (inp # ins) st =
     (case inp of
        BaseInput _ \<Rightarrow> Inl (TransactionError INPUT_UNKNOWN_TYPE)
      | KeyInput amount offsets img \<Rightarrow>
          bindE (guardE (img \<notin> spentKeyImages st) (TransactionError INPUT_KEYIMAGE_ALREADY_SPENT)) (\<lambda>_.
          bindE (if isInCheckpointZone (ve_checkpoints env) (of_nat (blockIndex' + 1)) then Inr ()
                 else validate_input env ct cache blockIndex' inputIndex amount offsets img) (\<lambda>_.
          validate_inputs env ct cache blockIndex' (inputIndex + 1) ins
            (st \<lparr> spentKeyImages := insert img (spentKeyImages st) \<rparr>))))"

text \<open>The result is the fee and the state with the key images of the transaction.\<close>

definition validateTransaction ::
  "validation_env \<Rightarrow> CachedTransaction \<Rightarrow> TransactionValidatorState \<Rightarrow> chain \<Rightarrow> nat \<Rightarrow>
   error_code + u64 \<times> TransactionValidatorState" where
  "validateTransaction env ct st cache blockIndex' =
     (case validateSemantic (ve_checks env) (ct_transaction ct) of
        Inl e \<Rightarrow> Inl (TransactionError e)
      | Inr fee \<Rightarrow> bindE (validate_inputs env ct cache blockIndex' 0 (inputs (ct_transaction ct)) st) (\<lambda>st. Inr (fee, st)))"

subsection \<open>Blocks\<close>

text \<open>\<open>None\<close> is a transaction that is too big or cannot be read.\<close>

primrec extract_loop :: "Currency \<Rightarrow> bytes list \<Rightarrow> CachedTransaction list \<Rightarrow> u64 \<Rightarrow> (CachedTransaction list \<times> u64) option" where
  "extract_loop c [] transactions cumulativeSize = Some (transactions, cumulativeSize)"
| "extract_loop c (raw # raws) transactions cumulativeSize =
     (if of_nat (length raw) > m_maxTxSize c then None
      else case CachedTransaction_of_blob raw of
             Inl _ \<Rightarrow> None
           | Inr ct \<Rightarrow> extract_loop c raws (transactions @ [ct]) (cumulativeSize + of_nat (length raw)))"

definition extractTransactions :: "Currency \<Rightarrow> bytes list \<Rightarrow> (CachedTransaction list \<times> u64) option" where
  "extractTransactions c rawTransactions = extract_loop c rawTransactions [] 0"

text \<open>The checks of the base transaction; the result is the sum of its outputs. The loop over the outputs
  is that of \<open>validateSemantic\<close>.\<close>

definition validate_base :: "validation_env \<Rightarrow> Transaction \<Rightarrow> u32 \<Rightarrow> u32 \<Rightarrow> error_code + u64" where
  "validate_base env base index nextIndex =
     bindE (guardE (length (inputs base) = 1) (TransactionError INPUT_WRONG_COUNT)) (\<lambda>_.
     bindE (case inputs base ! 0 of
              BaseInput i \<Rightarrow> Inr i
            | KeyInput _ _ _ \<Rightarrow> Inl (TransactionError INPUT_UNEXPECTED_TYPE)) (\<lambda>i.
     bindE (guardE (i = nextIndex) (TransactionError BASE_INPUT_WRONG_BLOCK_INDEX)) (\<lambda>_.
     bindE (guardE (unlockTime base = ucast (nextIndex + m_minedMoneyUnlockWindow (ve_currency env)))
              (TransactionError WRONG_TRANSACTION_UNLOCK_TIME)) (\<lambda>_.
     bindE (guardE (\<not> (ucast index \<ge> TRANSACTION_SIGNATURE_COUNT_VALIDATION_HEIGHT \<and> signatures base \<noteq> []))
              (TransactionError BASE_INVALID_SIGNATURES_COUNT)) (\<lambda>_.
     case semantic_outputs (ve_checks env) 0 (outputs base) of
       Inl e \<Rightarrow> Inl (TransactionError e)
     | Inr minerReward \<Rightarrow> Inr minerReward)))))"

text \<open>The segment that holds the previous block is the head of \<open>cache\<close>. The core keeps the same schedule
  of versions as the segments. The result is the reward that the block pays.\<close>

definition validateBlock :: "validation_env \<Rightarrow> CachedBlock \<Rightarrow> chain \<Rightarrow> error_code + u64" where
  "validateBlock env cachedBlock cache =
     (let c = ve_currency env; block = cb_block cachedBlock in
      bindE (the_or_undefined (cache_getBlockIndex (hd cache) (previousBlockHash block))) (\<lambda>previousBlockIndex.
      bindE (liftE (fst (getBlockIndex cachedBlock))) (\<lambda>index.
      let nextIndex = of_nat (previousBlockIndex + 1) in
      bindE (guardE (getBlockMajorVersion (upgradeDetectors c) index = majorVersion block) (BlockError WRONG_VERSION)) (\<lambda>_.
      bindE (if majorVersion block \<ge> BLOCK_MAJOR_VERSION_2 then
               bindE (guardE (\<not> (majorVersion block = BLOCK_MAJOR_VERSION_2 \<and>
                                 pb_majorVersion (parentBlock block) > BLOCK_MAJOR_VERSION_1))
                        (BlockError PARENT_BLOCK_WRONG_VERSION)) (\<lambda>_.
               bindE (liftE (fst (getParentBlockBinaryArray False cachedBlock))) (\<lambda>ba.
               guardE (length ba \<le> 2048) (BlockError PARENT_BLOCK_SIZE_TOO_BIG)))
             else Inr ()) (\<lambda>_.
      bindE (guardE (timestamp block \<le> ve_now env + blockFutureTimeLimit c nextIndex)
               (BlockError TIMESTAMP_TOO_FAR_IN_FUTURE)) (\<lambda>_.
      let window = unat (timestampCheckWindow c nextIndex);
          timestamps = getLastTimestamps window previousBlockIndex True cache in
      bindE (guardE (\<not> (window \<le> length timestamps \<and> timestamp block < medianValue timestamps))
               (BlockError TIMESTAMP_TOO_FAR_IN_PAST)) (\<lambda>_.
      validate_base env (baseTransaction block) index nextIndex)))))))"

primrec validate_transactions ::
  "validation_env \<Rightarrow> chain \<Rightarrow> nat \<Rightarrow> CachedTransaction list \<Rightarrow> TransactionValidatorState \<Rightarrow> u64 \<Rightarrow>
   error_code + u64 \<times> TransactionValidatorState" where
  "validate_transactions env cache previousBlockIndex [] st cumulativeFee = Inr (cumulativeFee, st)"
| "validate_transactions env cache previousBlockIndex (tx # txs) st cumulativeFee =
     bindE (validateTransaction env tx st cache previousBlockIndex) (\<lambda>(fee, st).
     validate_transactions env cache previousBlockIndex txs st (cumulativeFee + fee))"

text \<open>The transactions and the hashes that the template lists.\<close>

definition check_transaction_hashes :: "BlockTemplate \<Rightarrow> u32 \<Rightarrow> CachedTransaction list \<Rightarrow> error_code + unit" where
  "check_transaction_hashes block blockIndex' transactions =
     (if ucast blockIndex' \<ge> BLOCK_BLOB_SHUFFLE_CHECK_HEIGHT then
        bindE (guardE (distinct (transactionHashes block)) (BlockError TRANSACTION_DUPLICATES)) (\<lambda>_.
        if list_ex (\<lambda>tx. isl (fst (getTransactionHash tx))) transactions then Inl Undefined
        else let hashes = map (\<lambda>tx. projr (fst (getTransactionHash tx))) transactions in
             bindE (guardE (distinct hashes) (BlockError TRANSACTION_DUPLICATES)) (\<lambda>_.
             bindE (guardE (list_all (\<lambda>h. h \<in> set (transactionHashes block)) hashes) (BlockError TRANSACTION_INCONSISTENCY)) (\<lambda>_.
             guardE (transactionHashes block = hashes) (BlockError TRANSACTION_INCONSISTENCY))))
      else Inr ())"

definition check_mixins :: "CachedTransaction list \<Rightarrow> u32 \<Rightarrow> error_code + unit" where
  "check_mixins transactions blockIndex' =
     (let mixinChangeWindow = (if blockIndex' > CRYPTONOTE_MINED_MONEY_UNLOCK_WINDOW
                               then blockIndex' - CRYPTONOTE_MINED_MONEY_UNLOCK_WINDOW else blockIndex');
          valid = (\<lambda>height. \<not> isl (validate_mixin_transactions (map ct_transaction transactions) (ucast height)))
      in guardE (valid blockIndex' \<or> valid mixinChangeWindow) (TransactionError INVALID_MIXIN))"

definition check_work :: "validation_env \<Rightarrow> CachedBlock \<Rightarrow> u32 \<Rightarrow> hash \<Rightarrow> u64 \<Rightarrow> error_code + unit" where
  "check_work env cachedBlock blockIndex' blockHash currentDifficulty =
     (if isInCheckpointZone (ve_checkpoints env) blockIndex'
      then guardE (checkBlock (ve_checkpoints env) blockIndex' blockHash) (BlockError CHECKPOINT_BLOCK_HASH_MISMATCH)
      else bindE (the_or_undefined (cachedGenesisBlock (ve_currency env))) (\<lambda>genesis.
           bindE (liftE (fst (checkProofOfWork (ve_slow env) genesis cachedBlock currentDifficulty))) (\<lambda>r.
           guardE r (BlockError PROOF_OF_WORK_TOO_WEAK))))"

text \<open>What \<open>addBlock\<close> passes to \<open>pushBlock\<close>.\<close>

record accepted_block =
  ab_block :: CachedBlock
  ab_transactions :: "CachedTransaction list"
  ab_state :: TransactionValidatorState
  ab_size :: u64
  ab_emission :: i64
  ab_difficulty :: u64
  ab_raw :: RawBlock
  ab_previous :: nat

text \<open>The checks of \<open>addBlock\<close> on a block whose previous block is in the segment \<open>hd cache\<close>.\<close>

definition check_new_block ::
  "validation_env \<Rightarrow> CachedBlock \<Rightarrow> RawBlock \<Rightarrow> u32 \<Rightarrow> hash \<Rightarrow> chain \<Rightarrow> error_code + accepted_block" where
  "check_new_block env cachedBlock rawBlock blockIndex' blockHash cache =
     (let c = ve_currency env; block = cb_block cachedBlock in
      bindE (case extractTransactions c (rb_transactions rawBlock) of
               None \<Rightarrow> Inl (AddBlockError DESERIALIZATION_FAILED) | Some r \<Rightarrow> Inr r) (\<lambda>(transactions, cumulativeSize).
      let cumulativeBlockSize = snd (getObjectBinarySize (write_Transaction (baseTransaction block))) + cumulativeSize in
      bindE (the_or_undefined (cache_getBlockIndex (hd cache) (previousBlockHash block))) (\<lambda>previousBlockIndex.
      bindE (the_or_undefined (maxBlockCumulativeSize c (ucast (of_nat (previousBlockIndex + 1) :: u32)))) (\<lambda>maxSize.
      bindE (guardE (cumulativeBlockSize \<le> maxSize) (BlockError CUMULATIVE_BLOCK_SIZE_TOO_BIG)) (\<lambda>_.
      bindE (validateBlock env cachedBlock cache) (\<lambda>minerReward.
      bindE (the_or_undefined (getDifficultyForNextBlock c previousBlockIndex cache)) (\<lambda>currentDifficulty.
      bindE (guardE (currentDifficulty \<noteq> 0) (BlockError DIFFICULTY_OVERHEAD)) (\<lambda>_.
      bindE (check_transaction_hashes block blockIndex' transactions) (\<lambda>_.
      bindE (check_mixins transactions blockIndex') (\<lambda>_.
      bindE (validate_transactions env cache previousBlockIndex transactions \<lparr> spentKeyImages = {} \<rparr> 0) (\<lambda>(cumulativeFee, st).
      bindE (the_or_undefined (getAlreadyGeneratedCoins previousBlockIndex cache)) (\<lambda>alreadyGeneratedCoins.
      let median = medianValue (getLastBlocksSizes (unat (m_rewardBlocksWindow c)) previousBlockIndex True cache) in
      bindE (case getBlockReward c (majorVersion block) median cumulativeBlockSize alreadyGeneratedCoins cumulativeFee of
               Inl BlockTooBig \<Rightarrow> Inl (BlockError CUMULATIVE_BLOCK_SIZE_TOO_BIG)
             | Inl RewardUndefined \<Rightarrow> Inl Undefined
             | Inr r \<Rightarrow> Inr r) (\<lambda>(reward, emissionChange).
      bindE (guardE (minerReward = reward) (BlockError BLOCK_REWARD_MISMATCH)) (\<lambda>_.
      bindE (check_work env cachedBlock blockIndex' blockHash currentDifficulty) (\<lambda>_.
      Inr \<lparr> ab_block = cachedBlock, ab_transactions = transactions, ab_state = st, ab_size = cumulativeBlockSize,
            ab_emission = emissionChange, ab_difficulty = currentDifficulty, ab_raw = rawBlock,
            ab_previous = previousBlockIndex \<rparr>)))))))))))))))"

section \<open>Checkpoints\<close>

lemma points_insert_result:
  assumes "sorted_wrt (<) (map fst points)"
  shows "case points_insert i h points of
      None \<Rightarrow> i \<in> fst ` set points
    | Some points' \<Rightarrow> i \<notin> fst ` set points \<and> sorted_wrt (<) (map fst points') \<and> set points' = insert (i, h) (set points)"
  using assms
proof (induction points)
  case (Cons p points)
  then have IH: "case points_insert i h points of
      None \<Rightarrow> i \<in> fst ` set points
    | Some points' \<Rightarrow> i \<notin> fst ` set points \<and> sorted_wrt (<) (map fst points') \<and> set points' = insert (i, h) (set points)" by simp
  show ?case
  proof (cases "i < fst p \<or> i = fst p")
    case True
    then show ?thesis using Cons.prems by (auto dest: less_trans)
  next
    case False
    then show ?thesis using IH Cons.prems by (auto split: option.splits)
  qed
qed simp

lemma addCheckpoint_iff:
  assumes "sorted_wrt (<) (map fst points)" "addCheckpoint i str points = (r, points')"
  shows "r \<longleftrightarrow> (\<exists>h. hex_decode str = Some h \<and> length h = 32) \<and> i \<notin> fst ` set points"
    and "\<not> r \<Longrightarrow> points' = points"
    and "r \<Longrightarrow> sorted_wrt (<) (map fst points') \<and> set points' = insert (i, the (hex_decode str)) (set points)"
proof -
  obtain b h where p: "podFromHex str NULL_HASH = (b, h)" by (cases "podFromHex str NULL_HASH")
  have b: "b \<longleftrightarrow> (\<exists>h. hex_decode str = Some h \<and> length h = 32)" and h: "b \<Longrightarrow> hex_decode str = Some h"
    using podFromHex_decode [of NULL_HASH str] p by (auto simp: NULL_HASH_def)
  note ins = points_insert_result [OF assms(1), of i h]
  show "r \<longleftrightarrow> (\<exists>h. hex_decode str = Some h \<and> length h = 32) \<and> i \<notin> fst ` set points" "\<not> r \<Longrightarrow> points' = points"
    "r \<Longrightarrow> sorted_wrt (<) (map fst points') \<and> set points' = insert (i, the (hex_decode str)) (set points)"
    using assms(2) ins p b h by (auto simp: addCheckpoint_def split: option.splits if_splits)
qed

lemma zone_iff:
  assumes "sorted_wrt (<) (map fst points)"
  shows "isInCheckpointZone points i \<longleftrightarrow> (\<exists>p \<in> set points. i \<le> fst p)"
proof (cases points rule: rev_cases)
  case (snoc ps p)
  have "fst q \<le> fst p" if "q \<in> set points" for q
    using that assms by (auto simp: snoc sorted_wrt_append less_imp_le)
  then show ?thesis by (auto simp: isInCheckpointZone_def snoc intro: order.trans)
qed (simp add: isInCheckpointZone_def)

text \<open>A line of the file of checkpoints.\<close>

definition checkpoint_line :: "u32 \<times> hash \<Rightarrow> bytes" where
  "checkpoint_line p = to_string (unat (fst p)) @ 44 # toHex (snd p) @ [10]"

lemma getline_append: "d \<notin> set l \<Longrightarrow> getline d (l @ d # r) = Some (l, r)"
proof -
  assume "d \<notin> set l"
  then have "takeWhile (\<lambda>ch. ch \<noteq> d) (l @ d # r) = l" by (subst takeWhile_append2) auto
  then show ?thesis by (simp add: getline_def Let_def)
qed

lemma stoull_to_string:
  assumes "n < 2 ^ 64"
  shows "stoull (to_string n) = Inr (of_nat n)"
proof -
  obtain c cs where c: "to_string n = c # cs" "isdigit c" using to_string_Cons by blast
  note p = isdigit_props [OF c(2)]
  have t: "takeWhile isdigit (to_string n) = to_string n" using to_string_digits by (auto simp: takeWhile_eq_all_conv)
  have d: "dropWhile isspace (to_string n) = to_string n" using c p by simp
  have "hd (to_string n) \<noteq> 45" "hd (to_string n) \<noteq> 43" using c p by simp_all
  then show ?thesis using assms by (simp add: stoull_def Let_def d t)
qed

lemma toHex_no_newline: "10 \<notin> set (toHex h)"
proof (induction h)
  case (Cons b h)
  have "hex_digits ! unat x \<noteq> 10" if "unat x < 16" for x :: byte
  proof -
    have "list_all (\<lambda>c. c \<noteq> 10) hex_digits" "length hex_digits = 16" by (simp_all add: hex_digits_def bytes_of_def)
    then show ?thesis using that by (auto simp: list_all_length)
  qed
  then show ?case using Cons nibble_bounds [of b] by auto
qed simp

lemma addCheckpoint_new:
  assumes "sorted_wrt (<) (map fst points)" "length h = 32" "i \<notin> fst ` set points"
  shows "\<exists>points'. addCheckpoint i (toHex h) points = (True, points') \<and> sorted_wrt (<) (map fst points') \<and> set points' = insert (i, h) (set points)"
  using addCheckpoint_iff [OF assms(1), of i "toHex h"] assms(2,3) by (cases "addCheckpoint i (toHex h) points") auto

lemma load_lines_file:
  assumes "sorted_wrt (<) (map fst points)" "distinct (map fst cps)" "fst ` set cps \<inter> fst ` set points = {}"
    "list_all (\<lambda>p. length (snd p) = 32) cps"
  shows "\<exists>points'. load_lines index (concat (map checkpoint_line cps)) points = Some (True, points') \<and>
    sorted_wrt (<) (map fst points') \<and> set points' = set points \<union> set cps"
  using assms
proof (induction cps arbitrary: index points)
  case Nil
  then show ?case by (simp add: load_lines.simps getline_def)
next
  case (Cons p cps)
  obtain i h where p: "p = (i, h)" by (cases p)
  have no: "44 \<notin> set (to_string (unat i))" using to_string_digits [of 44 "unat i"] by (auto simp: isdigit_def)
  obtain points1 where 1: "addCheckpoint i (toHex h) points = (True, points1)" "sorted_wrt (<) (map fst points1)"
    "set points1 = insert (i, h) (set points)"
    using addCheckpoint_new [OF Cons.prems(1), of h i] Cons.prems(3,4) by (auto simp: p)
  have lt: "unat i < 2 ^ 64" using unat_lt_32 [of i] by simp
  note n = stoull_to_string [OF lt]
  have u: "ucast (of_nat (unat i) :: u64) = i"
  proof -
    have "unat (of_nat (unat i) :: u64) = unat i" using lt by (intro unat_of_nat_small) simp
    then show ?thesis using unat_lt_32 [of i] unfolding word_eq_unat unat_ucast_mod by simp
  qed
  have l: "getline 44 (concat (map checkpoint_line (p # cps))) = Some (to_string (unat i), toHex h @ 10 # concat (map checkpoint_line cps))"
    using getline_append [OF no, of "toHex h @ 10 # concat (map checkpoint_line cps)"] by (simp add: checkpoint_line_def p)
  have "load_lines index (concat (map checkpoint_line (p # cps))) points =
      load_lines (Some (of_nat (unat i))) (concat (map checkpoint_line cps)) points1"
    by (subst load_lines.simps) (simp only: l getline_append [OF toHex_no_newline] n 1(1) u option.case prod.case sum.case bool.case)
  then show ?case using Cons.IH [of points1] Cons.prems 1 by (auto simp: p)
qed

text \<open>A number out of range repeats the index of the line before, and is undefined in the first line.\<close>

lemma load_lines_returns: "index \<noteq> None \<Longrightarrow> load_lines index content points \<noteq> None"
proof (induction index content points rule: load_lines.induct)
  case (1 index content points)
  then show ?case
    by (subst load_lines.simps) (auto split: option.splits sum.splits stoull_error.splits bool.splits prod.splits)
qed

section \<open>Amounts of a transaction\<close>

lemma max_minus_less: "- 1 - a < s \<longleftrightarrow> \<not> unat s + unat a < 18446744073709551616" for a s :: u64
proof -
  have m: "unat (- 1 :: u64) = 18446744073709551615" by (simp only: unsigned_minus_1_eq_mask mask_eq_exp_minus_1) simp
  have "unat (- 1 - a) = 18446744073709551615 - unat a" using unat_lt_64 [of a] by (subst unat_sub) (simp_all add: m word_le_unat)
  then show ?thesis using unat_lt_64 [of a] by (auto simp: word_less_unat)
qed

definition good_output :: "signature_checks \<Rightarrow> TransactionOutput \<Rightarrow> bool" where
  "good_output sc out \<longleftrightarrow> out_amount out \<noteq> 0 \<and> check_key sc (target_key (out_target out))"

definition good_input :: "signature_checks \<Rightarrow> TransactionInput \<Rightarrow> bool" where
  "good_input sc inp \<longleftrightarrow> (case inp of
     BaseInput _ \<Rightarrow> False
   | KeyInput amount offsets img \<Rightarrow> offsets \<noteq> [] \<and> scalarmultKey sc img key_image_L = key_image_I \<and> 0 \<notin> set (tl offsets))"

lemma semantic_outputs_iff:
  "semantic_outputs sc s outs = Inr t \<longleftrightarrow>
     list_all (good_output sc) outs \<and> unat t = unat s + nat_sum (map out_amount outs)"
proof (induction outs arbitrary: s)
  case Nil
  then show ?case by (auto simp: word_eq_unat)
next
  case (Cons out outs)
  show ?case
  proof (cases "unat s + unat (out_amount out) < 18446744073709551616")
    case True
    then have "unat (s + out_amount out) = unat s + unat (out_amount out)" by (simp add: unat_add64)
    then show ?thesis using True Cons.IH [of "s + out_amount out"] by (auto simp: max_minus_less good_output_def)
  next
    case False
    then show ?thesis using unat_lt_64 [of t] by (auto simp: max_minus_less)
  qed
qed

lemma semantic_inputs_iff:
  "semantic_inputs sc ki s ins = Inr t \<longleftrightarrow>
     list_all (good_input sc) ins \<and> distinct (key_images ins) \<and> set (key_images ins) \<inter> ki = {} \<and>
     unat t = unat s + nat_sum (key_amounts ins)"
proof (induction ins arbitrary: ki s)
  case Nil
  then show ?case by (auto simp: word_eq_unat key_images_def key_amounts_def)
next
  case (Cons inp ins)
  show ?case
  proof (cases inp)
    case (BaseInput i)
    then show ?thesis by (simp add: good_input_def)
  next
    case inp: (KeyInput a offs img)
    have k: "key_images (inp # ins) = img # key_images ins" "key_amounts (inp # ins) = a # key_amounts ins"
      by (simp_all add: inp key_images_def key_amounts_def)
    show ?thesis
    proof (cases "unat s + unat a < 18446744073709551616")
      case True
      then have "unat (s + a) = unat s + unat a" by (simp add: unat_add64)
      then show ?thesis using True Cons.IH [of "insert img ki" "s + a"] unfolding k by (auto simp: inp max_minus_less good_input_def)
    next
      case False
      then show ?thesis using unat_lt_64 [of t] unfolding k by (auto simp: inp max_minus_less)
    qed
  qed
qed

lemma validateSemantic_iff:
  "validateSemantic sc tx = Inr fee \<longleftrightarrow>
     inputs tx \<noteq> [] \<and> list_all (good_output sc) (outputs tx) \<and> list_all (good_input sc) (inputs tx) \<and>
     distinct (key_images (inputs tx)) \<and> nat_sum (key_amounts (inputs tx)) < 2 ^ 64 \<and>
     nat_sum (key_amounts (inputs tx)) = nat_sum (map out_amount (outputs tx)) + unat fee"
  (is "?l \<longleftrightarrow> ?r")
proof
  assume ?l
  then obtain o' i' where s: "inputs tx \<noteq> []" "semantic_outputs sc 0 (outputs tx) = Inr o'"
    "semantic_inputs sc {} 0 (inputs tx) = Inr i'" "\<not> i' < o'" "fee = i' - o'"
    by (auto simp: validateSemantic_def split: if_splits)
  then have "unat fee = unat i' - unat o'" "unat o' \<le> unat i'" by (auto simp: unat_sub not_less word_le_unat)
  then show ?r using s unat_lt_64 [of i'] by (auto simp: semantic_outputs_iff semantic_inputs_iff)
next
  assume r: ?r
  let ?o = "of_nat (nat_sum (map out_amount (outputs tx))) :: u64" and ?i = "of_nat (nat_sum (key_amounts (inputs tx))) :: u64"
  have o: "unat ?o = nat_sum (map out_amount (outputs tx))" by (rule unat_of_nat_small) (use r in simp)
  have i: "unat ?i = nat_sum (key_amounts (inputs tx))" by (rule unat_of_nat_small) (use r in simp)
  have "semantic_outputs sc 0 (outputs tx) = Inr ?o" using r o by (simp add: semantic_outputs_iff)
  moreover have "semantic_inputs sc {} 0 (inputs tx) = Inr ?i" using r i by (simp add: semantic_inputs_iff)
  moreover have "\<not> ?i < ?o" using r o i by (simp add: word_less_unat)
  moreover have "?i - ?o = fee"
  proof -
    have "?o \<le> ?i" using r o i by (simp add: word_le_unat)
    then have "unat (?i - ?o) = unat fee" using r o i by (simp add: unat_sub)
    then show ?thesis by (simp add: word_eq_unat)
  qed
  ultimately show ?l using r by (simp add: validateSemantic_def)
qed

text \<open>The fee of a valid transaction is the one that the pool sees.\<close>

lemma fee_inputs_key: "list_all (good_input sc) ins \<Longrightarrow> fee_inputs s ins = Some (foldl (+) s (key_amounts ins))"
  by (induction s ins rule: fee_inputs.induct) (simp_all add: good_input_def key_amounts_def)

lemma valid_fee:
  assumes "validateSemantic sc tx = Inr fee"
  shows "tx_fee_spec tx = Inr fee"
proof -
  have v: "list_all (good_input sc) (inputs tx)" "nat_sum (key_amounts (inputs tx)) < 18446744073709551616"
    "nat_sum (key_amounts (inputs tx)) = nat_sum (map out_amount (outputs tx)) + unat fee"
    using assms by (simp_all add: validateSemantic_iff)
  let ?i = "foldl (+) 0 (key_amounts (inputs tx))" and ?o = "foldl (\<lambda>s out. s + out_amount out) 0 (outputs tx)"
  have i: "unat ?i = nat_sum (key_amounts (inputs tx))" using v(2) by (simp add: foldl_plus_unat)
  have o: "unat ?o = nat_sum (map out_amount (outputs tx))"
    using v(2,3) foldl_plus_unat [of 0 "map out_amount (outputs tx)"] by (simp add: foldl_map)
  have "unat (?i - ?o) = unat fee" using i o v(3) by (subst unat_sub) (simp_all add: word_le_unat)
  then have "?i - ?o = fee" by (simp add: word_eq_unat)
  then show ?thesis using fee_inputs_key [OF v(1), of 0] by (simp add: tx_fee_spec_def Let_def)
qed

section \<open>Spent key images\<close>

text \<open>What the chain must say for an input: it is not spent, its ring is known and unlocked, and the ring
  signed.\<close>

definition input_authorized :: "validation_env \<Rightarrow> CachedTransaction \<Rightarrow> chain \<Rightarrow> nat \<Rightarrow> nat \<Rightarrow> bool" where
  "input_authorized env ct cache b i \<longleftrightarrow>
     (let tx = ct_transaction ct; inp = inputs tx ! i in
      \<not> checkIfSpent_at (keyImage inp) b cache \<and> i < length (signatures tx) \<and>
      (\<exists>keys h. extractKeyOutputKeys (ve_currency env) (ve_now env) (input_amount inp) b
                  (relativeOutputOffsetsToAbsolute (outputIndexes inp)) cache = Inr keys \<and>
                fst (getTransactionPrefixHash ct) = Inr h \<and>
                checkRingSignature (ve_checks env) h (keyImage inp) keys (signatures tx ! i)))"

lemma liftE_eq_Inr [simp]: "liftE r = Inr x \<longleftrightarrow> r = Inr x"
  by (cases r) (simp_all add: liftE_def)

lemma the_or_undefined_eq_Inr [simp]: "the_or_undefined r = Inr x \<longleftrightarrow> r = Some x"
  by (cases r) (simp_all add: the_or_undefined_def)

lemma validate_input_authorized:
  assumes "validate_input env ct cache b i a offs img = Inr u" "inputs (ct_transaction ct) ! i = KeyInput a offs img"
  shows "input_authorized env ct cache b i"
  using assms
  by (auto simp: validate_input_def input_authorized_def Let_def bindE_eq_Inr split: sum.splits ExtractOutputKeysResult.splits)

lemma validate_inputs_result:
  assumes "validate_inputs env ct cache b i ins st = Inr st'" "drop i (inputs (ct_transaction ct)) = ins"
  shows "distinct (key_images ins) \<and> set (key_images ins) \<inter> spentKeyImages st = {} \<and>
    spentKeyImages st' = spentKeyImages st \<union> set (key_images ins) \<and>
    (\<not> isInCheckpointZone (ve_checkpoints env) (of_nat (b + 1)) \<longrightarrow>
       (\<forall>j. i \<le> j \<and> j < length (inputs (ct_transaction ct)) \<longrightarrow> input_authorized env ct cache b j))"
  using assms
proof (induction ins arbitrary: i st)
  case Nil
  then show ?case by (auto simp: key_images_def)
next
  case (Cons inp ins)
  have d: "drop (i + 1) (inputs (ct_transaction ct)) = ins" "inputs (ct_transaction ct) ! i = inp" "i < length (inputs (ct_transaction ct))"
    using Cons.prems(2) by (metis Suc_eq_plus1 drop_Suc list.sel(3) tl_drop, metis nth_via_drop, metis drop_all leI list.distinct(1))
  obtain a offs img where inp: "inp = KeyInput a offs img" using Cons.prems(1) by (cases inp) auto
  let ?st = "st \<lparr> spentKeyImages := insert img (spentKeyImages st) \<rparr>"
  have v: "img \<notin> spentKeyImages st" "validate_inputs env ct cache b (i + 1) ins ?st = Inr st'"
    "\<not> isInCheckpointZone (ve_checkpoints env) (of_nat (b + 1)) \<Longrightarrow> validate_input env ct cache b i a offs img = Inr ()"
    using Cons.prems(1) by (auto simp: inp bindE_eq_Inr split: if_splits)
  have k: "key_images (inp # ins) = img # key_images ins" by (simp add: inp key_images_def)
  have "input_authorized env ct cache b i" if "\<not> isInCheckpointZone (ve_checkpoints env) (of_nat (b + 1))"
    using validate_input_authorized v(3) [OF that] d(2) inp by blast
  moreover have "j = i \<or> i + 1 \<le> j" if "i \<le> j" for j using that by auto
  ultimately show ?case using Cons.IH [OF v(2) d(1)] v(1) unfolding k by auto
qed

lemma validateTransaction_result:
  assumes "validateTransaction env ct st cache b = Inr (fee, st')"
  shows "validateSemantic (ve_checks env) (ct_transaction ct) = Inr fee"
    "set (key_images (inputs (ct_transaction ct))) \<inter> spentKeyImages st = {}"
    "spentKeyImages st' = spentKeyImages st \<union> set (key_images (inputs (ct_transaction ct)))"
    "\<not> isInCheckpointZone (ve_checkpoints env) (of_nat (b + 1)) \<Longrightarrow> i < length (inputs (ct_transaction ct)) \<Longrightarrow>
     input_authorized env ct cache b i"
  using assms validate_inputs_result [of env ct cache b 0 "inputs (ct_transaction ct)" st st']
  by (auto simp: validateTransaction_def bindE_eq_Inr split: sum.splits)

lemma key_images_unspent:
  assumes "\<And>i. i < length ins \<Longrightarrow> \<not> P (keyImage (ins ! i))" "ki \<in> set (key_images ins)"
  shows "\<not> P ki"
  using assms by (auto simp: key_images_def in_set_conv_nth)

lemma validate_transactions_result:
  assumes "validate_transactions env cache b txs st f = Inr (f', st')"
  shows "\<exists>fees. list_all2 (\<lambda>ct fee. validateSemantic (ve_checks env) (ct_transaction ct) = Inr fee) txs fees \<and> f' = f + sum_list fees \<and>
    distinct (concat (map (\<lambda>ct. key_images (inputs (ct_transaction ct))) txs)) \<and>
    (\<Union>ct \<in> set txs. set (key_images (inputs (ct_transaction ct)))) \<inter> spentKeyImages st = {} \<and>
    spentKeyImages st' = spentKeyImages st \<union> (\<Union>ct \<in> set txs. set (key_images (inputs (ct_transaction ct)))) \<and>
    (\<not> isInCheckpointZone (ve_checkpoints env) (of_nat (b + 1)) \<longrightarrow>
       (\<forall>ct \<in> set txs. \<forall>i < length (inputs (ct_transaction ct)). input_authorized env ct cache b i))"
  using assms
proof (induction txs arbitrary: st f)
  case Nil
  then show ?case by simp
next
  case (Cons ct txs)
  then obtain fee st1 where 1: "validateTransaction env ct st cache b = Inr (fee, st1)"
    and 2: "validate_transactions env cache b txs st1 (f + fee) = Inr (f', st')" by (auto simp: bindE_eq_Inr)
  obtain fees where IH: "list_all2 (\<lambda>ct fee. validateSemantic (ve_checks env) (ct_transaction ct) = Inr fee) txs fees"
    "f' = f + fee + sum_list fees" "distinct (concat (map (\<lambda>ct. key_images (inputs (ct_transaction ct))) txs))"
    "(\<Union>ct \<in> set txs. set (key_images (inputs (ct_transaction ct)))) \<inter> spentKeyImages st1 = {}"
    "spentKeyImages st' = spentKeyImages st1 \<union> (\<Union>ct \<in> set txs. set (key_images (inputs (ct_transaction ct))))"
    "\<not> isInCheckpointZone (ve_checkpoints env) (of_nat (b + 1)) \<longrightarrow>
       (\<forall>ct \<in> set txs. \<forall>i < length (inputs (ct_transaction ct)). input_authorized env ct cache b i)"
    using Cons.IH [OF 2] by blast
  note r = validateTransaction_result [OF 1]
  have "distinct (key_images (inputs (ct_transaction ct)))" using r(1) by (simp add: validateSemantic_iff)
  then show ?case using IH r by (intro exI [of _ "fee # fees"]) (auto simp: add.assoc)
qed

text \<open>The offsets of a ring are added with wrap-around, so offsets that are not zero may name an output
  twice.\<close>

lemma ring_offsets_wrap:
  "relativeOutputOffsetsToAbsolute [5, 2147483648, 2147483648] = [5, 2147483653, 5]"
  by (simp add: relativeOutputOffsetsToAbsolute_def)

section \<open>Accepted blocks\<close>

lemma extract_loop_result:
  assumes "extract_loop c raws cts n = Some (cts', n')"
  shows "\<exists>new. cts' = cts @ new \<and> list_all2 (\<lambda>raw ct. CachedTransaction_of_blob raw = Inr ct) raws new \<and>
    n' = n + sum_list (map (\<lambda>raw. of_nat (length raw)) raws)"
  using assms
proof (induction raws arbitrary: cts n)
  case (Cons raw raws)
  then obtain ct where ct: "CachedTransaction_of_blob raw = Inr ct"
    and r: "extract_loop c raws (cts @ [ct]) (n + of_nat (length raw)) = Some (cts', n')"
    by (auto split: if_splits sum.splits)
  obtain new where "cts' = cts @ [ct] @ new" "list_all2 (\<lambda>raw ct. CachedTransaction_of_blob raw = Inr ct) raws new"
    "n' = n + of_nat (length raw) + sum_list (map (\<lambda>raw. of_nat (length raw)) raws)"
    using Cons.IH [OF r] by auto
  then show ?case using ct by (intro exI [of _ "ct # new"]) (simp add: add.assoc)
qed simp

lemma validate_base_result:
  assumes "validate_base env base index nextIndex = Inr reward"
  shows "inputs base = [BaseInput nextIndex]" "unlockTime base = ucast (nextIndex + m_minedMoneyUnlockWindow (ve_currency env))"
    "list_all (good_output (ve_checks env)) (outputs base)" "unat reward = nat_sum (map out_amount (outputs base))"
proof -
  obtain inp where i: "inputs base = [inp]" and b: "inp = BaseInput nextIndex"
    using assms by (auto simp: validate_base_def bindE_eq_Inr length_Suc_conv split: TransactionInput.splits)
  show "inputs base = [BaseInput nextIndex]" using i b by simp
  show "unlockTime base = ucast (nextIndex + m_minedMoneyUnlockWindow (ve_currency env))"
    using assms by (auto simp: validate_base_def bindE_eq_Inr)
  show "list_all (good_output (ve_checks env)) (outputs base)" "unat reward = nat_sum (map out_amount (outputs base))"
    using assms by (auto simp: validate_base_def bindE_eq_Inr semantic_outputs_iff split: sum.splits)
qed

lemma validateBlock_result:
  assumes "validateBlock env cb cache = Inr reward" "fst (getBlockIndex cb) = block_index_spec (cb_block cb)"
  shows "\<exists>b. cache_getBlockIndex (hd cache) (previousBlockHash (cb_block cb)) = Some b \<and>
    validate_base env (baseTransaction (cb_block cb)) (of_nat (b + 1)) (of_nat (b + 1)) = Inr reward \<and>
    majorVersion (cb_block cb) = getBlockMajorVersionForHeight (ve_currency env) (b + 1) \<and>
    timestamp (cb_block cb) \<le> ve_now env + blockFutureTimeLimit (ve_currency env) (of_nat (b + 1)) \<and>
    (let window = unat (timestampCheckWindow (ve_currency env) (of_nat (b + 1)));
         timestamps = getLastTimestamps window b True cache
     in window \<le> length timestamps \<longrightarrow> medianValue timestamps \<le> timestamp (cb_block cb))"
proof -
  obtain b index where b: "cache_getBlockIndex (hd cache) (previousBlockHash (cb_block cb)) = Some b"
    and i: "fst (getBlockIndex cb) = Inr index"
    and v: "validate_base env (baseTransaction (cb_block cb)) index (of_nat (b + 1)) = Inr reward"
    and m: "getBlockMajorVersion (upgradeDetectors (ve_currency env)) index = majorVersion (cb_block cb)"
    and t: "timestamp (cb_block cb) \<le> ve_now env + blockFutureTimeLimit (ve_currency env) (of_nat (b + 1))"
    and w: "let window = unat (timestampCheckWindow (ve_currency env) (of_nat (b + 1)));
         timestamps = getLastTimestamps window b True cache
     in window \<le> length timestamps \<longrightarrow> medianValue timestamps \<le> timestamp (cb_block cb)"
    using assms(1) unfolding validateBlock_def Let_def by (elim bindE_InrE) (simp add: not_less)
  have "index = of_nat (b + 1)"
    using i assms(2) validate_base_result(1) [OF v] by (simp add: block_index_spec_def)
  then show ?thesis using b v m t w by (auto simp: getBlockMajorVersionForHeight_def)
qed

text \<open>What holds of a block that passed all checks against the chain \<open>cache\<close>, whose first segment has the
  previous block at index \<open>ab_previous\<close>.\<close>

definition block_accepted :: "validation_env \<Rightarrow> chain \<Rightarrow> accepted_block \<Rightarrow> bool" where
  "block_accepted env cache ab \<longleftrightarrow>
     (let c = ve_currency env; b = ab_previous ab; block = cb_block (ab_block ab); base = baseTransaction block;
          txs = map ct_transaction (ab_transactions ab);
          median = medianValue (getLastBlocksSizes (unat (m_rewardBlocksWindow c)) b True cache)
      in cache_getBlockIndex (hd cache) (previousBlockHash block) = Some b \<and>
         majorVersion block = getBlockMajorVersionForHeight c (b + 1) \<and>
         inputs base = [BaseInput (of_nat (b + 1))] \<and>
         list_all2 (\<lambda>raw ct. CachedTransaction_of_blob raw = Inr ct) (rb_transactions (ab_raw ab)) (ab_transactions ab) \<and>
         getDifficultyForNextBlock c b cache = Some (ab_difficulty ab) \<and> ab_difficulty ab \<noteq> 0 \<and>
         spentKeyImages (ab_state ab) = set (concat (map (key_images \<circ> inputs) txs)) \<and>
         distinct (concat (map (key_images \<circ> inputs) txs)) \<and>
         (\<exists>coins fees reward. getAlreadyGeneratedCoins b cache = Some coins \<and>
            list_all2 (\<lambda>tx fee. validateSemantic (ve_checks env) tx = Inr fee) txs fees \<and>
            getBlockReward c (majorVersion block) median (ab_size ab) coins (sum_list fees) = Inr (reward, ab_emission ab) \<and>
            nat_sum (map out_amount (outputs base)) = unat reward) \<and>
         (\<not> isInCheckpointZone (ve_checkpoints env) (of_nat (b + 1)) \<longrightarrow>
            (\<forall>ct \<in> set (ab_transactions ab). \<forall>i < length (inputs (ct_transaction ct)). input_authorized env ct cache b i) \<and>
            (\<exists>genesis. cachedGenesisBlock c = Some genesis \<and>
               fst (checkProofOfWork (ve_slow env) genesis (ab_block ab) (ab_difficulty ab)) = Inr True)))"

lemma check_new_block_accepted:
  assumes "check_new_block env cb raw index h cache = Inr ab"
    "fst (getBlockIndex cb) = Inr index" "fst (getBlockIndex cb) = block_index_spec (cb_block cb)"
  shows "block_accepted env cache ab" "ab_block ab = cb" "ab_raw ab = raw" "index = of_nat (ab_previous ab + 1)"
proof -
  let ?c = "ve_currency env" and ?block = "cb_block cb"
  obtain cts size b maxSize minerReward d f st coins reward em where
    x: "extractTransactions ?c (rb_transactions raw) = Some (cts, size)"
    and b: "cache_getBlockIndex (hd cache) (previousBlockHash ?block) = Some b"
    and v: "validateBlock env cb cache = Inr minerReward"
    and d: "getDifficultyForNextBlock ?c b cache = Some d" "d \<noteq> 0"
    and t: "validate_transactions env cache b cts \<lparr> spentKeyImages = {} \<rparr> 0 = Inr (f, st)"
    and coins: "getAlreadyGeneratedCoins b cache = Some coins"
    and r: "getBlockReward ?c (majorVersion ?block) (medianValue (getLastBlocksSizes (unat (m_rewardBlocksWindow ?c)) b True cache))
       (snd (getObjectBinarySize (write_Transaction (baseTransaction ?block))) + size) coins f = Inr (reward, em)" "minerReward = reward"
    and w: "check_work env cb index h d = Inr ()"
    and ab: "ab = \<lparr> ab_block = cb, ab_transactions = cts, ab_state = st,
       ab_size = snd (getObjectBinarySize (write_Transaction (baseTransaction ?block))) + size, ab_emission = em, ab_difficulty = d,
       ab_raw = raw, ab_previous = b \<rparr>"
    using assms(1) unfolding check_new_block_def Let_def
    by (elim bindE_InrE) (auto split: option.splits sum.splits prod.splits reward_error.splits elim!: bindE_InrE)
  obtain vb: "validate_base env (baseTransaction ?block) (of_nat (b + 1)) (of_nat (b + 1)) = Inr minerReward"
    and mv: "majorVersion ?block = getBlockMajorVersionForHeight ?c (b + 1)"
    using validateBlock_result [OF v assms(3)] b by auto
  note base = validate_base_result [OF vb]
  have i: "index = of_nat (b + 1)" using assms(2,3) base(1) by (simp add: block_index_spec_def)
  obtain fees where fees: "list_all2 (\<lambda>ct fee. validateSemantic (ve_checks env) (ct_transaction ct) = Inr fee) cts fees"
    "f = sum_list fees" and imgs: "distinct (concat (map (\<lambda>ct. key_images (inputs (ct_transaction ct))) cts))"
    "spentKeyImages st = (\<Union>ct \<in> set cts. set (key_images (inputs (ct_transaction ct))))"
    and auth: "\<not> isInCheckpointZone (ve_checkpoints env) (of_nat (b + 1)) \<longrightarrow>
       (\<forall>ct \<in> set cts. \<forall>i < length (inputs (ct_transaction ct)). input_authorized env ct cache b i)"
    using validate_transactions_result [OF t] by auto
  have "list_all2 (\<lambda>raw ct. CachedTransaction_of_blob raw = Inr ct) (rb_transactions raw) cts"
    using x extract_loop_result [of ?c "rb_transactions raw" "[]" 0 cts size] by (auto simp: extractTransactions_def)
  moreover have "\<exists>genesis. cachedGenesisBlock ?c = Some genesis \<and> fst (checkProofOfWork (ve_slow env) genesis cb d) = Inr True"
    if "\<not> isInCheckpointZone (ve_checkpoints env) (of_nat (b + 1))"
    using w that unfolding i check_work_def by (auto simp: bindE_eq_Inr)
  moreover have "list_all2 (\<lambda>tx fee. validateSemantic (ve_checks env) tx = Inr fee) (map ct_transaction cts) fees"
    using fees(1) by (simp add: list_all2_map1)
  ultimately show "block_accepted env cache ab"
    unfolding block_accepted_def Let_def ab
    using b mv base d imgs coins r fees(2) auth by (auto simp: comp_def)
  show "ab_block ab = cb" "ab_raw ab = raw" "index = of_nat (ab_previous ab + 1)" using ab i by simp_all
qed

section \<open>Examples\<close>

text \<open>A network right after its start: the genesis block, and the first block on top of it.\<close>

definition sample_currency :: Currency where
  "sample_currency = mainnet_currency \<lparr> genesisBlockTemplate := genesis_block False,
     cachedGenesisBlock := Some (CachedBlock_init (genesis_block False)) \<rparr>"

definition sample_env :: validation_env where
  "sample_env = \<lparr> ve_currency = sample_currency, ve_checkpoints = [],
     ve_checks = \<lparr> check_key = \<lambda>_. True, scalarmultKey = \<lambda>_ _. key_image_I, checkRingSignature = \<lambda>_ _ _ _. True \<rparr>,
     ve_slow = \<lparr> cn_slow_hash_v0 = \<lambda>_. replicate 32 0, cn_lite_slow_hash_v1 = \<lambda>_. replicate 32 0,
                cn_turtle_lite_slow_hash_v2 = \<lambda>_. replicate 32 0 \<rparr>,
     ve_now = 1000 \<rparr>"

definition first_transaction :: Transaction where
  "first_transaction = genesis_transaction \<lparr> unlockTime := 21, inputs := [BaseInput 1],
     outputs := [\<lparr> out_amount = 47683714, out_target = out_target (outputs genesis_transaction ! 0) \<rparr>] \<rparr>"

definition first_block :: BlockTemplate where
  "first_block = genesis_block False \<lparr> baseTransaction := first_transaction,
     previousBlockHash := projr (block_hash_spec (genesis_block False)) \<rparr>"

definition first_bytes :: bytes where
  "first_bytes =
     [1, 21, 1, 255, 1, 1, 130, 177, 222, 22, 2, 155, 46, 76, 2, 129, 192, 176, 46, 124, 83, 41, 26, 148, 209, 208, 203, 255, 136,
      131, 248, 2, 79, 81, 66, 238, 73, 79, 251, 189, 8, 128, 113, 33, 1, 66, 105, 66, 50, 197, 176, 65, 81, 217, 228, 194, 125, 49,
      236, 122, 104, 234, 86, 139, 25, 72, 140, 252, 180, 34, 101, 154, 7, 160, 228, 77, 213]"

lemma first_blob: "fromBinaryArray read_Transaction first_bytes = Inr first_transaction" "length first_bytes = 77"
  by code_simp+

lemma first_transaction_wf: "wf_transaction first_transaction"
  using first_blob(1) transaction_codec.fromBinaryArray_iff by blast

lemma first_transaction_size: "snd (getObjectBinarySize (write_Transaction first_transaction)) = 77"
proof -
  have "write_Transaction first_transaction = Inr first_bytes"
    using first_blob(1) transaction_codec.fromBinaryArray_iff [of first_bytes first_transaction] write_Transaction_wf [of first_transaction]
    by simp
  then show ?thesis by (simp add: getObjectBinarySize_def toBinaryArray_def first_blob(2))
qed

lemma first_block_hash: "\<exists>h. block_hash_spec first_block = Inr h \<and> length h = 32"
  by (simp add: block_hash_spec_def hashing_spec_def first_block_def genesis_block_def value_initialized_block_def write_BlockHeader_def
      BLOCK_MAJOR_VERSION_1_def BLOCK_MAJOR_VERSION_2_def BLOCK_MAJOR_VERSION_5_def toBinaryArray_def BlockHeader.defs word_le_unat
      getObjectHash_blob_def getObjectHash_def getBinaryArrayHash_def)

lemma genesis_root:
  "\<exists>s h n. root_chain sample_currency = Some [s] \<and> chain_reachable sample_currency [s] \<and> block_hash_spec (genesis_block False) = Inr h \<and>
    length h = 32 \<and> bc_startIndex s = 0 \<and>
    bc_blockInfos s = [\<lparr> cbi_blockHash = h, cbi_timestamp = 0, cbi_cumulativeDifficulty = 1, cbi_alreadyGeneratedCoins = 2980232,
       cbi_alreadyGeneratedTransactions = 1, cbi_blockSize = n \<rparr>] \<and> (\<forall>a. length (flat_outs a [s]) \<le> 1)"
proof -
  let ?cb = "CachedBlock_init (genesis_block False)" and ?st = "\<lparr> spentKeyImages = {} \<rparr>"
  have g: "genesisBlockTemplate sample_currency = genesis_block False" by (simp add: sample_currency_def)
  obtain ch where ch: "root_chain sample_currency = Some ch" "chain_reachable sample_currency ch" "\<forall>a. length (flat_outs a ch) \<le> 1"
    using genesis_chain [OF g] by blast
  obtain h where fits: "block_fits ?cb [] ?st h [empty_segment 0]" using genesis_fits [OF g] g by auto
  have h: "block_hash_spec (genesis_block False) = Inr h"
    using fits block_hash_memo.get_spec [OF block_cache_ok_init [of id id id "genesis_block False"]]
    by (simp add: block_fits_def CachedBlock_init_def Let_def)
  have l: "length h = 32"
    using h by (auto simp: block_hash_spec_def hashing_spec_def genesis_block_def value_initialized_block_def write_BlockHeader_def
      BLOCK_MAJOR_VERSION_1_def BLOCK_MAJOR_VERSION_2_def BLOCK_MAJOR_VERSION_5_def toBinaryArray_def BlockHeader.defs word_le_unat
      getObjectHash_blob_def getObjectHash_def getBinaryArrayHash_def)
  have b: "baseTransaction (genesis_block False) = genesis_transaction" "timestamp (genesis_block False) = 0" by (simp_all add: genesis_block_def)
  have r: "foldl (+) 0 (map out_amount (outputs genesis_transaction)) = 2980232" by (simp add: genesis_transaction_def)
  obtain n raw where p: "doPushBlock ?cb [] ?st n 2980232 1 raw [empty_segment 0] = Some ch"
    using ch(1) unfolding root_chain_def g b(1) Let_def r by (auto split: sum.splits)
  obtain s where s: "ch = [s]" "chain_ok [s]" "pushed ?cb [] ?st h n 2980232 1 raw [empty_segment 0] [s]"
    using doPushBlock_result [OF empty_segment_ok _ fits, of n 2980232 1 raw] p by auto
  have "bc_blockInfos s = [next_info ?cb h 0 n 2980232 1 []]" using s(3) by (simp add: pushed_def empty_segment_def Let_def)
  moreover have "bc_startIndex s = 0" using s(2) by (simp add: segment_ok_def)
  ultimately show ?thesis
    using ch h l b(2) unfolding s(1)
    by (intro exI [of _ s] exI [of _ h] exI [of _ "ucast n"]) (simp add: next_info_def CachedBlock_init_def)
qed

lemma builder_sizes:
  assumes "CurrencyBuilder_init u = Inr c"
  shows "m_upgradeHeightV2 c = 1" "m_upgradeHeightV3 c = 2" "m_upgradeHeightV4 c = 3" "m_upgradeHeightV5 c = 4"
    "m_minedMoneyUnlockWindow c = 20" "m_maxBlockSizeInitial c = 100000" "m_maxBlockSizeGrowthSpeedNumerator c = 102400"
    "m_maxBlockSizeGrowthSpeedDenominator c = 350400" "m_rewardBlocksWindow c = CRYPTONOTE_REWARD_BLOCKS_WINDOW"
  using assms
  by (auto simp: builder_defs builder_constants Let_def word_less_unat UPGRADE_HEIGHT_V2_def UPGRADE_HEIGHT_V3_def
      UPGRADE_HEIGHT_V4_def UPGRADE_HEIGHT_V5_def CRYPTONOTE_MINED_MONEY_UNLOCK_WINDOW_def MAX_BLOCK_SIZE_INITIAL_def
      MAX_BLOCK_SIZE_GROWTH_SPEED_NUMERATOR_def MAX_BLOCK_SIZE_GROWTH_SPEED_DENOMINATOR_def)

lemma sample_fields:
  "m_upgradeHeightV2 sample_currency = 1" "m_upgradeHeightV3 sample_currency = 2" "m_upgradeHeightV4 sample_currency = 3"
  "m_upgradeHeightV5 sample_currency = 4" "m_minedMoneyUnlockWindow sample_currency = 20"
  "maxBlockCumulativeSize sample_currency 1 = Some 100000" "cachedGenesisBlock sample_currency = Some (CachedBlock_init (genesis_block False))"
  "m_emissionSpeedFactor sample_currency = 21" "m_moneySupply sample_currency = 100000000000000"
  using builder_sizes [OF mainnet_builder] mainnet_fields
  by (simp_all add: sample_currency_def maxBlockCumulativeSize_def)

lemma sample_version: "getBlockMajorVersion (upgradeDetectors sample_currency) 1 = BLOCK_MAJOR_VERSION_1"
  by (simp add: upgradeDetectors_def addMajorBlockVersion_def getBlockMajorVersion_def upgradeHeight_def sample_fields
      BLOCK_MAJOR_VERSION_2_def BLOCK_MAJOR_VERSION_3_def BLOCK_MAJOR_VERSION_4_def BLOCK_MAJOR_VERSION_5_def)

lemma sample_reward:
  "getBlockReward sample_currency BLOCK_MAJOR_VERSION_1 (ucast (n :: u32)) 77 2980232 0 = Inr (47683714, 47683714)"
proof -
  let ?z = "blockGrantedFullRewardZoneByBlockVersion sample_currency BLOCK_MAJOR_VERSION_1"
  have z: "?z = 10000"
    by (simp add: blockGrantedFullRewardZoneByBlockVersion_def BLOCK_MAJOR_VERSION_1_def BLOCK_MAJOR_VERSION_2_def BLOCK_MAJOR_VERSION_3_def
        CRYPTONOTE_BLOCK_GRANTED_FULL_REWARD_ZONE_V1_def word_le_unat)
  let ?m = "max (ucast n) 10000 :: u64"
  have "unat (ucast n :: u64) < 2 ^ 32" using unat_lt_32 [of n] by (simp add: unat_ucast_up)
  then have m: "unat ?m < 2 ^ 32" "10000 \<le> unat ?m" by (auto simp: max_def word_le_unat)
  then have "unat (2 * ?m) = 2 * unat ?m" by (subst unat_times_small) simp_all
  then have c: "\<not> 2 * ?m < 77" "77 \<le> ?m" using m by (simp_all add: word_less_unat word_le_unat)
  have v: "\<not> BLOCK_MAJOR_VERSION_2 \<le> BLOCK_MAJOR_VERSION_1" by (simp add: BLOCK_MAJOR_VERSION_1_def BLOCK_MAJOR_VERSION_2_def word_le_unat)
  have p: "getPenalizedAmount a ?m 77 = Some a" for a using c(2) by (auto simp: getPenalizedAmount_def)
  show ?thesis by (simp add: getBlockReward_def z Let_def sample_fields v p c(1))
qed

lemma first_fields:
  "previousBlockHash first_block = projr (block_hash_spec (genesis_block False))" "baseTransaction first_block = first_transaction"
  "majorVersion first_block = BLOCK_MAJOR_VERSION_1" "timestamp first_block = 0"
  "inputs first_transaction = [BaseInput 1]" "unlockTime first_transaction = 21" "signatures first_transaction = []"
  "map out_amount (outputs first_transaction) = [47683714]" "length (outputs first_transaction) = 1"
  by (simp_all add: first_block_def first_transaction_def genesis_block_def genesis_transaction_def)

definition first_accepted :: "RawBlock \<Rightarrow> accepted_block" where
  "first_accepted raw = \<lparr> ab_block = CachedBlock_init first_block, ab_transactions = [], ab_state = \<lparr> spentKeyImages = {} \<rparr>,
     ab_size = 77, ab_emission = 47683714, ab_difficulty = 1, ab_raw = raw, ab_previous = 0 \<rparr>"

lemma first_block_work:
  "fst (checkProofOfWork (ve_slow sample_env) (CachedBlock_init (genesis_block False)) (CachedBlock_init first_block) 1) = Inr True"
proof -
  let ?sh = "ve_slow sample_env"
  have cb: "cb_block (CachedBlock_init b) = b" for b by (simp add: CachedBlock_init_def)
  obtain path where path: "block_hash_spec (cb_block (CachedBlock_init (genesis_block False))) = Inr path"
    using genesis_hash [of False] by (auto simp: cb)
  obtain ba where "hashing_spec first_block = Inr ba"
    using first_block_hash by (cases "hashing_spec first_block") (auto simp: block_hash_spec_def)
  then have "pow_accepts ?sh path first_block 1"
    by (simp add: pow_accepts_def first_fields long_hash_spec_def sample_env_def le_nat_zeros)
  moreover have "hashes_sized ?sh" by (simp add: hashes_sized_def sample_env_def)
  ultimately show ?thesis
    using checkProofOfWork_exact [OF _ block_cache_ok_init block_cache_ok_init path, of ?sh first_block 1] by (auto simp: cb)
qed

lemma first_block_checks:
  assumes s: "bc_startIndex s = 0" "bc_blockInfos s = [info]" "block_hash_spec (genesis_block False) = Inr (cbi_blockHash info)"
    "cbi_timestamp info = 0" "cbi_alreadyGeneratedCoins info = 2980232" and raw: "rb_transactions raw = []"
  shows "check_new_block sample_env (CachedBlock_init first_block) raw 1 h [s] = Inr (first_accepted raw)"
proof -
  have cb [simp]: "cb_block (CachedBlock_init b) = b" for b by (simp add: CachedBlock_init_def)
  have env [simp]: "ve_currency sample_env = sample_currency" "ve_checkpoints sample_env = []" "check_key (ve_checks sample_env) = (\<lambda>_. True)"
    by (simp_all add: sample_env_def)
  have i: "fst (getBlockIndex (CachedBlock_init first_block)) = Inr 1" by (simp add: getBlockIndex_def CachedBlock_init_def first_fields)
  have b: "cache_getBlockIndex s (projr (block_hash_spec (genesis_block False))) = Some 0" using s by (simp add: cache_getBlockIndex_def)
  have last: "getLastUnits f True k 0 [s] = (if k = 0 then [] else [f info])" "getLastUnits f False k 0 [s] = []" for f k
    using s by (cases k; simp add: Let_def)+
  have v: "\<not> BLOCK_MAJOR_VERSION_2 \<le> BLOCK_MAJOR_VERSION_1" by (simp add: BLOCK_MAJOR_VERSION_1_def BLOCK_MAJOR_VERSION_2_def word_le_unat)
  have base: "validate_base sample_env first_transaction 1 1 = Inr 47683714"
    by (simp add: validate_base_def first_fields sample_fields TRANSACTION_SIGNATURE_COUNT_VALIDATION_HEIGHT_def semantic_outputs_iff)
      (simp add: first_transaction_def good_output_def)
  have vb: "validateBlock sample_env (CachedBlock_init first_block) [s] = Inr 47683714"
    using b i base by (simp add: validateBlock_def Let_def first_fields the_or_undefined_def liftE_def sample_version v getLastTimestamps_def last s medianValue_def
        del: getLastUnits.simps)
  have d: "getDifficultyForNextBlock sample_currency 0 [s] = Some 1"
    by (simp add: getDifficultyForNextBlock_def Let_def getLastTimestamps_def getLastCumulativeDifficulties_def last getNextDifficulty_def
        nextDifficulty_def LWMA_2_DIFFICULTY_BLOCK_INDEX_def LWMA_2_DIFFICULTY_BLOCK_INDEX_V2_def LWMA_2_DIFFICULTY_BLOCK_INDEX_V3_def
        LWMA_3_DIFFICULTY_BLOCK_INDEX_def del: getLastUnits.simps)
  obtain n where med: "medianValue (getLastBlocksSizes (unat (m_rewardBlocksWindow sample_currency)) 0 True [s]) = ucast (n :: u32)"
    by (cases "unat (m_rewardBlocksWindow sample_currency) = 0") (auto simp: getLastBlocksSizes_def last medianValue_def simp del: getLastUnits.simps intro: that [of 0] that)
  have hs: "check_transaction_hashes first_block 1 [] = Inr ()"
    by (simp add: check_transaction_hashes_def BLOCK_BLOB_SHUFFLE_CHECK_HEIGHT_def word_le_unat)
  have w: "check_work sample_env (CachedBlock_init first_block) 1 h 1 = Inr ()"
    using first_block_work by (simp add: check_work_def isInCheckpointZone_def sample_fields the_or_undefined_def liftE_def)
  show ?thesis
    using b i vb d med w s sample_reward [of n]
    by (simp add: check_new_block_def Let_def raw extractTransactions_def first_fields first_transaction_size the_or_undefined_def
        sample_fields hs check_mixins_def
        validate_mixin_transactions_def getAlreadyGeneratedCoins_def first_accepted_def)
qed

section \<open>Properties\<close>

text \<open>C0. The checks that need no chain accept a transaction with a fee exactly if it has inputs, all of them of
  the key type with a key image of prime order and a ring whose later offsets are not zero, no key image
  twice, outputs of positive amounts with keys on the curve, and if the inputs, whose sum stays below
  \<open>2 ^ 64\<close>, are the outputs plus the fee. No coin is created or lost and no sum wraps around.\<close>

theorem semantic_validation_exact:
  "validateSemantic sc tx = Inr fee \<longleftrightarrow>
     inputs tx \<noteq> [] \<and> list_all (good_output sc) (outputs tx) \<and> list_all (good_input sc) (inputs tx) \<and>
     distinct (key_images (inputs tx)) \<and> sum_list (map unat (key_amounts (inputs tx))) < 2 ^ 64 \<and>
     sum_list (map unat (key_amounts (inputs tx))) = sum_list (map unat (map out_amount (outputs tx))) + unat fee"
  by (rule validateSemantic_iff)

text \<open>C0. A block that passes all checks is sound for the chain it extends: it has the version and the index that
  follow its previous block, its transactions are the ones in the raw block, each of them keeps the
  amounts, no key image occurs twice in the block, the base transaction pays exactly the reward for
  the coins generated so far and the fees, and the difficulty is the one that the chain demands and not
  zero. Above the checkpoints each input is unspent and its ring has signed, and the proof of work was
  checked against that difficulty.\<close>

theorem accepted_block_sound:
  assumes "check_new_block env (CachedBlock_init block) raw index h cache = Inr ab"
    "fst (getBlockIndex (CachedBlock_init block)) = Inr index"
  shows "block_accepted env cache ab \<and> ab_block ab = CachedBlock_init block \<and> ab_raw ab = raw \<and> index = of_nat (ab_previous ab + 1)"
  using check_new_block_accepted [OF assms] block_index_memo.get_spec [OF block_cache_ok_init [of id id id block]]
  by (simp add: CachedBlock_init_def)

theorem accepted_block_sound_witness:
  "\<exists>s. root_chain sample_currency = Some [s] \<and>
     check_new_block sample_env (CachedBlock_init first_block) \<lparr> rb_block = [], rb_transactions = [] \<rparr> 1 [] [s] =
       Inr (first_accepted \<lparr> rb_block = [], rb_transactions = [] \<rparr>) \<and>
     block_accepted sample_env [s] (first_accepted \<lparr> rb_block = [], rb_transactions = [] \<rparr>)"
proof -
  obtain s h n where s: "root_chain sample_currency = Some [s]" "block_hash_spec (genesis_block False) = Inr h" "bc_startIndex s = 0"
    "bc_blockInfos s = [\<lparr> cbi_blockHash = h, cbi_timestamp = 0, cbi_cumulativeDifficulty = 1, cbi_alreadyGeneratedCoins = 2980232,
       cbi_alreadyGeneratedTransactions = 1, cbi_blockSize = n \<rparr>]"
    using genesis_root by blast
  have c: "check_new_block sample_env (CachedBlock_init first_block) \<lparr> rb_block = [], rb_transactions = [] \<rparr> 1 [] [s] =
      Inr (first_accepted \<lparr> rb_block = [], rb_transactions = [] \<rparr>)"
    by (rule first_block_checks [OF s(3,4)]) (simp_all add: s(2))
  have "fst (getBlockIndex (CachedBlock_init first_block)) = Inr 1" by (simp add: getBlockIndex_def CachedBlock_init_def first_fields)
  from accepted_block_sound [OF c this] c s(1) show ?thesis by blast
qed

text \<open>C0. A file with a line for each of some checkpoints with different indexes, in any order, is loaded
  completely: the loop ends, the new points are the old ones and those of the file, in the order of
  their indexes, and a block whose index has a point passes exactly with its hash.\<close>

theorem checkpoints_load_exactly:
  assumes "sorted_wrt (<) (map fst points)" "distinct (map fst (points @ cps))" "list_all (\<lambda>p. length (snd p) = 32) cps"
  shows "\<exists>points'. loadCheckpointsFromFile (Some (concat (map checkpoint_line cps))) points = Some (True, points') \<and>
    set points' = set points \<union> set cps \<and> sorted_wrt (<) (map fst points') \<and>
    (\<forall>i h. isInCheckpointZone points' i = (\<exists>p \<in> set points \<union> set cps. i \<le> fst p) \<and>
       checkBlock points' i h = (\<forall>h'. (i, h') \<in> set points \<union> set cps \<longrightarrow> h' = h))"
proof -
  obtain points' where p: "load_lines None (concat (map checkpoint_line cps)) points = Some (True, points')"
    "sorted_wrt (<) (map fst points')" "set points' = set points \<union> set cps"
    using load_lines_file [OF assms(1), of cps None] assms(2,3) by (auto simp: image_Un)
  have d: "distinct (map fst points')" using p(2) by (simp add: strict_sorted_iff)
  have "checkBlock points' i h = (\<forall>h'. (i, h') \<in> set points' \<longrightarrow> h' = h)" for i h
    using d by (auto simp: checkBlock_def map_of_eq_None_iff image_iff split: option.split)
      (metis map_of_is_SomeI option.inject)
  then show ?thesis using p zone_iff [OF p(2)] by (auto simp: loadCheckpointsFromFile_def)
qed

text \<open>C0. Loading ends for every file. Its result is undefined only if the number of the first line is out of
  range: the code then reads a variable that has no value yet.\<close>

theorem checkpoint_loading_returns:
  "loadCheckpointsFromFile file points = None \<longleftrightarrow>
     (\<exists>content indexString rest hash_str rest'. file = Some content \<and> getline 44 content = Some (indexString, rest) \<and>
        getline 10 rest = Some (hash_str, rest') \<and> stoull indexString = Inl OutOfRange)"
proof (cases "file")
  case (Some content)
  have "load_lines (Some i) c p \<noteq> None" for i c p by (rule load_lines_returns) simp
  then show ?thesis
    by (simp add: Some loadCheckpointsFromFile_def load_lines.simps [of None] del: not_None_eq
        split: option.split sum.split stoull_error.split bool.split prod.split)
qed (simp add: loadCheckpointsFromFile_def)

theorem checkpoints_load_exactly_witness:
  "\<exists>points'. loadCheckpointsFromFile (Some (concat (map checkpoint_line [(20, replicate 32 7), (5, replicate 32 9)]))) [] =
     Some (True, points') \<and> isInCheckpointZone points' 20 \<and> \<not> isInCheckpointZone points' 21 \<and> \<not> checkBlock points' 5 (replicate 32 7)"
  using checkpoints_load_exactly [of "[]" "[(20, replicate 32 7), (5, replicate 32 9)]"] by auto


end
