(* ===== verification/ChainCore.thy ===== *)
theory ChainCore
  imports Validation
begin

text \<open>The core of a node, \<open>src/src/cryptonote_core/core.cpp\<close>: the tree of chain segments, the pool of transactions
  and the copy of the main chain on disk. A segment is an object with a parent and children; its
  address is its place in the storage of segments. \<open>addBlock\<close> checks a block, pushes it on its segment,
  splits segments, switches to the chain with more work and brings the pool up to date. The segments
  are those of \<open>memory_blockchain_cache_factory.cpp\<close>; messages to observers are left out.

  The theory shows that the tree stays well formed under every block that is added, that the main chain
  is the one with the most work, and that the pool never holds a transaction that the main chain has
  spent already.\<close>

section \<open>Definitions\<close>

subsection \<open>The tree of segments\<close>

text \<open>The address of a segment is its place in \<open>chainsStorage\<close>.\<close>

record segment_node =
  sn_cache :: BlockchainCache
  sn_parent :: "nat option"
  sn_children :: "nat list"

record Core =
  chainsStorage :: "segment_node list"
  chainsLeaves :: "nat list"
  mainChainSet :: "nat set"
  core_pool :: CleanWrapper
  mainChainStorage :: "RawBlock list"
  blockMedianSize :: u64

text \<open>A segment and its parents, following \<open>getParent\<close> until it is null; a chain of parents has no more
  segments than the storage.\<close>

primrec parents_from :: "nat \<Rightarrow> segment_node list \<Rightarrow> nat \<Rightarrow> nat list" where
  "parents_from 0 st a = []"
| "parents_from (Suc n) st a = a # (case sn_parent (st ! a) of None \<Rightarrow> [] | Some p \<Rightarrow> parents_from n st p)"

definition segment_path :: "segment_node list \<Rightarrow> nat \<Rightarrow> nat list" where
  "segment_path st a = parents_from (length st) st a"

definition segment_chain :: "segment_node list \<Rightarrow> nat \<Rightarrow> chain" where
  "segment_chain st a = map (\<lambda>i. sn_cache (st ! i)) (segment_path st a)"

abbreviation main_leaf :: "Core \<Rightarrow> nat" where
  "main_leaf core \<equiv> hd (chainsLeaves core)"

abbreviation main_chain :: "Core \<Rightarrow> chain" where
  "main_chain core \<equiv> segment_chain (chainsStorage core) (main_leaf core)"

definition findIndexInChain :: "segment_node list \<Rightarrow> nat \<Rightarrow> hash \<Rightarrow> nat option" where
  "findIndexInChain st blockSegment blockHash = find (\<lambda>i. hasBlock (sn_cache (st ! i)) blockHash) (segment_path st blockSegment)"

definition findMainChainSegmentContainingBlock :: "Core \<Rightarrow> hash \<Rightarrow> nat option" where
  "findMainChainSegmentContainingBlock core blockHash = findIndexInChain (chainsStorage core) (main_leaf core) blockHash"

primrec first_found :: "('a \<Rightarrow> 'b option) \<Rightarrow> 'a list \<Rightarrow> 'b option" where
  "first_found f [] = None"
| "first_found f (x # xs) = (case f x of None \<Rightarrow> first_found f xs | Some y \<Rightarrow> Some y)"

definition findAlternativeSegmentContainingBlock :: "Core \<Rightarrow> hash \<Rightarrow> nat option" where
  "findAlternativeSegmentContainingBlock core blockHash =
     first_found (\<lambda>l. findIndexInChain (chainsStorage core) l blockHash) (tl (chainsLeaves core))"

definition findSegmentContainingBlock :: "Core \<Rightarrow> hash \<Rightarrow> nat option" where
  "findSegmentContainingBlock core blockHash =
     (case findMainChainSegmentContainingBlock core blockHash of
        Some a \<Rightarrow> Some a
      | None \<Rightarrow> findAlternativeSegmentContainingBlock core blockHash)"

definition updateMainChainSet :: "Core \<Rightarrow> Core" where
  "updateMainChainSet core = core \<lparr> mainChainSet := set (segment_path (chainsStorage core) (main_leaf core)) \<rparr>"

definition updateBlockMedianSize :: "validation_env \<Rightarrow> Core \<Rightarrow> Core" where
  "updateBlockMedianSize env core =
     (let c = ve_currency env; mainChain = main_chain core; top = getTopBlockIndex (hd mainChain);
          nextBlockGrantedFullRewardZone =
            blockGrantedFullRewardZoneByBlockVersion c (getBlockMajorVersion (upgradeDetectors c) (of_nat (top + 1)));
          lastBlockSizes = getLastBlocksSizes (unat (m_rewardBlocksWindow c)) top False mainChain
      in core \<lparr> blockMedianSize := max (medianValue lastBlockSizes) nextBlockGrantedFullRewardZone \<rparr>)"

text \<open>The segments as objects: a new block on one, a new child, and a split, whose upper part becomes a new
  segment that takes over the children.\<close>

definition push_node :: "accepted_block \<Rightarrow> nat \<Rightarrow> segment_node list \<Rightarrow> segment_node list option" where
  "push_node ab a st =
     (case doPushBlock (ab_block ab) (ab_transactions ab) (ab_state ab) (ab_size ab) (ab_emission ab) (ab_difficulty ab)
             (ab_raw ab) (segment_chain st a) of
        Some (s # _) \<Rightarrow> Some (st[a := (st ! a) \<lparr> sn_cache := s \<rparr>])
      | _ \<Rightarrow> None)"

definition fork_node :: "nat \<Rightarrow> nat \<Rightarrow> segment_node list \<Rightarrow> segment_node list" where
  "fork_node startIndex a st =
     st[a := (st ! a) \<lparr> sn_children := sn_children (st ! a) @ [length st] \<rparr>] @
     [\<lparr> sn_cache = empty_segment startIndex, sn_parent = Some a, sn_children = [] \<rparr>]"

definition fixChildrenParent :: "nat list \<Rightarrow> nat \<Rightarrow> segment_node list \<Rightarrow> segment_node list" where
  "fixChildrenParent children p st = fold (\<lambda>child st. st[child := (st ! child) \<lparr> sn_parent := Some p \<rparr>]) children st"

definition split_node :: "nat \<Rightarrow> nat \<Rightarrow> segment_node list \<Rightarrow> segment_node list" where
  "split_node splitBlockIndex a st =
     (let node = st ! a; (up, low) = split_segment splitBlockIndex (sn_cache node); new = length st in
      (fixChildrenParent (sn_children node) new st)[a := node \<lparr> sn_cache := low, sn_children := [new] \<rparr>] @
      [\<lparr> sn_cache = up, sn_parent = Some a, sn_children = sn_children node \<rparr>])"

subsection \<open>Transactions for the pool\<close>

definition getMaximumTransactionAllowedSize :: "u64 \<Rightarrow> Currency \<Rightarrow> u64" where
  "getMaximumTransactionAllowedSize blockSizeMedian c = blockSizeMedian * 2 - m_minerTxBlobReservedSize c"

definition extractSpentOutputs :: "CachedTransaction \<Rightarrow> TransactionValidatorState" where
  "extractSpentOutputs ct = \<lparr> spentKeyImages = set (key_images (inputs (ct_transaction ct))) \<rparr>"

text \<open>\<open>Inr None\<close> is a transaction that is not valid; a valid one gives its state.\<close>

definition isTransactionValidForPool :: "validation_env \<Rightarrow> CachedTransaction \<Rightarrow> Core \<Rightarrow> error_code + TransactionValidatorState option" where
  "isTransactionValidForPool env ct core =
     (let c = ve_currency env; tx = ct_transaction ct; top = getTopBlockIndex (hd (main_chain core)) in
      if isl (validate_mixin_transactions [tx] (of_nat top)) then Inr None
      else if of_nat (length (extra tx)) \<ge> MAX_EXTRA_SIZE_POOL then Inr None
      else case validateTransaction env ct \<lparr> spentKeyImages = {} \<rparr> (main_chain core) top of
             Inl Undefined \<Rightarrow> Inl Undefined
           | Inl _ \<Rightarrow> Inr None
           | Inr (fee, st) \<Rightarrow>
               bindE (liftE (fst (getTransactionBinaryArray ct))) (\<lambda>ba.
               let sz = of_nat (length ba) in
               if sz > getMaximumTransactionAllowedSize (blockMedianSize core) c then Inr None
               else let isFusion = (fee = 0 \<and> isFusionTransaction_sized c tx sz (of_nat top))
                    in if \<not> isFusion \<and> fee < m_mininumFee c then Inr None else Inr (Some st)))"

definition addTransactionToPool :: "validation_env \<Rightarrow> CachedTransaction \<Rightarrow> Core \<Rightarrow> error_code + bool \<times> Core" where
  "addTransactionToPool env ct core =
     bindE (liftE (fst (getTransactionHash ct))) (\<lambda>h.
     if checkIfTransactionPresent (transactionPool (core_pool core)) h then Inr (False, core)
     else bindE (isTransactionValidForPool env ct core) (\<lambda>r.
          case r of
            None \<Rightarrow> Inr (False, core)
          | Some st \<Rightarrow>
              bindE (liftE (clean_pushTransaction (ve_now env) ct st (core_pool core))) (\<lambda>(r, pool).
              Inr (r, core \<lparr> core_pool := pool \<rparr>))))"

definition addTransactionToPool_blob :: "validation_env \<Rightarrow> bytes \<Rightarrow> Core \<Rightarrow> error_code + bool \<times> Core" where
  "addTransactionToPool_blob env transactionBinaryArray core =
     (case fromBinaryArray read_Transaction transactionBinaryArray of
        Inl _ \<Rightarrow> Inr (False, core)
      | Inr tx \<Rightarrow> addTransactionToPool env (CachedTransaction_init tx) core)"

primrec actualize_loop :: "validation_env \<Rightarrow> hash list \<Rightarrow> Core \<Rightarrow> error_code + Core" where
  "actualize_loop env [] core = Inr core"
| "actualize_loop env (h # hs) core =
     bindE (the_or_undefined (pool_getTransaction (transactionPool (core_pool core)) h)) (\<lambda>tx.
     bindE (addTransactionToPool env tx (core \<lparr> core_pool := snd (clean_removeTransaction h (core_pool core)) \<rparr>)) (\<lambda>(_, core).
     actualize_loop env hs core))"

definition actualizePoolTransactions :: "validation_env \<Rightarrow> Core \<Rightarrow> error_code + Core" where
  "actualizePoolTransactions env core = actualize_loop env (getTransactionHashes (transactionPool (core_pool core))) core"

primrec actualize_lite_loop :: "validation_env \<Rightarrow> TransactionValidatorState \<Rightarrow> hash list \<Rightarrow> Core \<Rightarrow> error_code + Core" where
  "actualize_lite_loop env st [] core = Inr core"
| "actualize_lite_loop env st (h # hs) core =
     bindE (the_or_undefined (pool_getTransaction (transactionPool (core_pool core)) h)) (\<lambda>tx.
     bindE (if hasIntersections st (extractSpentOutputs tx) then Inr True
            else bindE (liftE (fst (getTransactionBinaryArray tx))) (\<lambda>ba.
                 Inr (of_nat (length ba) > getMaximumTransactionAllowedSize (blockMedianSize core) (ve_currency env)))) (\<lambda>stale.
     actualize_lite_loop env st hs
       (if stale then core \<lparr> core_pool := snd (clean_removeTransaction h (core_pool core)) \<rparr> else core)))"

definition actualizePoolTransactionsLite :: "validation_env \<Rightarrow> TransactionValidatorState \<Rightarrow> Core \<Rightarrow> error_code + Core" where
  "actualizePoolTransactionsLite env st core =
     actualize_lite_loop env st (getTransactionHashes (transactionPool (core_pool core))) core"

text \<open>The raw transactions of a segment without the base transactions, \<open>getRawTransactions\<close> of
  \<open>getTransactionHashes\<close>.\<close>

definition raw_transactions :: "BlockchainCache \<Rightarrow> bytes option list" where
  "raw_transactions s =
     map (\<lambda>t. let i = cti_blockIndex t - bc_startIndex s; k = unat (cti_transactionIndex t) - 1 in
              if i < length (bc_storage s) \<and> k < length (rb_transactions (bc_storage s ! i))
              then Some (rb_transactions (bc_storage s ! i) ! k) else None)
       (filter (\<lambda>t. cti_transactionIndex t \<noteq> 0) (bc_transactions s))"

primrec add_raw_loop :: "validation_env \<Rightarrow> bytes option list \<Rightarrow> Core \<Rightarrow> error_code + Core" where
  "add_raw_loop env [] core = Inr core"
| "add_raw_loop env (raw # raws) core =
     bindE (the_or_undefined raw) (\<lambda>raw.
     bindE (addTransactionToPool_blob env raw core) (\<lambda>(_, core).
     add_raw_loop env raws core))"

text \<open>The loop over an alternative chain, up to the main chain.\<close>

primrec copy_loop :: "validation_env \<Rightarrow> nat list \<Rightarrow> Core \<Rightarrow> error_code + Core" where
  "copy_loop env [] core = Inr core"
| "copy_loop env (a # as) core =
     (if a \<in> mainChainSet core then Inr core
      else bindE (add_raw_loop env (raw_transactions (sn_cache (chainsStorage core ! a))) core) (copy_loop env as))"

definition copyTransactionsToPool :: "validation_env \<Rightarrow> nat \<Rightarrow> Core \<Rightarrow> error_code + Core" where
  "copyTransactionsToPool env alt core = copy_loop env (segment_path (chainsStorage core) alt) core"

subsection \<open>Adding a block\<close>

primrec cache_getBlockByIndex :: "nat \<Rightarrow> chain \<Rightarrow> RawBlock option" where
  "cache_getBlockByIndex index [] = None"
| "cache_getBlockByIndex index (s # ps) =
     (if index < bc_startIndex s then cache_getBlockByIndex index ps
      else if index - bc_startIndex s < length (bc_storage s) then Some (bc_storage s ! (index - bc_startIndex s)) else None)"

definition switchMainChainStorage :: "nat \<Rightarrow> chain \<Rightarrow> RawBlock list \<Rightarrow> RawBlock list option" where
  "switchMainChainStorage splitBlockIndex newChain storage =
     (if length storage < splitBlockIndex then None
      else map_option (\<lambda>blocks. take splitBlockIndex storage @ blocks)
             (those (map (\<lambda>index. cache_getBlockByIndex index newChain) [splitBlockIndex..<getTopBlockIndex (hd newChain) + 1])))"

definition remove_included :: "CachedTransaction list \<Rightarrow> Core \<Rightarrow> error_code + Core" where
  "remove_included transactions core =
     (if list_ex (\<lambda>tx. isl (fst (getTransactionHash tx))) transactions then Inl Undefined
      else Inr (core \<lparr> core_pool := fold (\<lambda>tx pool. snd (clean_removeTransaction (projr (fst (getTransactionHash tx))) pool))
                       transactions (core_pool core) \<rparr>))"

text \<open>A block on top of the main chain.\<close>

definition add_to_main :: "validation_env \<Rightarrow> accepted_block \<Rightarrow> Core \<Rightarrow> error_code + AddBlockErrorCode \<times> Core" where
  "add_to_main env ab core =
     bindE (the_or_undefined (push_node ab (main_leaf core) (chainsStorage core))) (\<lambda>st.
     let core = updateBlockMedianSize env
                  (core \<lparr> chainsStorage := st, mainChainStorage := mainChainStorage core @ [ab_raw ab] \<rparr>) in
     bindE (remove_included (ab_transactions ab) core) (\<lambda>core.
     bindE (actualizePoolTransactionsLite env (ab_state ab) core) (\<lambda>core.
     Inr (ADDED_TO_MAIN, core))))"

text \<open>\<open>chainsLeaves\<close> after a swap of the first leaf with another.\<close>

definition swap_leaf :: "nat \<Rightarrow> nat list \<Rightarrow> nat list" where
  "swap_leaf a leaves =
     (case position (\<lambda>l. l = a) leaves of None \<Rightarrow> leaves | Some i \<Rightarrow> leaves[0 := leaves ! i, i := leaves ! 0])"

text \<open>A block on top of another leaf; the chain of greater cumulative difficulty becomes the main chain.\<close>

definition add_to_leaf :: "validation_env \<Rightarrow> accepted_block \<Rightarrow> nat \<Rightarrow> Core \<Rightarrow> error_code + AddBlockErrorCode \<times> Core" where
  "add_to_leaf env ab a core =
     bindE (the_or_undefined (push_node ab a (chainsStorage core))) (\<lambda>st.
     let core = core \<lparr> chainsStorage := st \<rparr>; old = main_leaf core;
         difficulty = (\<lambda>l. cbi_cumulativeDifficulty (last (bc_blockInfos (sn_cache (st ! l))))) in
     if difficulty a > difficulty old then
       let core = updateBlockMedianSize env (updateMainChainSet (core \<lparr> chainsLeaves := swap_leaf a (chainsLeaves core) \<rparr>)) in
       bindE (remove_included (ab_transactions ab) core) (\<lambda>core.
       bindE (actualizePoolTransactions env core) (\<lambda>core.
       bindE (copyTransactionsToPool env old core) (\<lambda>core.
       bindE (the_or_undefined (switchMainChainStorage (bc_startIndex (sn_cache (st ! a))) (main_chain core) (mainChainStorage core))) (\<lambda>storage.
       Inr (ADDED_TO_ALTERNATIVE_AND_SWITCHED, core \<lparr> mainChainStorage := storage \<rparr>)))))
     else Inr (ADDED_TO_ALTERNATIVE, core))"

text \<open>A block on top of a segment with children starts a new segment.\<close>

definition add_fork :: "validation_env \<Rightarrow> accepted_block \<Rightarrow> nat \<Rightarrow> Core \<Rightarrow> error_code + AddBlockErrorCode \<times> Core" where
  "add_fork env ab a core =
     (let st = fork_node (ab_previous ab + 1) a (chainsStorage core); new = length (chainsStorage core) in
      bindE (the_or_undefined (push_node ab new st)) (\<lambda>st.
      Inr (ADDED_TO_ALTERNATIVE,
           updateBlockMedianSize env (updateMainChainSet (core \<lparr> chainsStorage := st, chainsLeaves := chainsLeaves core @ [new] \<rparr>)))))"

text \<open>A block whose previous block is inside a segment: the segment is split first.\<close>

definition add_inside :: "validation_env \<Rightarrow> accepted_block \<Rightarrow> nat \<Rightarrow> Core \<Rightarrow> error_code + AddBlockErrorCode \<times> Core" where
  "add_inside env ab a core =
     (let upper = length (chainsStorage core);
          st = split_node (ab_previous ab + 1) a (chainsStorage core);
          leaves = (if sn_children (st ! upper) = [] then map (\<lambda>l. if l = a then upper else l) (chainsLeaves core)
                    else chainsLeaves core);
          st = fork_node (ab_previous ab + 1) a st; new = Suc upper in
      bindE (the_or_undefined (push_node ab new st)) (\<lambda>st.
      Inr (ADDED_TO_ALTERNATIVE, updateMainChainSet (core \<lparr> chainsStorage := st, chainsLeaves := leaves @ [new] \<rparr>))))"

definition insert_block :: "validation_env \<Rightarrow> accepted_block \<Rightarrow> nat \<Rightarrow> Core \<Rightarrow> error_code + AddBlockErrorCode \<times> Core" where
  "insert_block env ab a core =
     (let node = chainsStorage core ! a in
      if getTopBlockIndex (sn_cache node) = ab_previous ab then
        if sn_children node = [] then
          if a = main_leaf core then add_to_main env ab core else add_to_leaf env ab a core
        else add_fork env ab a core
      else add_inside env ab a core)"

text \<open>\<open>Inl\<close> leaves the core as it is.\<close>

definition addBlock :: "validation_env \<Rightarrow> CachedBlock \<Rightarrow> RawBlock \<Rightarrow> Core \<Rightarrow> error_code + AddBlockErrorCode \<times> Core" where
  "addBlock env cachedBlock rawBlock core =
     bindE (liftE (fst (getBlockIndex cachedBlock))) (\<lambda>blockIndex'.
     bindE (liftE (fst (getBlockHash cachedBlock))) (\<lambda>blockHash.
     bindE (guardE (findSegmentContainingBlock core blockHash = None) (AddBlockError ALREADY_EXISTS)) (\<lambda>_.
     case findSegmentContainingBlock core (previousBlockHash (cb_block cachedBlock)) of
       None \<Rightarrow> Inl (AddBlockError REJECTED_AS_ORPHANED)
     | Some a \<Rightarrow>
         bindE (check_new_block env cachedBlock rawBlock blockIndex' blockHash (segment_chain (chainsStorage core) a)) (\<lambda>ab.
         insert_block env ab a core))))"

text \<open>\<open>block0\<close> is the indeterminate value of the local block.\<close>

definition addBlock_raw :: "validation_env \<Rightarrow> BlockTemplate \<Rightarrow> RawBlock \<Rightarrow> Core \<Rightarrow> error_code + AddBlockErrorCode \<times> Core" where
  "addBlock_raw env block0 rawBlock core =
     (case fromBinaryArray (read_BlockTemplate block0) (rb_block rawBlock) of
        Inl _ \<Rightarrow> Inl (AddBlockError DESERIALIZATION_FAILED)
      | Inr block \<Rightarrow> addBlock env (CachedBlock_init block) rawBlock core)"

primrec pool_blobs :: "CleanWrapper \<Rightarrow> hash list \<Rightarrow> error_code + bytes list" where
  "pool_blobs pool [] = Inr []"
| "pool_blobs pool (h # hs) =
     bindE (guardE (checkIfTransactionPresent (transactionPool pool) h) (BlockError TRANSACTION_ABSENT_IN_POOL)) (\<lambda>_.
     bindE (the_or_undefined (pool_getTransaction (transactionPool pool) h)) (\<lambda>tx.
     bindE (liftE (fst (getTransactionBinaryArray tx))) (\<lambda>ba.
     bindE (pool_blobs pool hs) (\<lambda>bas. Inr (ba # bas)))))"

definition submitBlock :: "validation_env \<Rightarrow> BlockTemplate \<Rightarrow> bytes \<Rightarrow> Core \<Rightarrow> error_code + AddBlockErrorCode \<times> Core" where
  "submitBlock env block0 rawBlockTemplate core =
     (case fromBinaryArray (read_BlockTemplate block0) rawBlockTemplate of
        Inl _ \<Rightarrow> Inl (AddBlockError DESERIALIZATION_FAILED)
      | Inr block \<Rightarrow>
          bindE (pool_blobs (core_pool core) (transactionHashes block)) (\<lambda>bas.
          addBlock env (CachedBlock_init block) \<lparr> rb_block = rawBlockTemplate, rb_transactions = bas \<rparr> core))"

text \<open>The core of a node that starts with the genesis block, a storage that holds it, and an empty pool.\<close>

definition initRootSegment :: "validation_env \<Rightarrow> CleanWrapper \<Rightarrow> Core option" where
  "initRootSegment env pool =
     (case root_chain (ve_currency env) of
        Some [s] \<Rightarrow>
          Some (updateBlockMedianSize env
            \<lparr> chainsStorage = [\<lparr> sn_cache = s, sn_parent = None, sn_children = [] \<rparr>], chainsLeaves = [0], mainChainSet = {0},
              core_pool = pool, mainChainStorage = bc_storage s, blockMedianSize = 0 \<rparr>)
      | _ \<Rightarrow> None)"

text \<open>One round of the cleaning loop, \<open>transactionPoolCleaningProcedure\<close>.\<close>

definition clean_pool_step :: "(bytes \<Rightarrow> 'json option) \<Rightarrow> ('json \<Rightarrow> u64 option) \<Rightarrow> u64 \<Rightarrow> Core \<Rightarrow> (Core \<times> hash list) option" where
  "clean_pool_step json_parse json_t now core =
     map_option (\<lambda>(w, deleted). (core \<lparr> core_pool := w \<rparr>, deleted))
       (clean json_parse json_t now (of_nat (getTopBlockIndex (hd (main_chain core)))) (core_pool core))"

section \<open>Paths to the root\<close>

inductive is_path :: "segment_node list \<Rightarrow> nat \<Rightarrow> nat list \<Rightarrow> bool" for st where
  root: "is_path st a [a]" if "a < length st" "sn_parent (st ! a) = None"
| step: "is_path st a (a # ps)" if "a < length st" "sn_parent (st ! a) = Some p" "is_path st p ps"

lemma is_path_iff:
  "is_path st a ps \<longleftrightarrow> a < length st \<and>
     (case sn_parent (st ! a) of None \<Rightarrow> ps = [a] | Some p \<Rightarrow> \<exists>qs. ps = a # qs \<and> is_path st p qs)"
  by (subst is_path.simps) (auto split: option.split)

lemma is_path_det: "is_path st a ps \<Longrightarrow> is_path st a qs \<Longrightarrow> ps = qs"
proof (induction arbitrary: qs rule: is_path.induct)
  case (root a)
  then show ?case by (simp add: is_path_iff [of st a qs])
next
  case (step a p ps)
  then obtain qs' where "qs = a # qs'" "is_path st p qs'" by (auto simp: is_path_iff [of st a qs])
  then show ?case using step.IH by simp
qed

lemma is_path_Cons: "is_path st a ps \<Longrightarrow> \<exists>qs. ps = a # qs"
  by (auto simp: is_path_iff [of st a ps] split: option.splits)

lemma is_path_suffix: "is_path st a (xs @ b # ys) \<Longrightarrow> is_path st b (b # ys)"
proof (induction xs arbitrary: a)
  case Nil
  then show ?case using is_path_Cons [OF Nil] by simp
next
  case (Cons x xs)
  from Cons.prems obtain p where "is_path st p (xs @ b # ys)"
    by (cases xs) (auto simp: is_path_iff [of st a] split: option.splits)
  then show ?case by (rule Cons.IH)
qed

lemma is_path_valid: "is_path st a ps \<Longrightarrow> set ps \<subseteq> {..<length st}"
  by (induction rule: is_path.induct) auto

lemma is_path_distinct: "is_path st a ps \<Longrightarrow> distinct ps"
proof (induction rule: is_path.induct)
  case (step a p ps)
  have "a \<notin> set ps"
  proof
    assume "a \<in> set ps"
    then obtain xs ys where ps: "ps = xs @ a # ys" by (auto simp: in_set_conv_decomp)
    have "is_path st a (a # ys)" using step.hyps(3) is_path_suffix unfolding ps by blast
    then show False using is_path_det [OF is_path.step [OF step.hyps]] ps by fastforce
  qed
  then show ?case using step.IH by simp
qed simp

lemma is_path_length: "is_path st a ps \<Longrightarrow> length ps \<le> length st"
  using is_path_valid [of st a ps] is_path_distinct [of st a ps]
  by (metis card_lessThan card_mono distinct_card finite_lessThan)

lemma parents_from_path: "is_path st a ps \<Longrightarrow> length ps \<le> n \<Longrightarrow> parents_from n st a = ps"
proof (induction arbitrary: n rule: is_path.induct)
  case (root a)
  then show ?case by (cases n) auto
next
  case (step a p ps)
  then show ?case by (cases n) auto
qed

lemma segment_path_eq: "is_path st a ps \<Longrightarrow> segment_path st a = ps"
  unfolding segment_path_def using parents_from_path is_path_length by blast

lemma segment_chain_eq: "is_path st a ps \<Longrightarrow> segment_chain st a = map (\<lambda>i. sn_cache (st ! i)) ps"
  by (simp add: segment_chain_def segment_path_eq)

text \<open>A segment without children is on no other path.\<close>

lemma is_path_child:
  assumes "is_path st b ps" "a \<in> set ps" "a \<noteq> b"
  shows "\<exists>c. c < length st \<and> sn_parent (st ! c) = Some a"
  using assms
proof (induction rule: is_path.induct)
  case (step b p ps)
  then show ?case by (cases "a = p") auto
qed simp

text \<open>Changes off a path leave it.\<close>

lemma is_path_cong:
  assumes "is_path st a ps" "length st \<le> length st'" "\<And>i. i \<in> set ps \<Longrightarrow> sn_parent (st' ! i) = sn_parent (st ! i)"
  shows "is_path st' a ps"
  using assms
proof (induction rule: is_path.induct)
  case (root a)
  then show ?case by (intro is_path.root) auto
next
  case (step a p ps)
  then show ?case by (intro is_path.step [where p = p]) auto
qed

section \<open>Trees of segments\<close>

abbreviation caches :: "segment_node list \<Rightarrow> nat list \<Rightarrow> chain" where
  "caches st ps \<equiv> map (\<lambda>i. sn_cache (st ! i)) ps"

text \<open>Each segment has a path to the root whose chain is well formed, and the children are those that
  have the segment as parent.\<close>

definition tree_ok :: "segment_node list \<Rightarrow> bool" where
  "tree_ok st \<longleftrightarrow>
     (\<forall>a < length st. \<exists>ps. is_path st a ps \<and> chain_ok (caches st ps)) \<and>
     (\<forall>a < length st. \<forall>c. c \<in> set (sn_children (st ! a)) \<longleftrightarrow> c < length st \<and> sn_parent (st ! c) = Some a)"

lemma tree_path:
  assumes "tree_ok st" "a < length st"
  shows "is_path st a (segment_path st a)" "chain_ok (segment_chain st a)" "\<exists>ps. segment_path st a = a # ps"
    "\<exists>ch. segment_chain st a = sn_cache (st ! a) # ch"
proof -
  obtain ps where ps: "is_path st a ps" "chain_ok (caches st ps)" using assms unfolding tree_ok_def by blast
  show "is_path st a (segment_path st a)" "chain_ok (segment_chain st a)" using ps by (simp_all add: segment_path_eq segment_chain_eq)
  show "\<exists>ps. segment_path st a = a # ps" using is_path_Cons [OF ps(1)] by (simp add: segment_path_eq [OF ps(1)])
  then show "\<exists>ch. segment_chain st a = sn_cache (st ! a) # ch" by (auto simp: segment_chain_def)
qed

lemma tree_children:
  assumes "tree_ok st" "a < length st"
  shows "c \<in> set (sn_children (st ! a)) \<longleftrightarrow> c < length st \<and> sn_parent (st ! c) = Some a"
  using assms unfolding tree_ok_def by blast

text \<open>Enough for a changed tree: paths whose chains are well formed.\<close>

lemma tree_okI:
  assumes "\<And>a. a < length st \<Longrightarrow> is_path st a (p a) \<and> chain_ok (caches st (p a))"
    "\<And>a c. a < length st \<Longrightarrow> c \<in> set (sn_children (st ! a)) \<longleftrightarrow> c < length st \<and> sn_parent (st ! c) = Some a"
  shows "tree_ok st"
  unfolding tree_ok_def
proof (intro conjI allI impI)
  fix a assume "a < length st"
  then show "\<exists>ps. is_path st a ps \<and> chain_ok (caches st ps)" by (intro exI [of _ "p a"]) (rule assms(1))
qed (rule assms(2))

lemma leaf_off_path:
  assumes "tree_ok st" "a < length st" "sn_children (st ! a) = []" "is_path st b ps" "b \<noteq> a"
  shows "a \<notin> set ps"
proof
  assume "a \<in> set ps"
  then obtain c where "c < length st" "sn_parent (st ! c) = Some a" using is_path_child [OF assms(4)] assms(5) by blast
  then have "c \<in> set (sn_children (st ! a))" using tree_children [OF assms(1,2)] by blast
  then show False by (simp add: assms(3))
qed

lemma push_tree:
  assumes t: "tree_ok st" and a: "a < length st" "sn_children (st ! a) = []"
    and ok: "chain_ok (s # tl (segment_chain st a))"
  defines "st' \<equiv> st[a := (st ! a) \<lparr> sn_cache := s \<rparr>]"
  shows "tree_ok st'" "segment_chain st' a = s # tl (segment_chain st a)"
    "\<And>b. b < length st \<Longrightarrow> b \<noteq> a \<Longrightarrow> segment_chain st' b = segment_chain st b"
    "\<And>b. b < length st \<Longrightarrow> segment_path st' b = segment_path st b"
proof -
  have par: "sn_parent (st' ! i) = sn_parent (st ! i)" "sn_children (st' ! i) = sn_children (st ! i)" for i
    using a(1) by (cases "i = a"; simp add: st'_def)+
  have len: "length st' = length st" by (simp add: st'_def)
  have p: "is_path st' b (segment_path st b)" if "b < length st" for b
    using tree_path(1) [OF t that] by (rule is_path_cong) (simp_all add: len par)
  show path: "segment_path st' b = segment_path st b" if "b < length st" for b by (rule segment_path_eq [OF p [OF that]])
  have other: "st' ! i = st ! i" if "i \<noteq> a" for i using that by (simp add: st'_def)
  have same: "caches st' (segment_path st b) = segment_chain st b" if "b < length st" "b \<noteq> a" for b
    unfolding segment_chain_def
    by (rule map_cong [OF refl]) (use leaf_off_path [OF t a tree_path(1) [OF t that(1)] that(2)] other in metis)
  obtain ps where ps: "segment_path st a = a # ps" using tree_path(3) [OF t a(1)] by blast
  have "a \<notin> set ps" using is_path_distinct [OF tree_path(1) [OF t a(1)]] ps by simp
  then have "caches st' ps = caches st ps" by (intro map_cong [OF refl]) (use other in metis)
  then have own: "caches st' (segment_path st a) = s # tl (segment_chain st a)"
    using a(1) unfolding segment_chain_def ps by (simp add: st'_def)
  show "segment_chain st' a = s # tl (segment_chain st a)" using own by (simp add: segment_chain_def path a(1))
  show "segment_chain st' b = segment_chain st b" if "b < length st" "b \<noteq> a" for b
    using same [OF that] by (simp add: segment_chain_def path that(1))
  show "tree_ok st'"
  proof (rule tree_okI [of _ "segment_path st"])
    fix b assume "b < length st'"
    then show "is_path st' b (segment_path st b) \<and> chain_ok (caches st' (segment_path st b))"
      using p own ok same tree_path(2) [OF t, of b] len by (cases "b = a") simp_all
  next
    fix b c assume "b < length st'"
    then show "c \<in> set (sn_children (st' ! b)) \<longleftrightarrow> c < length st' \<and> sn_parent (st' ! c) = Some b"
      using tree_children [OF t, of b c] by (simp add: len par)
  qed
qed

lemma fork_paths:
  fixes s :: BlockchainCache
  assumes t: "tree_ok st" and a: "a < length st"
  defines "st' \<equiv> st[a := (st ! a) \<lparr> sn_children := sn_children (st ! a) @ [length st] \<rparr>] @
    [\<lparr> sn_cache = s, sn_parent = Some a, sn_children = [] \<rparr>]"
  shows "segment_chain st' (length st) = s # segment_chain st a"
    "\<And>b. b < length st \<Longrightarrow> segment_chain st' b = segment_chain st b"
    "\<And>b. b < length st \<Longrightarrow> segment_path st' b = segment_path st b"
    "\<And>b. b < length st \<Longrightarrow> is_path st' b (segment_path st b)" "is_path st' (length st) (length st # segment_path st a)"
proof -
  have len: "length st' = Suc (length st)" by (simp add: st'_def)
  have old: "sn_parent (st' ! i) = sn_parent (st ! i)" "sn_cache (st' ! i) = sn_cache (st ! i)" if "i < length st" for i
    using that a by (simp_all add: st'_def nth_append nth_list_update)
  have new: "st' ! length st = \<lparr> sn_cache = s, sn_parent = Some a, sn_children = [] \<rparr>" by (simp add: st'_def nth_append)
  have val: "i < length st" if "b < length st" "i \<in> set (segment_path st b)" for b i
    using is_path_valid [OF tree_path(1) [OF t that(1)]] that(2) by auto
  show p: "is_path st' b (segment_path st b)" if "b < length st" for b
    using tree_path(1) [OF t that] by (rule is_path_cong) (use val [OF that] in \<open>simp_all add: len old\<close>)
  show path: "segment_path st' b = segment_path st b" if "b < length st" for b by (rule segment_path_eq [OF p [OF that]])
  have c: "caches st' (segment_path st b) = segment_chain st b" if "b < length st" for b
    using val [OF that] unfolding segment_chain_def by (simp add: old)
  show "segment_chain st' b = segment_chain st b" if "b < length st" for b using c [OF that] by (simp add: segment_chain_def path that)
  show pn: "is_path st' (length st) (length st # segment_path st a)"
    using p [OF a] by (rule is_path.step [where p = a, rotated 2]) (simp_all add: len new)
  show "segment_chain st' (length st) = s # segment_chain st a"
    using c [OF a] by (simp add: segment_chain_eq [OF pn] new)
qed

lemma fork_tree:
  assumes t: "tree_ok st" and a: "a < length st" and ok: "chain_ok (s # segment_chain st a)"
  shows "tree_ok (st[a := (st ! a) \<lparr> sn_children := sn_children (st ! a) @ [length st] \<rparr>] @
    [\<lparr> sn_cache = s, sn_parent = Some a, sn_children = [] \<rparr>])" (is "tree_ok ?st'")
proof -
  note fork = fork_paths [where s = s, OF t a]
  have len: "length ?st' = Suc (length st)" by simp
  have old: "sn_parent (?st' ! i) = sn_parent (st ! i)"
    "sn_children (?st' ! i) = sn_children (st ! i) @ (if i = a then [length st] else [])" if "i < length st" for i
    using that a by (simp_all add: nth_append nth_list_update)
  have new: "?st' ! length st = \<lparr> sn_cache = s, sn_parent = Some a, sn_children = [] \<rparr>" by (simp add: nth_append)
  show ?thesis
  proof (rule tree_okI [of _ "segment_path ?st'"])
    fix b assume "b < length ?st'"
    then consider "b = length st" | "b < length st" using len by linarith
    then show "is_path ?st' b (segment_path ?st' b) \<and> chain_ok (caches ?st' (segment_path ?st' b))"
      unfolding segment_chain_def [symmetric]
      by cases (use fork ok segment_path_eq [OF fork(5)] tree_path(2) [OF t, of b] in simp_all)
  next
    fix b c assume b: "b < length ?st'"
    show "c \<in> set (sn_children (?st' ! b)) \<longleftrightarrow> c < length ?st' \<and> sn_parent (?st' ! c) = Some b"
    proof (cases "b = length st")
      case True
      have "sn_parent (st ! c) \<noteq> Some (length st)" if "c < length st" for c
        using tree_path(1) [OF t that] by (auto simp: is_path_iff [of st c] is_path_iff [of st "length st"])
      then show ?thesis unfolding len using True new a old by (auto simp: less_Suc_eq)
    next
      case False
      then have "b < length st" using b len by linarith
      then show ?thesis unfolding len using tree_children [OF t, of b c] new old by (auto simp: less_Suc_eq)
    qed
  qed
qed

lemma fixChildrenParent_nth:
  "length (fixChildrenParent cs p st) = length st"
  "i < length st \<Longrightarrow> fixChildrenParent cs p st ! i = (if i \<in> set cs then (st ! i) \<lparr> sn_parent := Some p \<rparr> else st ! i)"
proof -
  have upd: "i < length st \<Longrightarrow> st[c := x] ! i = (if c = i then x else st ! i)" for st :: "segment_node list" and c x i by auto
  show "length (fixChildrenParent cs p st) = length st"
    "i < length st \<Longrightarrow> fixChildrenParent cs p st ! i = (if i \<in> set cs then (st ! i) \<lparr> sn_parent := Some p \<rparr> else st ! i)"
    unfolding fixChildrenParent_def by (induction cs arbitrary: st) (auto simp: upd)
qed

text \<open>The path of a segment above the split passes the new upper part.\<close>

definition via :: "nat \<Rightarrow> nat \<Rightarrow> nat list \<Rightarrow> nat list" where
  "via a n ps = concat (map (\<lambda>i. if i = a then [n, a] else [i]) ps)"

lemma via_simps [simp]:
  "via a n [] = []" "via a n (i # ps) = (if i = a then n # a # via a n ps else i # via a n ps)"
  "via a n (xs @ ys) = via a n xs @ via a n ys"
  by (simp_all add: via_def)

lemma via_off [simp]: "a \<notin> set ps \<Longrightarrow> via a n ps = ps"
  by (induction ps) auto

lemma split_nodes:
  assumes t: "tree_ok st" and a: "a < length st" and sp: "split_segment k (sn_cache (st ! a)) = (up, low)"
  defines "st' \<equiv> split_node k a st"
  shows "length st' = Suc (length st)"
    "st' ! a = (st ! a) \<lparr> sn_cache := low, sn_children := [length st] \<rparr>"
    "st' ! length st = \<lparr> sn_cache = up, sn_parent = Some a, sn_children = sn_children (st ! a) \<rparr>"
    "\<And>i. i < length st \<Longrightarrow> i \<noteq> a \<Longrightarrow> st' ! i = (if i \<in> set (sn_children (st ! a)) then (st ! i) \<lparr> sn_parent := Some (length st) \<rparr> else st ! i)"
  using a by (simp_all add: st'_def split_node_def sp Let_def fixChildrenParent_nth nth_append nth_list_update)

lemma no_own_child:
  assumes "is_path st a ps"
  shows "i \<in> set ps \<Longrightarrow> sn_parent (st ! i) \<noteq> Some a"
proof
  assume i: "i \<in> set ps" and par: "sn_parent (st ! i) = Some a"
  then obtain xs ys where ps: "ps = xs @ i # ys" by (auto simp: in_set_conv_decomp)
  then have "is_path st i (i # ys)" using assms is_path_suffix by blast
  then have "is_path st a ys" using par by (auto simp: is_path_iff [of st i])
  then show False using is_path_det [OF assms] ps by fastforce
qed

lemma split_path:
  assumes t: "tree_ok st" and a: "a < length st" and sp: "split_segment k (sn_cache (st ! a)) = (up, low)" and b: "is_path st b ps"
  shows "is_path (split_node k a st) b (if b = a then ps else via a (length st) ps)"
  using b
proof (induction rule: is_path.induct)
  case (root b)
  note n = split_nodes [OF t a sp]
  have "b \<notin> set (sn_children (st ! a))" using tree_children [OF t a] root by simp
  then show ?case using root n by (auto intro!: is_path.root)
next
  case (step b p ps)
  note n = split_nodes [OF t a sp]
  have bp: "is_path st b (b # ps)" using step.hyps by (rule is_path.step)
  have nb: "b \<notin> set ps" using is_path_distinct [OF bp] by simp
  have pa: "p \<noteq> b" using is_path_Cons [OF step.hyps(3)] nb by auto
  show ?case
  proof (cases "b = a")
    case True
    then have "is_path (split_node k a st) p ps" using step.IH pa nb by simp
    then show ?thesis using True step.hyps n by (auto intro!: is_path.step [where p = p])
  next
    case False
    show ?thesis
    proof (cases "p = a")
      case True
      then have c: "b \<in> set (sn_children (st ! a))" using tree_children [OF t a] step.hyps by simp
      obtain qs where qs: "ps = a # qs" using is_path_Cons [OF step.hyps(3)] True by auto
      have "a \<notin> set qs" using is_path_distinct [OF step.hyps(3)] qs by simp
      moreover have "is_path (split_node k a st) (length st) (length st # ps)"
        using step.IH True n by (auto intro!: is_path.step [where p = a])
      ultimately show ?thesis
        using False c n step.hyps(1) by (auto simp: qs intro!: is_path.step [where p = "length st"])
    next
      case neq: False
      then have "b \<notin> set (sn_children (st ! a))" using tree_children [OF t a] step.hyps by simp
      then show ?thesis using False neq step.IH step.hyps n by (auto intro!: is_path.step [where p = p])
    qed
  qed
qed

lemma split_tree:
  assumes t: "tree_ok st" and a: "a < length st" and sp: "split_segment k (sn_cache (st ! a)) = (up, low)"
    and k: "bc_startIndex (sn_cache (st ! a)) < k" "k < bc_startIndex (sn_cache (st ! a)) + length (bc_blockInfos (sn_cache (st ! a)))"
  defines "st' \<equiv> split_node k a st"
  shows "tree_ok st'" "segment_chain st' a = low # tl (segment_chain st a)"
    "segment_chain st' (length st) = up # low # tl (segment_chain st a)" "same_flat (segment_chain st a) (segment_chain st' (length st))"
    "\<And>b. b < length st \<Longrightarrow> b \<noteq> a \<Longrightarrow> same_flat (segment_chain st b) (segment_chain st' b)"
    "\<And>b. b < length st \<Longrightarrow> b \<noteq> a \<Longrightarrow> segment_path st' b = via a (length st) (segment_path st b)"
    "segment_path st' (length st) = length st # segment_path st a"
proof -
  note n = split_nodes [OF t a sp, folded st'_def]
  obtain ps where ps: "segment_path st a = a # ps" using tree_path(3) [OF t a] by blast
  have pa: "is_path st a (a # ps)" using tree_path(1) [OF t a] ps by simp
  have nps: "a \<notin> set ps" using is_path_distinct [OF pa] by simp
  have val: "i < length st" if "is_path st b qs" "i \<in> set qs" for b qs i using is_path_valid [OF that(1)] that(2) by auto
  have cache: "sn_cache (st' ! i) = sn_cache (st ! i)" if "i < length st" "i \<noteq> a" for i using n(4) [OF that] by simp
  have off: "caches st' qs = caches st qs" if "is_path st b qs'" "set qs \<subseteq> set qs'" "a \<notin> set qs" for b qs qs'
    by (rule map_cong [OF refl]) (use that val [OF that(1)] cache in blast)
  have ch: "segment_chain st a = sn_cache (st ! a) # caches st ps" by (simp add: segment_chain_def ps)
  have ok: "chain_ok (sn_cache (st ! a) # caches st ps)" using tree_path(2) [OF t a] ch by simp
  have "is_path st' a (a # ps)" using split_path [OF t a sp pa] by (simp add: st'_def)
  note path_a = this
  have own: "caches st' (a # ps) = low # caches st ps" using off [OF pa _ nps] n(2) by auto
  show "segment_chain st' a = low # tl (segment_chain st a)" using own by (simp add: segment_chain_eq [OF path_a] ch)
  have path_n: "is_path st' (length st) (length st # a # ps)"
    by (rule is_path.step [where p = a]) (use path_a n(1,3) in simp_all)
  show "segment_path st' (length st) = length st # segment_path st a" using segment_path_eq [OF path_n] ps by simp
  have new: "caches st' (length st # a # ps) = up # low # caches st ps" using own n(3) by simp
  show cn: "segment_chain st' (length st) = up # low # tl (segment_chain st a)" using new by (simp add: segment_chain_eq [OF path_n] ch)
  have flat: "same_flat (xs @ sn_cache (st ! a) # caches st ps) (xs @ up # low # caches st ps) \<and> chain_ok (xs @ up # low # caches st ps)"
    if "chain_ok (xs @ sn_cache (st ! a) # caches st ps)" for xs
    by (rule split_same_flat [OF sp that k])
  show "same_flat (segment_chain st a) (segment_chain st' (length st))" using flat [of "[]"] ok cn ch by simp
  have path: "is_path st' b (via a (length st) (segment_path st b))" if "b < length st" "b \<noteq> a" for b
    using split_path [OF t a sp tree_path(1) [OF t that(1)]] that(2) by (simp add: st'_def)
  then show "segment_path st' b = via a (length st) (segment_path st b)" if "b < length st" "b \<noteq> a" for b
    using that segment_path_eq by blast
  have other: "same_flat (segment_chain st b) (caches st' (via a (length st) (segment_path st b))) \<and>
      chain_ok (caches st' (via a (length st) (segment_path st b)))" if b: "b < length st" "b \<noteq> a" for b
  proof (cases "a \<in> set (segment_path st b)")
    case False
    then have "caches st' (via a (length st) (segment_path st b)) = segment_chain st b"
      using off [OF tree_path(1) [OF t b(1)] order.refl] by (simp add: segment_chain_def)
    then show ?thesis using tree_path(2) [OF t b(1)] by (simp add: same_flat_def)
  next
    case True
    then obtain xs ys where xs: "segment_path st b = xs @ a # ys" by (auto simp: in_set_conv_decomp)
    have pb: "is_path st b (xs @ a # ys)" using tree_path(1) [OF t b(1)] xs by simp
    then have ys: "ys = ps" using is_path_suffix is_path_det [OF pa] by blast
    have nx: "a \<notin> set xs" using is_path_distinct [OF pb] by simp
    have "caches st' (via a (length st) (segment_path st b)) = caches st xs @ up # low # caches st ps"
      using off [OF pb _ nx] new nx nps by (auto simp: xs ys)
    moreover have "segment_chain st b = caches st xs @ sn_cache (st ! a) # caches st ps" by (simp add: segment_chain_def xs ys)
    ultimately show ?thesis using flat [of "caches st xs"] tree_path(2) [OF t b(1)] by simp
  qed
  show "same_flat (segment_chain st b) (segment_chain st' b)" if "b < length st" "b \<noteq> a" for b
    using other [OF that] segment_chain_eq [OF path [OF that]] by simp
  show "tree_ok st'"
  proof (rule tree_okI [of _ "\<lambda>b. if b = length st then length st # a # ps else if b = a then a # ps else via a (length st) (segment_path st b)"])
    fix b assume "b < length st'"
    then have "b = length st \<or> b = a \<or> b < length st \<and> b \<noteq> a" using n(1) by auto
    then show "is_path st' b (if b = length st then length st # a # ps else if b = a then a # ps else via a (length st) (segment_path st b)) \<and>
        chain_ok (caches st' (if b = length st then length st # a # ps else if b = a then a # ps else via a (length st) (segment_path st b)))"
      using path_n new flat [of "[]"] ok path_a own other path a by (elim disjE) (simp_all del: list.map)
  next
    fix b c assume b: "b < length st'"
    have na: "a \<notin> set (sn_children (st ! a))" "sn_parent (st ! a) \<noteq> Some a"
      using tree_children [OF t a, of a] no_own_child [OF pa, of a] by auto
    have old: "sn_parent (st ! i) = Some p \<Longrightarrow> p < length st" if "i < length st" for i p
      using tree_path(1) [OF t that] by (auto simp: is_path_iff [of st i] is_path_iff [of st p])
    have par: "sn_parent (st' ! i) = (if i \<in> set (sn_children (st ! a)) then Some (length st) else sn_parent (st ! i))" if "i < length st" for i
      using n(2,4) that na(1) by (cases "i = a") auto
    note kids = tree_children [OF t a]
    consider "b = length st" | "b = a" | "b < length st" "b \<noteq> a" "b \<noteq> length st" using b n(1) by fastforce
    then show "c \<in> set (sn_children (st' ! b)) \<longleftrightarrow> c < length st' \<and> sn_parent (st' ! c) = Some b"
    proof cases
      case 1
      then show ?thesis using n(1,3) kids [of c] par [of c] old [of c "length st"] a by (auto simp: less_Suc_eq)
    next
      case 2
      then show ?thesis using n(1-3) kids [of c] par [of c] a by (auto simp: less_Suc_eq)
    next
      case 3
      then have "sn_children (st' ! b) = sn_children (st ! b)" using n(4) [of b] by simp
      then show ?thesis using 3 n(1,3) kids [of c] par [of c] tree_children [OF t 3(1), of c] by (auto simp: less_Suc_eq)
    qed
  qed
qed

section \<open>Accepted blocks fit\<close>

text \<open>The limits within which nothing wraps around, for a block above the checkpoints that was accepted for
  the chain \<open>ch\<close>: the numbers of blocks and outputs, the cumulative difficulty, and a base transaction that can
  be written.\<close>

definition within_limits :: "validation_env \<Rightarrow> accepted_block \<Rightarrow> chain \<Rightarrow> bool" where
  "within_limits env ab ch \<longleftrightarrow>
     \<not> isInCheckpointZone (ve_checkpoints env) (of_nat (ab_previous ab + 1)) \<and> ab_previous ab + 2 < 2 ^ 32 \<and>
     (\<forall>a. length (flat_outs a ch) + total_outputs (block_cts (ab_block ab) (ab_transactions ab)) < 2 ^ 32) \<and>
     unat (cbi_cumulativeDifficulty (flat_infos ch ! ab_previous ab)) + unat (ab_difficulty ab) < 2 ^ 64 \<and>
     (\<exists>ba. write_Transaction (baseTransaction (cb_block (ab_block ab))) = Inr ba)"

text \<open>The part of a chain up to and with block \<open>b\<close>.\<close>

definition chain_upto :: "nat \<Rightarrow> chain \<Rightarrow> chain \<Rightarrow> bool" where
  "chain_upto b ch0 ch \<longleftrightarrow>
     flat_infos ch = take (b + 1) (flat_infos ch0) \<and> b < length (flat_infos ch0) \<and>
     (\<forall>ki b'. flat_spent ki ch = Some b' \<longrightarrow> b' \<le> b \<and> flat_spent ki ch0 = Some b') \<and>
     (\<forall>a. length (flat_outs a ch) \<le> length (flat_outs a ch0))"

lemma block_in_segment:
  assumes "cache_getBlockIndex s h = Some b"
  shows "bc_startIndex s \<le> b" "b < bc_startIndex s + length (bc_blockInfos s)"
proof -
  have "position P xs = Some i \<Longrightarrow> i < length xs" for P :: "'a \<Rightarrow> bool" and xs i by (induction xs arbitrary: i) (auto split: if_splits)
  then show "bc_startIndex s \<le> b" "b < bc_startIndex s + length (bc_blockInfos s)"
    using assms by (auto simp: cache_getBlockIndex_def)
qed

lemma blob_transaction_hash:
  assumes "CachedTransaction_of_blob raw = Inr ct"
  shows "\<exists>h. fst (getTransactionHash ct) = Inr h"
  using assms by (auto simp: CachedTransaction_of_blob_def CachedTransaction_init_def getTransactionHash_def getTransactionBinaryArray_def Let_def split: sum.splits)

lemma accepted_fits:
  assumes acc: "block_accepted env ch0 ab" and lim: "within_limits env ab ch0" and ok: "chain_ok ch0"
    and upto: "chain_upto (ab_previous ab) ch0 ch"
    and h: "fst (getBlockHash (ab_block ab)) = Inr h" "\<not> hasBlock (hd ch) h"
    and i: "fst (getBlockIndex (ab_block ab)) = Inr (of_nat (ab_previous ab + 1))"
  shows "block_fits (ab_block ab) (ab_transactions ab) (ab_state ab) h ch"
proof -
  let ?cts = "block_cts (ab_block ab) (ab_transactions ab)" and ?b = "ab_previous ab"
  have L: "length (flat_infos ch) = ?b + 1" using upto by (simp add: chain_upto_def)
  have "flat_spent ki ch = None" if ki: "ki \<in> spentKeyImages (ab_state ab)" for ki
  proof (rule ccontr)
    assume "flat_spent ki ch \<noteq> None"
    then obtain b' where b': "b' \<le> ?b" "flat_spent ki ch0 = Some b'" using upto by (auto simp: chain_upto_def)
    obtain ct where ct: "ct \<in> set (ab_transactions ab)" "ki \<in> set (key_images (inputs (ct_transaction ct)))"
      using acc ki by (auto simp: block_accepted_def Let_def)
    have "\<not> checkIfSpent_at (keyImage (inputs (ct_transaction ct) ! j)) ?b ch0" if "j < length (inputs (ct_transaction ct))" for j
      using acc lim ct(1) that by (auto simp: block_accepted_def within_limits_def Let_def input_authorized_def)
    then have "\<not> checkIfSpent_at ki ?b ch0"
      using key_images_unspent [of "inputs (ct_transaction ct)" "\<lambda>ki. checkIfSpent_at ki ?b ch0" ki] ct(2) by blast
    then show False using b' checkIfSpent_at_flat [OF ok] by blast
  qed
  moreover have "\<exists>h. fst (getTransactionHash ct) = Inr h" if "ct \<in> set ?cts" for ct
  proof (cases "ct \<in> set (ab_transactions ab)")
    case True
    have "list_all2 (\<lambda>raw ct. CachedTransaction_of_blob raw = Inr ct) (rb_transactions (ab_raw ab)) (ab_transactions ab)"
      using acc unfolding block_accepted_def Let_def by (elim conjE)
    then obtain raw where "CachedTransaction_of_blob raw = Inr ct"
      using True by (auto simp: in_set_conv_nth list_all2_conv_all_nth)
    then show ?thesis by (rule blob_transaction_hash)
  next
    case False
    then have "ct = CachedTransaction_init (baseTransaction (cb_block (ab_block ab)))" using that by simp
    then show ?thesis using lim
      by (auto simp: within_limits_def CachedTransaction_init_def getTransactionHash_def getTransactionBinaryArray_def Let_def)
  qed
  moreover have "length (flat_outs a ch) + total_outputs ?cts < 2 ^ 32" for a
    using upto lim unfolding chain_upto_def within_limits_def by (meson add_le_mono1 le_less_trans)
  ultimately show ?thesis
    using h i lim unfolding block_fits_def Let_def L by (auto simp: within_limits_def)
qed

lemma upto_top:
  assumes "chain_ok ch" "length (flat_infos ch) = b + 1"
  shows "chain_upto b ch ch"
  using assms flat_spent_bound [OF assms(1)] by (fastforce simp: chain_upto_def)

lemma upto_empty: "chain_upto b ch0 ch \<Longrightarrow> chain_upto b ch0 (empty_segment n # ch)"
  by (simp add: chain_upto_def empty_segment_def own_outs_def)

lemma upto_low:
  assumes sp: "split_segment (b + 1) s = (up, low)" and ok: "chain_ok (s # ps)"
    and b: "bc_startIndex s \<le> b" "b + 1 < bc_startIndex s + length (bc_blockInfos s)"
  shows "chain_upto b (s # ps) (low # ps)"
proof -
  have same: "same_flat (s # ps) (up # low # ps)" and ok': "chain_ok (up # low # ps)"
    using split_same_flat [OF sp, of "[]" ps] ok b by auto
  have st: "bc_startIndex s = length (flat_infos ps)" using ok by (simp add: segment_ok_def)
  have infos: "bc_blockInfos low = take (b + 1 - bc_startIndex s) (bc_blockInfos s)" using split_segment_fields [OF sp] by simp
  have f: "flat_infos (low # ps) = take (b + 1) (flat_infos (s # ps))" using infos st b by simp
  have L: "length (flat_infos (low # ps)) = b + 1" using f st b by simp
  have "b' \<le> b \<and> flat_spent ki (s # ps) = Some b'" if "flat_spent ki (low # ps) = Some b'" for ki b'
  proof -
    have "b' < b + 1" using flat_spent_bound [of "low # ps" ki b'] ok' that L by simp
    moreover have "bc_spentKeyImages up ki = None"
      using ok' that by (cases "bc_spentKeyImages up ki") (auto simp: segment_ok_def simp del: flat_spent.simps)
    then have "flat_spent ki (up # low # ps) = Some b'" using that by simp
    then have "flat_spent ki (s # ps) = Some b'" using same by (simp add: same_flat_def del: flat_spent.simps)
    ultimately show ?thesis by simp
  qed
  moreover have "length (flat_outs a (low # ps)) \<le> length (flat_outs a (s # ps))" for a
  proof -
    have "flat_outs a (s # ps) = flat_outs a (low # ps) @ own_outs a up" using same by (simp add: same_flat_def)
    then show ?thesis by simp
  qed
  ultimately show ?thesis using f st b unfolding chain_upto_def by simp
qed

section \<open>The effect on the tree\<close>

abbreviation fits_on :: "accepted_block \<Rightarrow> hash \<Rightarrow> chain \<Rightarrow> bool" where
  "fits_on ab h ch \<equiv> block_fits (ab_block ab) (ab_transactions ab) (ab_state ab) h ch"

abbreviation pushed_on :: "accepted_block \<Rightarrow> hash \<Rightarrow> chain \<Rightarrow> chain \<Rightarrow> bool" where
  "pushed_on ab h ch ch' \<equiv>
     pushed (ab_block ab) (ab_transactions ab) (ab_state ab) h (ab_size ab) (ab_emission ab) (ab_difficulty ab) (ab_raw ab) ch ch'"

lemma push_node_leaf:
  assumes t: "tree_ok st" and a: "a < length st" and fits: "fits_on ab h (segment_chain st a)"
  obtains s where "push_node ab a st = Some (st[a := (st ! a) \<lparr> sn_cache := s \<rparr>])" "chain_ok (s # tl (segment_chain st a))"
    "pushed_on ab h (segment_chain st a) (s # tl (segment_chain st a))"
proof -
  obtain ps where ch: "segment_chain st a = sn_cache (st ! a) # ps" using tree_path(4) [OF t a] by blast
  then have "segment_ok (sn_cache (st ! a)) ps" "chain_ok ps" using tree_path(2) [OF t a] by simp_all
  from doPushBlock_result [OF this fits [unfolded ch], of "ab_size ab" "ab_emission ab" "ab_difficulty ab" "ab_raw ab"]
  obtain s where "doPushBlock (ab_block ab) (ab_transactions ab) (ab_state ab) (ab_size ab) (ab_emission ab) (ab_difficulty ab) (ab_raw ab)
      (segment_chain st a) = Some (s # ps)" "chain_ok (s # ps)" "pushed_on ab h (segment_chain st a) (s # ps)"
    unfolding ch by blast
  then show ?thesis using that [of s] by (simp add: push_node_def ch)
qed

lemma push_node_fork:
  assumes t: "tree_ok st" and a: "a < length st" and n: "n = length (flat_infos (segment_chain st a))"
    and fits: "fits_on ab h (empty_segment n # segment_chain st a)"
  obtains s where "push_node ab (length st) (fork_node n a st) =
      Some (st[a := (st ! a) \<lparr> sn_children := sn_children (st ! a) @ [length st] \<rparr>] @ [\<lparr> sn_cache = s, sn_parent = Some a, sn_children = [] \<rparr>])"
    "chain_ok (s # segment_chain st a)" "pushed_on ab h (empty_segment n # segment_chain st a) (s # segment_chain st a)"
proof -
  have ch: "segment_chain (fork_node n a st) (length st) = empty_segment n # segment_chain st a"
    using fork_paths(1) [OF t a, of "empty_segment n"] by (simp add: fork_node_def)
  from doPushBlock_result [OF empty_segment_ok [OF tree_path(2) [OF t a] n] tree_path(2) [OF t a] fits,
      of "ab_size ab" "ab_emission ab" "ab_difficulty ab" "ab_raw ab"]
  obtain s where s: "doPushBlock (ab_block ab) (ab_transactions ab) (ab_state ab) (ab_size ab) (ab_emission ab) (ab_difficulty ab) (ab_raw ab)
      (empty_segment n # segment_chain st a) = Some (s # segment_chain st a)" "chain_ok (s # segment_chain st a)"
      "pushed_on ab h (empty_segment n # segment_chain st a) (s # segment_chain st a)"
    by blast
  have "push_node ab (length st) (fork_node n a st) =
      Some (st[a := (st ! a) \<lparr> sn_children := sn_children (st ! a) @ [length st] \<rparr>] @ [\<lparr> sn_cache = s, sn_parent = Some a, sn_children = [] \<rparr>])"
    unfolding push_node_def ch s(1) by (simp add: fork_node_def nth_append list_update_append)
  then show ?thesis using that s by blast
qed

definition leaves_ok :: "segment_node list \<Rightarrow> nat list \<Rightarrow> bool" where
  "leaves_ok st leaves \<longleftrightarrow> leaves \<noteq> [] \<and> distinct leaves \<and> set leaves = {a. a < length st \<and> sn_children (st ! a) = []}"

text \<open>What a new block does to the tree: one segment \<open>new\<close> gets the block on top of block \<open>b\<close> of the chain of
  segment \<open>a\<close>; every other segment stands for a chain of the old tree, \<open>a\<close> perhaps for its lower part.\<close>

definition inserted :: "accepted_block \<Rightarrow> hash \<Rightarrow> nat \<Rightarrow> nat \<Rightarrow> segment_node list \<Rightarrow> segment_node list \<Rightarrow> bool" where
  "inserted ab h a new st st' \<longleftrightarrow>
     new < length st' \<and>
     (\<exists>ch. chain_upto (ab_previous ab) (segment_chain st a) ch \<and> pushed_on ab h ch (segment_chain st' new)) \<and>
     (\<forall>x < length st'. x = new \<or> (\<exists>y < length st. same_flat (segment_chain st y) (segment_chain st' x)) \<or>
        chain_upto (ab_previous ab) (segment_chain st a) (segment_chain st' x))"

lemma same_flat_refl [simp]: "same_flat ch ch"
  by (simp add: same_flat_def)

lemma push_effect:
  assumes t: "tree_ok st" and l: "leaves_ok st leaves" and a: "a < length st" "sn_children (st ! a) = []"
    and top: "length (flat_infos (segment_chain st a)) = ab_previous ab + 1" and fits: "fits_on ab h (segment_chain st a)"
  obtains st' where "push_node ab a st = Some st'" "tree_ok st'" "leaves_ok st' leaves" "inserted ab h a a st st'" "length st' = length st"
    "\<And>x. x < length st \<Longrightarrow> x \<noteq> a \<Longrightarrow> segment_chain st' x = segment_chain st x"
    "pushed_on ab h (segment_chain st a) (segment_chain st' a)"
proof -
  obtain s where s: "push_node ab a st = Some (st[a := (st ! a) \<lparr> sn_cache := s \<rparr>])" "chain_ok (s # tl (segment_chain st a))"
    "pushed_on ab h (segment_chain st a) (s # tl (segment_chain st a))"
    by (rule push_node_leaf [OF t a(1) fits])
  let ?st' = "st[a := (st ! a) \<lparr> sn_cache := s \<rparr>]"
  note p = push_tree [OF t a s(2)]
  have "sn_children (?st' ! i) = sn_children (st ! i)" for i using a(1) by (cases "i = a") simp_all
  then have "leaves_ok ?st' leaves" using l by (simp add: leaves_ok_def)
  moreover have pu: "pushed_on ab h (segment_chain st a) (segment_chain ?st' a)" using s(3) p(2) by simp
  moreover have "inserted ab h a a st ?st'"
    unfolding inserted_def using pu upto_top [OF tree_path(2) [OF t a(1)] top] p(3) a(1) by fastforce
  ultimately show ?thesis using that [OF s(1) p(1)] p(3) by simp
qed

lemma fork_effect:
  assumes t: "tree_ok st" and l: "leaves_ok st leaves" and a: "a < length st" "sn_children (st ! a) \<noteq> []"
    and upto: "chain_upto (ab_previous ab) ch0 (segment_chain st a)"
    and fits: "fits_on ab h (empty_segment (ab_previous ab + 1) # segment_chain st a)"
  obtains st' where "push_node ab (length st) (fork_node (ab_previous ab + 1) a st) = Some st'" "tree_ok st'"
    "leaves_ok st' (leaves @ [length st])" "length st' = Suc (length st)"
    "\<And>x. x < length st \<Longrightarrow> segment_chain st' x = segment_chain st x" "\<And>x. x < length st \<Longrightarrow> segment_path st' x = segment_path st x"
    "\<exists>ch. chain_upto (ab_previous ab) ch0 ch \<and> pushed_on ab h ch (segment_chain st' (length st))"
proof -
  have n: "ab_previous ab + 1 = length (flat_infos (segment_chain st a))" using upto by (simp add: chain_upto_def)
  obtain s where s: "push_node ab (length st) (fork_node (ab_previous ab + 1) a st) =
      Some (st[a := (st ! a) \<lparr> sn_children := sn_children (st ! a) @ [length st] \<rparr>] @ [\<lparr> sn_cache = s, sn_parent = Some a, sn_children = [] \<rparr>])"
    "chain_ok (s # segment_chain st a)" "pushed_on ab h (empty_segment (ab_previous ab + 1) # segment_chain st a) (s # segment_chain st a)"
    by (rule push_node_fork [OF t a(1) n fits])
  let ?st' = "st[a := (st ! a) \<lparr> sn_children := sn_children (st ! a) @ [length st] \<rparr>] @ [\<lparr> sn_cache = s, sn_parent = Some a, sn_children = [] \<rparr>]"
  note p = fork_paths [where s = s, OF t a(1)]
  have kids: "sn_children (?st' ! i) = [] \<longleftrightarrow> i = length st \<or> sn_children (st ! i) = []" if "i \<le> length st" for i
    using that a by (cases "i = length st"; cases "i = a") (simp_all add: nth_append)
  have "set (leaves @ [length st]) = {i. i < length ?st' \<and> sn_children (?st' ! i) = []}"
    using l kids unfolding leaves_ok_def by (auto simp: less_Suc_eq_le)
  then have "leaves_ok ?st' (leaves @ [length st])" using l unfolding leaves_ok_def by auto
  moreover have "\<exists>ch. chain_upto (ab_previous ab) ch0 ch \<and> pushed_on ab h ch (segment_chain ?st' (length st))"
    using s(3) upto_empty [OF upto] p(1) by auto
  ultimately show ?thesis using that [OF s(1) fork_tree [OF t a(1) s(2)]] p by simp
qed

definition split_leaves :: "segment_node list \<Rightarrow> nat \<Rightarrow> nat list \<Rightarrow> nat list" where
  "split_leaves st a leaves = (if sn_children (st ! a) = [] then map (\<lambda>l. if l = a then length st else l) leaves else leaves)"

lemma split_leaves_ok:
  assumes t: "tree_ok st" and l: "leaves_ok st leaves" and a: "a < length st"
  shows "leaves_ok (split_node k a st) (split_leaves st a leaves)"
proof -
  obtain up low where sp: "split_segment k (sn_cache (st ! a)) = (up, low)" by (cases "split_segment k (sn_cache (st ! a))")
  note n = split_nodes [OF t a sp]
  have kids: "sn_children (split_node k a st ! i) = (if i = a then [length st] else if i = length st then sn_children (st ! a) else sn_children (st ! i))"
    if "i \<le> length st" for i
    using that n a by (cases "i = a"; cases "i = length st") auto
  have l': "leaves \<noteq> []" "distinct leaves" "set leaves = {i. i < length st \<and> sn_children (st ! i) = []}" using l by (simp_all add: leaves_ok_def)
  have "set (split_leaves st a leaves) = {i. i < length (split_node k a st) \<and> sn_children (split_node k a st ! i) = []}"
    using l'(3) kids a n(1) by (auto simp: split_leaves_def less_Suc_eq_le image_iff split: if_splits)
  moreover have "distinct (split_leaves st a leaves)"
    using l' by (auto simp: split_leaves_def distinct_map inj_on_def)
  ultimately show ?thesis using l'(1) by (simp add: leaves_ok_def split_leaves_def)
qed

lemma inside_effect:
  assumes t: "tree_ok st" and l: "leaves_ok st leaves" and a: "a < length st"
    and b: "bc_startIndex (sn_cache (st ! a)) \<le> ab_previous ab"
      "ab_previous ab + 1 < bc_startIndex (sn_cache (st ! a)) + length (bc_blockInfos (sn_cache (st ! a)))"
    and fits: "\<And>ch. chain_upto (ab_previous ab) (segment_chain st a) ch \<Longrightarrow> hd ch = empty_segment (ab_previous ab + 1) \<Longrightarrow> fits_on ab h ch"
  obtains st' where
    "push_node ab (Suc (length st)) (fork_node (ab_previous ab + 1) a (split_node (ab_previous ab + 1) a st)) = Some st'" "tree_ok st'"
    "leaves_ok st' (split_leaves st a leaves @ [Suc (length st)])" "inserted ab h a (Suc (length st)) st st'"
    "same_flat (segment_chain st (hd leaves)) (segment_chain st' (hd (split_leaves st a leaves)))" "length st' = Suc (Suc (length st))"
proof -
  let ?b = "ab_previous ab" and ?st1 = "split_node (ab_previous ab + 1) a st"
  obtain up low where sp: "split_segment (?b + 1) (sn_cache (st ! a)) = (up, low)" by (cases "split_segment (?b + 1) (sn_cache (st ! a))")
  obtain ps where ch: "segment_chain st a = sn_cache (st ! a) # ps" using tree_path(4) [OF t a] by blast
  have k: "bc_startIndex (sn_cache (st ! a)) < ?b + 1" using b(1) by simp
  note sn = split_nodes [OF t a sp] and sp' = split_tree [OF t a sp k b(2)]
  have upto: "chain_upto ?b (segment_chain st a) (segment_chain ?st1 a)"
    using upto_low [OF sp _ b] tree_path(2) [OF t a] sp'(2) by (simp add: ch)
  have a1: "a < length ?st1" "sn_children (?st1 ! a) \<noteq> []" using a sn by simp_all
  have f: "fits_on ab h (empty_segment (?b + 1) # segment_chain ?st1 a)" by (rule fits [OF upto_empty [OF upto]]) simp
  obtain st' where st': "push_node ab (length ?st1) (fork_node (?b + 1) a ?st1) = Some st'" "tree_ok st'"
    "leaves_ok st' (split_leaves st a leaves @ [length ?st1])" "length st' = Suc (length ?st1)"
    "\<And>x. x < length ?st1 \<Longrightarrow> segment_chain st' x = segment_chain ?st1 x"
    "\<exists>ch. chain_upto ?b (segment_chain st a) ch \<and> pushed_on ab h ch (segment_chain st' (length ?st1))"
    by (rule fork_effect [OF sp'(1) split_leaves_ok [OF t l a] a1 upto f]) metis
  have old: "same_flat (segment_chain st x) (segment_chain st' x)" if "x < length st" "x \<noteq> a" for x
    using st'(5) [of x] sp'(5) [OF that] that(1) sn(1) by simp
  have new: "same_flat (segment_chain st a) (segment_chain st' (length st))" using st'(5) [of "length st"] sp'(4) sn(1) by simp
  have low: "chain_upto ?b (segment_chain st a) (segment_chain st' a)" using st'(5) [OF a1(1)] upto by simp
  have "inserted ab h a (length ?st1) st st'"
    unfolding inserted_def
  proof (intro conjI allI impI)
    fix x assume "x < length st'"
    then consider "x = length ?st1" | "x = a" | "x = length st" | "x < length st" "x \<noteq> a" using st'(4) sn(1) by linarith
    then show "x = length ?st1 \<or> (\<exists>y<length st. same_flat (segment_chain st y) (segment_chain st' x)) \<or>
        chain_upto ?b (segment_chain st a) (segment_chain st' x)"
      by cases (use low new old a in blast)+
  qed (use st'(4,6) in simp_all)
  moreover have "same_flat (segment_chain st (hd leaves)) (segment_chain st' (hd (split_leaves st a leaves)))"
  proof -
    have hd: "hd leaves < length st" "sn_children (st ! hd leaves) = []" "leaves \<noteq> []"
      using l hd_in_set [of leaves] by (auto simp: leaves_ok_def)
    then show ?thesis using new old [of "hd leaves"] by (cases "hd leaves = a") (auto simp: split_leaves_def hd_map)
  qed
  ultimately show ?thesis using that [of st'] st' sn(1) by simp
qed

section \<open>Work\<close>

text \<open>The difficulty that the chain of some blocks demands of the next one.\<close>

definition flat_difficulty :: "Currency \<Rightarrow> CachedBlockInfo list \<Rightarrow> u64 option" where
  "flat_difficulty c infos =
     (let i = length infos - 1; v = getBlockMajorVersionForHeight c (i + 1);
          recent = drop (max 1 (i + 1 - unat (difficultyBlocksCountByBlockVersion c v (of_nat i)))) infos
      in getNextDifficulty c v (of_nat i) (map cbi_timestamp recent) (map cbi_cumulativeDifficulty recent))"

lemma getDifficultyForNextBlock_flat:
  assumes "chain_ok ch" "i < length (flat_infos ch)"
  shows "getDifficultyForNextBlock c i ch = flat_difficulty c (take (i + 1) (flat_infos ch))"
  using assms(2) unfolding getDifficultyForNextBlock_def flat_difficulty_def getLastTimestamps_def getLastCumulativeDifficulties_def
    getLastUnits_flat [OF assms] by (simp add: Let_def)

abbreviation work_at :: "CachedBlockInfo list \<Rightarrow> nat \<Rightarrow> nat" where
  "work_at infos i \<equiv> unat (cbi_cumulativeDifficulty (infos ! i))"

abbreviation total_work :: "CachedBlockInfo list \<Rightarrow> nat" where
  "total_work infos \<equiv> unat (cbi_cumulativeDifficulty (last infos))"

text \<open>Each block after the first adds the difficulty that its predecessors demand, which is not zero.\<close>

definition work_ok :: "Currency \<Rightarrow> CachedBlockInfo list \<Rightarrow> bool" where
  "work_ok c infos \<longleftrightarrow>
     infos \<noteq> [] \<and>
     (\<forall>i. i + 1 < length infos \<longrightarrow>
        (\<exists>d. flat_difficulty c (take (i + 1) infos) = Some d \<and> d \<noteq> 0 \<and> work_at infos (i + 1) = work_at infos i + unat d))"

lemma work_ok_take:
  assumes "work_ok c infos" "0 < n"
  shows "work_ok c (take n infos)"
  using assms unfolding work_ok_def by (auto simp: min_def)

lemma work_ok_snoc:
  assumes w: "work_ok c infos" and d: "flat_difficulty c infos = Some d" "d \<noteq> 0"
    and x: "unat (cbi_cumulativeDifficulty x) = total_work infos + unat d"
  shows "work_ok c (infos @ [x])"
  unfolding work_ok_def
proof (intro conjI allI impI)
  fix i assume i: "i + 1 < length (infos @ [x])"
  show "\<exists>d. flat_difficulty c (take (i + 1) (infos @ [x])) = Some d \<and> d \<noteq> 0 \<and> work_at (infos @ [x]) (i + 1) = work_at (infos @ [x]) i + unat d"
  proof (cases "i + 1 < length infos")
    case True
    then show ?thesis using w unfolding work_ok_def by (simp add: nth_append)
  next
    case False
    then have "i = length infos - 1" "infos \<noteq> []" using i w by (auto simp: work_ok_def)
    then show ?thesis using d x by (simp add: nth_append last_conv_nth)
  qed
qed simp

lemma work_mono:
  assumes "work_ok c infos" "i \<le> j" "j < length infos"
  shows "work_at infos i \<le> work_at infos j"
  using assms(2,3)
proof (induction j)
  case (Suc j)
  show ?case
  proof (cases "i = Suc j")
    case False
    then have "work_at infos i \<le> work_at infos j" using Suc by simp
    moreover obtain d where "work_at infos (j + 1) = work_at infos j + unat (d :: u64)"
      using assms(1) Suc.prems unfolding work_ok_def by auto
    ultimately show ?thesis by simp
  qed simp
qed simp

lemma work_below:
  assumes w: "work_ok c infos" and d: "flat_difficulty c (take (i + 1) infos) = Some d" and i: "i + 1 < length infos"
  shows "work_at infos i + unat d \<le> total_work infos"
proof -
  have "work_at infos (i + 1) = work_at infos i + unat d" using w i d unfolding work_ok_def by auto
  moreover have "work_at infos (i + 1) \<le> work_at infos (length infos - 1)" using i by (intro work_mono [OF w]) auto
  moreover have "infos \<noteq> []" using i by auto
  ultimately show ?thesis by (simp add: last_conv_nth)
qed

lemma total_work_take:
  assumes "work_ok c infos" "b < length infos"
  shows "total_work (take (b + 1) infos) = work_at infos b" "total_work (take (b + 1) infos) \<le> total_work infos"
proof -
  show *: "total_work (take (b + 1) infos) = work_at infos b" using assms(2) by (simp add: take_Suc_conv_app_nth)
  have "infos \<noteq> []" using assms(2) by auto
  then show "total_work (take (b + 1) infos) \<le> total_work infos"
    unfolding * last_conv_nth [OF \<open>infos \<noteq> []\<close>] using assms by (intro work_mono [OF assms(1)]) auto
qed

abbreviation node_infos :: "segment_node list \<Rightarrow> nat \<Rightarrow> CachedBlockInfo list" where
  "node_infos st x \<equiv> flat_infos (segment_chain st x)"

definition tree_work_ok :: "Currency \<Rightarrow> segment_node list \<Rightarrow> bool" where
  "tree_work_ok c st \<longleftrightarrow> (\<forall>x < length st. work_ok c (node_infos st x))"

definition heaviest :: "segment_node list \<Rightarrow> nat \<Rightarrow> bool" where
  "heaviest st m \<longleftrightarrow> (\<forall>x < length st. total_work (node_infos st x) \<le> total_work (node_infos st m))"

lemma new_block_work:
  assumes t: "tree_ok st" and w: "tree_work_ok (ve_currency env) st" and a: "a < length st"
    and acc: "block_accepted env (segment_chain st a) ab" and lim: "within_limits env ab (segment_chain st a)"
    and ch: "chain_upto (ab_previous ab) (segment_chain st a) ch" "pushed_on ab h ch ch'"
  shows "work_ok (ve_currency env) (flat_infos ch')"
    "total_work (flat_infos ch') = work_at (node_infos st a) (ab_previous ab) + unat (ab_difficulty ab)"
    "flat_difficulty (ve_currency env) (take (ab_previous ab + 1) (node_infos st a)) = Some (ab_difficulty ab)" "ab_difficulty ab \<noteq> 0"
proof -
  let ?c = "ve_currency env" and ?I = "node_infos st a" and ?b = "ab_previous ab"
  have wa: "work_ok ?c ?I" using w a by (simp add: tree_work_ok_def)
  have b: "?b < length ?I" "flat_infos ch = take (?b + 1) ?I" using ch(1) by (simp_all add: chain_upto_def)
  have d: "getDifficultyForNextBlock ?c ?b (segment_chain st a) = Some (ab_difficulty ab)" "ab_difficulty ab \<noteq> 0"
    using acc unfolding block_accepted_def Let_def by blast+
  show fd: "flat_difficulty ?c (take (?b + 1) ?I) = Some (ab_difficulty ab)"
    using d(1) getDifficultyForNextBlock_flat [OF tree_path(2) [OF t a] b(1), of ?c] by simp
  show "ab_difficulty ab \<noteq> 0" by (rule d(2))
  define x where "x = next_info (ab_block ab) h (length (ab_transactions ab)) (ab_size ab) (ab_emission ab) (ab_difficulty ab) (flat_infos ch)"
  have infos: "flat_infos ch' = flat_infos ch @ [x]" using ch(2) by (simp add: pushed_def x_def Let_def)
  have ne: "flat_infos ch \<noteq> []" using b by auto
  have last: "total_work (flat_infos ch) = work_at ?I ?b" using total_work_take(1) [OF wa b(1)] b(2) by simp
  have "unat (cbi_cumulativeDifficulty x) = total_work (flat_infos ch) + unat (ab_difficulty ab)"
    using lim ne unfolding last [symmetric] within_limits_def x_def next_info_def Let_def
    by (simp add: unat_add64 flip: last)
  note x = this
  show "work_ok ?c (flat_infos ch')"
    unfolding infos by (rule work_ok_snoc [OF _ _ d(2) x]) (use work_ok_take [OF wa, of "?b + 1"] fd b(2) in simp_all)
  show "total_work (flat_infos ch') = work_at ?I ?b + unat (ab_difficulty ab)" using x last by (simp add: infos)
qed

lemma inserted_work:
  assumes t: "tree_ok st" and w: "tree_work_ok (ve_currency env) st" and a: "a < length st"
    and acc: "block_accepted env (segment_chain st a) ab" and lim: "within_limits env ab (segment_chain st a)"
    and ins: "inserted ab h a new st st'"
  shows "tree_work_ok (ve_currency env) st'"
    "total_work (node_infos st' new) = work_at (node_infos st a) (ab_previous ab) + unat (ab_difficulty ab)"
    "x < length st' \<Longrightarrow> x \<noteq> new \<Longrightarrow> \<exists>y < length st. total_work (node_infos st' x) \<le> total_work (node_infos st y)"
proof -
  let ?c = "ve_currency env"
  obtain ch where ch: "chain_upto (ab_previous ab) (segment_chain st a) ch" "pushed_on ab h ch (segment_chain st' new)"
    using ins unfolding inserted_def by blast
  note n = new_block_work [OF t w a acc lim ch]
  have wy: "work_ok ?c (node_infos st y)" if "y < length st" for y using w that by (simp add: tree_work_ok_def)
  have old: "work_ok ?c (node_infos st' x) \<and> (\<exists>y < length st. total_work (node_infos st' x) \<le> total_work (node_infos st y))"
    if x: "x < length st'" "x \<noteq> new" for x
  proof -
    consider y where "y < length st" "same_flat (segment_chain st y) (segment_chain st' x)"
      | "chain_upto (ab_previous ab) (segment_chain st a) (segment_chain st' x)"
      using ins x unfolding inserted_def by blast
    then show ?thesis
    proof cases
      case 1
      then have "node_infos st' x = node_infos st y" by (simp add: same_flat_def)
      then show ?thesis using wy 1(1) by auto
    next
      case 2
      then have i: "node_infos st' x = take (ab_previous ab + 1) (node_infos st a)" "ab_previous ab < length (node_infos st a)"
        by (simp_all add: chain_upto_def)
      then show ?thesis
        using work_ok_take [OF wy [OF a], of "ab_previous ab + 1"] total_work_take(2) [OF wy [OF a] i(2)] a by auto
    qed
  qed
  show "tree_work_ok ?c st'" using old n(1) unfolding tree_work_ok_def by blast
  show "total_work (node_infos st' new) = work_at (node_infos st a) (ab_previous ab) + unat (ab_difficulty ab)" by (rule n(2))
  show "x < length st' \<Longrightarrow> x \<noteq> new \<Longrightarrow> \<exists>y < length st. total_work (node_infos st' x) \<le> total_work (node_infos st y)" using old by blast
qed

text \<open>A block inside a chain, or below a child, does not get above the main chain.\<close>

lemma work_inside:
  assumes t: "tree_ok st" and w: "tree_work_ok (ve_currency env) st" and a: "a < length st"
    and d: "flat_difficulty (ve_currency env) (take (b + 1) (node_infos st a)) = Some d" and b: "b < length (node_infos st a)"
    and inside: "b + 1 < length (node_infos st a) \<or> sn_children (st ! a) \<noteq> []"
  shows "\<exists>y < length st. work_at (node_infos st a) b + unat d \<le> total_work (node_infos st y)"
proof (cases "b + 1 < length (node_infos st a)")
  case True
  then show ?thesis using work_below [OF _ d] w a unfolding tree_work_ok_def by blast
next
  case False
  then obtain c where c: "c < length st" "sn_parent (st ! c) = Some a"
    using inside tree_children [OF t a] by (metis list.set_intros(1) neq_Nil_conv)
  have "is_path st c (c # segment_path st a)" using c tree_path(1) [OF t a] by (intro is_path.step [where p = a]) simp_all
  from segment_path_eq [OF this] have ch: "segment_chain st c = sn_cache (st ! c) # segment_chain st a" by (simp add: segment_chain_def)
  then have i: "node_infos st c = node_infos st a @ bc_blockInfos (sn_cache (st ! c))" "bc_blockInfos (sn_cache (st ! c)) \<noteq> []"
    using tree_path(2) [OF t c(1)] by simp_all
  have "0 < length (bc_blockInfos (sn_cache (st ! c)))" using i(2) by simp
  then have "b + 1 < length (node_infos st c)" using b unfolding i(1) by (simp only: length_append)
  moreover have "flat_difficulty (ve_currency env) (take (b + 1) (node_infos st c)) = Some d" using d b False i(1) by simp
  ultimately have "work_at (node_infos st c) b + unat d \<le> total_work (node_infos st c)"
    using work_below w c(1) unfolding tree_work_ok_def by blast
  moreover have "node_infos st c ! b = node_infos st a ! b" using i(1) b by (simp add: nth_append)
  ultimately show ?thesis using c(1) by auto
qed

section \<open>The invariant of the core\<close>

definition core_inv :: "Currency \<Rightarrow> Core \<Rightarrow> bool" where
  "core_inv c core \<longleftrightarrow>
     tree_ok (chainsStorage core) \<and> leaves_ok (chainsStorage core) (chainsLeaves core) \<and>
     tree_work_ok c (chainsStorage core) \<and> heaviest (chainsStorage core) (main_leaf core)"

text \<open>The operations on the pool keep the rest of the core.\<close>

definition same_chains :: "Core \<Rightarrow> Core \<Rightarrow> bool" where
  "same_chains core core' \<longleftrightarrow>
     chainsStorage core' = chainsStorage core \<and> chainsLeaves core' = chainsLeaves core \<and>
     mainChainSet core' = mainChainSet core \<and> mainChainStorage core' = mainChainStorage core"

lemma same_chains_refl [simp]: "same_chains core core"
  by (simp add: same_chains_def)

lemma same_chains_trans [trans]: "same_chains a b \<Longrightarrow> same_chains b c \<Longrightarrow> same_chains a c"
  by (simp add: same_chains_def)

lemma same_chains_pool [simp]: "same_chains core (core \<lparr> core_pool := p \<rparr>)"
  by (simp add: same_chains_def)

lemma same_chains_median [simp]: "same_chains core (updateBlockMedianSize env core)"
  by (simp add: same_chains_def updateBlockMedianSize_def Let_def)

lemma core_inv_same: "same_chains core core' \<Longrightarrow> core_inv c core' = core_inv c core"
  by (simp add: same_chains_def core_inv_def)

lemma addTransactionToPool_same: "addTransactionToPool env ct core = Inr (r, core') \<Longrightarrow> same_chains core core'"
  by (auto simp: addTransactionToPool_def bindE_eq_Inr split: if_splits option.splits)

lemma addTransactionToPool_blob_same: "addTransactionToPool_blob env ba core = Inr (r, core') \<Longrightarrow> same_chains core core'"
  by (auto simp: addTransactionToPool_blob_def addTransactionToPool_same split: sum.splits)

lemma actualize_loop_same: "actualize_loop env hs core = Inr core' \<Longrightarrow> same_chains core core'"
proof (induction hs arbitrary: core)
  case (Cons h hs)
  then obtain tx r core1 where 1: "addTransactionToPool env tx (core \<lparr> core_pool := snd (clean_removeTransaction h (core_pool core)) \<rparr>) = Inr (r, core1)"
    and 2: "actualize_loop env hs core1 = Inr core'" by (auto simp: bindE_eq_Inr)
  have "same_chains core core1" using same_chains_trans [OF same_chains_pool addTransactionToPool_same [OF 1]] .
  then show ?case using Cons.IH [OF 2] same_chains_trans by blast
qed simp

lemma actualize_lite_loop_same: "actualize_lite_loop env st hs core = Inr core' \<Longrightarrow> same_chains core core'"
proof (induction hs arbitrary: core)
  case (Cons h hs)
  then obtain b where "actualize_lite_loop env st hs
      (if b then core \<lparr> core_pool := snd (clean_removeTransaction h (core_pool core)) \<rparr> else core) = Inr core'"
    by (auto simp: bindE_eq_Inr)
  from Cons.IH [OF this] show ?case by (cases b) (auto intro: same_chains_trans [OF same_chains_pool])
qed simp

lemma add_raw_loop_same: "add_raw_loop env raws core = Inr core' \<Longrightarrow> same_chains core core'"
proof (induction raws arbitrary: core)
  case (Cons raw raws)
  then obtain ba r core1 where 1: "addTransactionToPool_blob env ba core = Inr (r, core1)" and 2: "add_raw_loop env raws core1 = Inr core'"
    by (auto simp: bindE_eq_Inr)
  show ?case using same_chains_trans [OF addTransactionToPool_blob_same [OF 1] Cons.IH [OF 2]] .
qed simp

lemma copy_loop_same: "copy_loop env as core = Inr core' \<Longrightarrow> same_chains core core'"
proof (induction as arbitrary: core)
  case (Cons a as)
  show ?case
  proof (cases "a \<in> mainChainSet core")
    case False
    then obtain core1 where "add_raw_loop env (raw_transactions (sn_cache (chainsStorage core ! a))) core = Inr core1" "copy_loop env as core1 = Inr core'"
      using Cons.prems by (auto simp: bindE_eq_Inr)
    then show ?thesis using same_chains_trans [OF add_raw_loop_same Cons.IH] by blast
  qed (use Cons.prems in simp)
qed simp

lemma remove_included_same: "remove_included txs core = Inr core' \<Longrightarrow> same_chains core core'"
  by (auto simp: remove_included_def split: if_splits)

lemma actualizePoolTransactions_same: "actualizePoolTransactions env core = Inr core' \<Longrightarrow> same_chains core core'"
  by (simp add: actualizePoolTransactions_def actualize_loop_same)

lemma actualizePoolTransactionsLite_same: "actualizePoolTransactionsLite env st core = Inr core' \<Longrightarrow> same_chains core core'"
  by (simp add: actualizePoolTransactionsLite_def actualize_lite_loop_same)

lemma copyTransactionsToPool_same: "copyTransactionsToPool env a core = Inr core' \<Longrightarrow> same_chains core core'"
  by (simp add: copyTransactionsToPool_def copy_loop_same)

text \<open>A block that was accepted for segment \<open>a\<close> and is new to the core.\<close>

definition insertable :: "validation_env \<Rightarrow> accepted_block \<Rightarrow> hash \<Rightarrow> nat \<Rightarrow> Core \<Rightarrow> bool" where
  "insertable env ab h a core \<longleftrightarrow>
     a < length (chainsStorage core) \<and>
     block_accepted env (segment_chain (chainsStorage core) a) ab \<and> within_limits env ab (segment_chain (chainsStorage core) a) \<and>
     fst (getBlockHash (ab_block ab)) = Inr h \<and> findSegmentContainingBlock core h = None \<and>
     fst (getBlockIndex (ab_block ab)) = Inr (of_nat (ab_previous ab + 1))"

lemma first_found_None: "first_found f xs = None \<longleftrightarrow> (\<forall>x \<in> set xs. f x = None)"
  by (induction xs) (auto split: option.split)

lemma leaf_no_block:
  assumes "core_inv c core" "findSegmentContainingBlock core h = None" "a \<in> set (chainsLeaves core)"
  shows "\<not> hasBlock (sn_cache (chainsStorage core ! a)) h"
proof -
  have l: "chainsLeaves core \<noteq> []" "a < length (chainsStorage core)" "tree_ok (chainsStorage core)"
    using assms by (auto simp: core_inv_def leaves_ok_def)
  have "findIndexInChain (chainsStorage core) a h = None"
    using assms(2,3) l(1)
    by (cases "chainsLeaves core") (auto simp: findSegmentContainingBlock_def findMainChainSegmentContainingBlock_def
        findAlternativeSegmentContainingBlock_def first_found_None split: option.splits)
  then show ?thesis using tree_path(3) [OF l(3,2)] by (auto simp: findIndexInChain_def find_None_iff)
qed

lemma accepted_index:
  assumes "block_accepted env (segment_chain st a) ab" "tree_ok st" "a < length st"
  shows "bc_startIndex (sn_cache (st ! a)) \<le> ab_previous ab"
    "ab_previous ab < bc_startIndex (sn_cache (st ! a)) + length (bc_blockInfos (sn_cache (st ! a)))"
    "length (node_infos st a) = bc_startIndex (sn_cache (st ! a)) + length (bc_blockInfos (sn_cache (st ! a)))"
proof -
  obtain ps where ch: "segment_chain st a = sn_cache (st ! a) # ps" using tree_path(4) [OF assms(2,3)] by blast
  have "cache_getBlockIndex (sn_cache (st ! a)) (previousBlockHash (cb_block (ab_block ab))) = Some (ab_previous ab)"
    using assms(1) unfolding block_accepted_def Let_def ch by simp
  from block_in_segment [OF this] show "bc_startIndex (sn_cache (st ! a)) \<le> ab_previous ab"
    "ab_previous ab < bc_startIndex (sn_cache (st ! a)) + length (bc_blockInfos (sn_cache (st ! a)))" by simp_all
  show "length (node_infos st a) = bc_startIndex (sn_cache (st ! a)) + length (bc_blockInfos (sn_cache (st ! a)))"
    using tree_path(2) [OF assms(2,3)] by (simp add: ch segment_ok_def)
qed

lemma insertable_fits:
  assumes ins: "insertable env ab h a core" and inv: "core_inv c core"
    and upto: "chain_upto (ab_previous ab) (segment_chain (chainsStorage core) a) ch" and nb: "\<not> hasBlock (hd ch) h"
  shows "fits_on ab h ch"
  using ins inv tree_path(2) [of "chainsStorage core" a]
  by (intro accepted_fits [OF _ _ _ upto _ nb, of env]) (simp_all add: insertable_def core_inv_def)

lemma main_leaf_facts:
  assumes "core_inv c core"
  shows "main_leaf core \<in> set (chainsLeaves core)" "main_leaf core < length (chainsStorage core)"
    "sn_children (chainsStorage core ! main_leaf core) = []"
  using assms hd_in_set [of "chainsLeaves core"] by (auto simp: core_inv_def leaves_ok_def)

lemma hasBlock_empty [simp]: "\<not> hasBlock (empty_segment n) h"
  by (simp add: hasBlock_def empty_segment_def)

lemma push_leaf_effect:
  assumes inv: "core_inv (ve_currency env) core" and ins: "insertable env ab h a core"
    and a: "a \<in> set (chainsLeaves core)" and top: "getTopBlockIndex (sn_cache (chainsStorage core ! a)) = ab_previous ab"
  obtains st' where "push_node ab a (chainsStorage core) = Some st'" "tree_ok st'" "leaves_ok st' (chainsLeaves core)"
    "tree_work_ok (ve_currency env) st'" "length st' = length (chainsStorage core)"
    "\<And>x. x < length (chainsStorage core) \<Longrightarrow> x \<noteq> a \<Longrightarrow> segment_chain st' x = segment_chain (chainsStorage core) x"
    "pushed_on ab h (segment_chain (chainsStorage core) a) (segment_chain st' a)"
    "total_work (node_infos (chainsStorage core) a) \<le> total_work (node_infos st' a)"
proof -
  let ?st = "chainsStorage core"
  have t: "tree_ok ?st" "leaves_ok ?st (chainsLeaves core)" "tree_work_ok (ve_currency env) ?st" using inv by (simp_all add: core_inv_def)
  have i: "a < length ?st" "block_accepted env (segment_chain ?st a) ab" "within_limits env ab (segment_chain ?st a)" "findSegmentContainingBlock core h = None"
    using ins by (simp_all add: insertable_def)
  have kids: "sn_children (?st ! a) = []" using t(2) a by (simp add: leaves_ok_def)
  note idx = accepted_index [OF i(2) t(1) i(1)]
  have len: "length (node_infos ?st a) = ab_previous ab + 1" using top idx by (simp add: getTopBlockIndex_def)
  have hd: "hd (segment_chain ?st a) = sn_cache (?st ! a)" using tree_path(4) [OF t(1) i(1)] by auto
  have fits: "fits_on ab h (segment_chain ?st a)"
    by (rule insertable_fits [OF ins inv upto_top [OF tree_path(2) [OF t(1) i(1)] len]])
      (use leaf_no_block [OF inv i(4) a] hd in simp)
  obtain st' where st': "push_node ab a ?st = Some st'" "tree_ok st'" "leaves_ok st' (chainsLeaves core)" "inserted ab h a a ?st st'"
    "length st' = length ?st" "\<And>x. x < length ?st \<Longrightarrow> x \<noteq> a \<Longrightarrow> segment_chain st' x = segment_chain ?st x"
    "pushed_on ab h (segment_chain ?st a) (segment_chain st' a)"
    by (rule push_effect [OF t(1,2) i(1) kids len fits]) blast
  note w = inserted_work [OF t(1,3) i(1,2,3) st'(4)]
  have "total_work (node_infos ?st a) = work_at (node_infos ?st a) (ab_previous ab)"
    using len by (subst last_conv_nth) auto
  then have "total_work (node_infos ?st a) \<le> total_work (node_infos st' a)" using w(2) by simp
  then show ?thesis using that [of st'] st' w(1) by blast
qed

lemma heaviest_push:
  assumes h: "heaviest st m" and m: "m < length st" and len: "length st' = length st"
    and same: "\<And>x. x < length st \<Longrightarrow> x \<noteq> a \<Longrightarrow> segment_chain st' x = segment_chain st x"
    and up: "total_work (node_infos st a) \<le> total_work (node_infos st' a)"
  shows "m = a \<Longrightarrow> heaviest st' a"
    "m \<noteq> a \<Longrightarrow> total_work (node_infos st' m) \<le> total_work (node_infos st' a) \<Longrightarrow> heaviest st' a"
    "m \<noteq> a \<Longrightarrow> total_work (node_infos st' a) \<le> total_work (node_infos st' m) \<Longrightarrow> heaviest st' m"
proof -
  have x: "total_work (node_infos st' x) \<le> total_work (node_infos st m)" if "x < length st" "x \<noteq> a" for x
    using h same [OF that] that(1) by (simp add: heaviest_def)
  show "m = a \<Longrightarrow> heaviest st' a" unfolding heaviest_def len using x up by (metis le_refl order.trans)
  show "m \<noteq> a \<Longrightarrow> total_work (node_infos st' m) \<le> total_work (node_infos st' a) \<Longrightarrow> heaviest st' a"
    unfolding heaviest_def len using x same [OF m] by (metis le_refl order.trans)
  show "m \<noteq> a \<Longrightarrow> total_work (node_infos st' a) \<le> total_work (node_infos st' m) \<Longrightarrow> heaviest st' m"
    unfolding heaviest_def len using x same [OF m] by metis
qed

lemma add_to_main_inv:
  assumes inv: "core_inv (ve_currency env) core" and ins: "insertable env ab h (main_leaf core) core"
    and top: "getTopBlockIndex (sn_cache (chainsStorage core ! main_leaf core)) = ab_previous ab"
    and add: "add_to_main env ab core = Inr (ret, core')"
  shows "core_inv (ve_currency env) core'" "pushed_on ab h (main_chain core) (main_chain core')"
    "chainsLeaves core' = chainsLeaves core" "mainChainStorage core' = mainChainStorage core @ [ab_raw ab]"
proof -
  note m = main_leaf_facts [OF inv]
  obtain st' where st': "push_node ab (main_leaf core) (chainsStorage core) = Some st'" "tree_ok st'" "leaves_ok st' (chainsLeaves core)"
    "tree_work_ok (ve_currency env) st'" "length st' = length (chainsStorage core)"
    "\<And>x. x < length (chainsStorage core) \<Longrightarrow> x \<noteq> main_leaf core \<Longrightarrow> segment_chain st' x = segment_chain (chainsStorage core) x"
    "pushed_on ab h (main_chain core) (segment_chain st' (main_leaf core))"
    "total_work (node_infos (chainsStorage core) (main_leaf core)) \<le> total_work (node_infos st' (main_leaf core))"
    by (rule push_leaf_effect [OF inv ins m(1) top]) blast
  let ?core1 = "core \<lparr> chainsStorage := st', mainChainStorage := mainChainStorage core @ [ab_raw ab] \<rparr>"
  have "heaviest st' (main_leaf core)"
    by (rule heaviest_push(1) [OF _ m(2) st'(5,6,8)]) (use inv in \<open>simp_all add: core_inv_def\<close>)
  then have i1: "core_inv (ve_currency env) ?core1" using st' by (simp add: core_inv_def)
  obtain core1 where "remove_included (ab_transactions ab) (updateBlockMedianSize env ?core1) = Inr core1"
    "actualizePoolTransactionsLite env (ab_state ab) core1 = Inr core'"
    using add st'(1) by (auto simp: add_to_main_def Let_def bindE_eq_Inr)
  then have same: "same_chains ?core1 core'"
    using same_chains_trans [OF same_chains_median] remove_included_same actualizePoolTransactionsLite_same same_chains_trans by blast
  show "core_inv (ve_currency env) core'" using i1 core_inv_same [OF same] by simp
  show "pushed_on ab h (main_chain core) (main_chain core')" "chainsLeaves core' = chainsLeaves core"
    "mainChainStorage core' = mainChainStorage core @ [ab_raw ab]" using same st'(7) by (simp_all add: same_chains_def)
qed

lemma position_Some: "position (\<lambda>l. l = a) xs = Some i \<Longrightarrow> i < length xs \<and> xs ! i = a"
  by (induction xs arbitrary: i) (auto split: if_splits)

lemma position_None: "position (\<lambda>l. l = a) xs = None \<longleftrightarrow> a \<notin> set xs"
  by (induction xs) auto

lemma swap_leaf_result:
  assumes "a \<in> set leaves" "distinct leaves"
  shows "hd (swap_leaf a leaves) = a" "set (swap_leaf a leaves) = set leaves" "distinct (swap_leaf a leaves)"
proof -
  obtain i where p: "position (\<lambda>l. l = a) leaves = Some i" using assms(1) position_None [of a leaves] by fastforce
  note i = position_Some [OF p]
  have pos: "0 < length leaves" using i by linarith
  have s: "swap_leaf a leaves = leaves[0 := leaves ! i, i := leaves ! 0]" by (simp add: swap_leaf_def p)
  have m: "mset (swap_leaf a leaves) = mset leaves" unfolding s using mset_swap [of i leaves 0] i pos by simp
  have "swap_leaf a leaves ! 0 = a" unfolding s using i pos by (cases "i = 0") auto
  moreover have "swap_leaf a leaves \<noteq> []" unfolding s using pos by simp
  ultimately show "hd (swap_leaf a leaves) = a" by (simp add: hd_conv_nth)
  show "set (swap_leaf a leaves) = set leaves" "distinct (swap_leaf a leaves)"
    using m assms(2) by (metis set_mset_mset, metis mset_eq_imp_distinct_iff)
qed

lemma own_last:
  assumes "tree_ok st" "l < length st"
  shows "last (bc_blockInfos (sn_cache (st ! l))) = last (node_infos st l)"
  using tree_path(2,4) [OF assms] by (auto simp: last_append)

lemma add_to_leaf_inv:
  assumes inv: "core_inv (ve_currency env) core" and ins: "insertable env ab h a core" and a: "a \<in> set (chainsLeaves core)" "a \<noteq> main_leaf core"
    and top: "getTopBlockIndex (sn_cache (chainsStorage core ! a)) = ab_previous ab"
    and add: "add_to_leaf env ab a core = Inr (ret, core')"
  shows "core_inv (ve_currency env) core'"
    "ret = ADDED_TO_ALTERNATIVE \<and> main_chain core' = main_chain core \<and> core_pool core' = core_pool core \<and> mainChainStorage core' = mainChainStorage core \<or>
     ret = ADDED_TO_ALTERNATIVE_AND_SWITCHED \<and> total_work (flat_infos (main_chain core)) < total_work (flat_infos (main_chain core')) \<and>
     pushed_on ab h (segment_chain (chainsStorage core) a) (main_chain core')"
proof -
  let ?c = "ve_currency env" and ?m = "main_leaf core"
  note m = main_leaf_facts [OF inv]
  obtain st' where st': "push_node ab a (chainsStorage core) = Some st'" "tree_ok st'" "leaves_ok st' (chainsLeaves core)"
    "tree_work_ok ?c st'" "length st' = length (chainsStorage core)"
    "\<And>x. x < length (chainsStorage core) \<Longrightarrow> x \<noteq> a \<Longrightarrow> segment_chain st' x = segment_chain (chainsStorage core) x"
    "pushed_on ab h (segment_chain (chainsStorage core) a) (segment_chain st' a)"
    "total_work (node_infos (chainsStorage core) a) \<le> total_work (node_infos st' a)"
    by (rule push_leaf_effect [OF inv ins a(1) top]) blast
  have al: "a < length st'" using ins st'(5) by (simp add: insertable_def)
  have h: "heaviest (chainsStorage core) ?m" using inv by (simp add: core_inv_def)
  note hp = heaviest_push [OF h m(2) st'(5,6,8)]
  have main: "segment_chain st' ?m = main_chain core" using st'(6) [OF m(2)] a(2) by simp
  let ?D = "\<lambda>l. cbi_cumulativeDifficulty (last (bc_blockInfos (sn_cache (st' ! l))))"
  have D: "?D a > ?D ?m \<longleftrightarrow> total_work (node_infos st' ?m) < total_work (node_infos st' a)"
    using own_last [OF st'(2) al] own_last [OF st'(2), of ?m] m(2) st'(5) by (simp add: word_less_unat)
  have "core_inv ?c core' \<and>
    (ret = ADDED_TO_ALTERNATIVE \<and> main_chain core' = main_chain core \<and> core_pool core' = core_pool core \<and> mainChainStorage core' = mainChainStorage core \<or>
     ret = ADDED_TO_ALTERNATIVE_AND_SWITCHED \<and> total_work (flat_infos (main_chain core)) < total_work (flat_infos (main_chain core')) \<and>
     pushed_on ab h (segment_chain (chainsStorage core) a) (main_chain core'))"
  proof (cases "?D a > ?D ?m")
    case False
    then have c': "core' = core \<lparr> chainsStorage := st' \<rparr>" "ret = ADDED_TO_ALTERNATIVE"
      using add by (simp_all add: add_to_leaf_def Let_def st'(1) the_or_undefined_def)
    moreover have "heaviest st' ?m"
    proof (rule hp(3))
      show "total_work (node_infos st' a) \<le> total_work (node_infos st' ?m)" using False unfolding D by (rule leI)
    qed (assumption | rule a(2) [symmetric])+
    ultimately show ?thesis using st'(2-4) main by (simp add: core_inv_def)
  next
    case True
    have s: "hd (swap_leaf a (chainsLeaves core)) = a" "leaves_ok st' (swap_leaf a (chainsLeaves core))"
      using swap_leaf_result [OF a(1)] st'(3) a(1) unfolding leaves_ok_def by (simp, metis empty_iff empty_set)
    have hv: "heaviest st' a"
    proof (rule hp(2))
      show "total_work (node_infos st' ?m) \<le> total_work (node_infos st' a)" using True unfolding D by (rule less_imp_le)
    qed (assumption | rule a(2) [symmetric])+
    let ?core1 = "updateBlockMedianSize env (updateMainChainSet (core \<lparr> chainsStorage := st', chainsLeaves := swap_leaf a (chainsLeaves core) \<rparr>))"
    have "add_to_leaf env ab a core =
       bindE (remove_included (ab_transactions ab) ?core1) (\<lambda>core.
       bindE (actualizePoolTransactions env core) (\<lambda>core.
       bindE (copyTransactionsToPool env ?m core) (\<lambda>core.
       bindE (the_or_undefined (switchMainChainStorage (bc_startIndex (sn_cache (st' ! a))) (main_chain core) (mainChainStorage core))) (\<lambda>storage.
       Inr (ADDED_TO_ALTERNATIVE_AND_SWITCHED, core \<lparr> mainChainStorage := storage \<rparr>)))))"
      using True by (simp add: add_to_leaf_def st'(1) the_or_undefined_def)
    from add [unfolded this]
    obtain core1 core2 core3 storage where x: "remove_included (ab_transactions ab) ?core1 = Inr core1"
      "actualizePoolTransactions env core1 = Inr core2" "copyTransactionsToPool env ?m core2 = Inr core3"
      "core' = core3 \<lparr> mainChainStorage := storage \<rparr>" "ret = ADDED_TO_ALTERNATIVE_AND_SWITCHED"
      unfolding bindE_eq_Inr sum.inject prod.inject by (elim exE conjE) (rule that, assumption+, (rule sym, assumption)+)
    have "same_chains ?core1 core3"
      using remove_included_same [OF x(1)] actualizePoolTransactions_same [OF x(2)] copyTransactionsToPool_same [OF x(3)] same_chains_trans by blast
    then have "chainsStorage core' = st'" "chainsLeaves core' = swap_leaf a (chainsLeaves core)"
      using x(4) by (simp_all add: same_chains_def updateBlockMedianSize_def updateMainChainSet_def Let_def)
    moreover have "total_work (flat_infos (main_chain core)) < total_work (node_infos st' a)" using True main unfolding D by simp
    ultimately show ?thesis using st'(2,4,7) s hv x(5) by (simp add: core_inv_def)
  qed
  then show "core_inv ?c core'"
    "ret = ADDED_TO_ALTERNATIVE \<and> main_chain core' = main_chain core \<and> core_pool core' = core_pool core \<and> mainChainStorage core' = mainChainStorage core \<or>
     ret = ADDED_TO_ALTERNATIVE_AND_SWITCHED \<and> total_work (flat_infos (main_chain core)) < total_work (flat_infos (main_chain core')) \<and>
     pushed_on ab h (segment_chain (chainsStorage core) a) (main_chain core')" by (rule conjunct1, rule conjunct2)
qed

text \<open>A block beside the main chain leaves it the heaviest.\<close>

lemma beside_inv:
  assumes inv: "core_inv (ve_currency env) core" and ins: "insertable env ab h a core"
    and st: "tree_ok st'" "leaves_ok st' leaves" "inserted ab h a new (chainsStorage core) st'"
    and main: "same_flat (main_chain core) (segment_chain st' (hd leaves))"
    and inside: "ab_previous ab + 1 < length (node_infos (chainsStorage core) a) \<or> sn_children (chainsStorage core ! a) \<noteq> []"
    and core': "chainsStorage core' = st'" "chainsLeaves core' = leaves"
  shows "core_inv (ve_currency env) core'" "same_flat (main_chain core) (main_chain core')"
proof -
  let ?st = "chainsStorage core" and ?m = "main_leaf core"
  have t: "tree_ok ?st" "tree_work_ok (ve_currency env) ?st" "heaviest ?st ?m" using inv by (simp_all add: core_inv_def)
  have i: "a < length ?st" "block_accepted env (segment_chain ?st a) ab" "within_limits env ab (segment_chain ?st a)"
    using ins by (simp_all add: insertable_def)
  note w = inserted_work [OF t(1,2) i st(3)]
  obtain ch where ch: "chain_upto (ab_previous ab) (segment_chain ?st a) ch" "pushed_on ab h ch (segment_chain st' new)"
    using st(3) unfolding inserted_def by blast
  have d: "flat_difficulty (ve_currency env) (take (ab_previous ab + 1) (node_infos ?st a)) = Some (ab_difficulty ab)"
    by (rule new_block_work(3) [OF t(1,2) i ch])
  have b: "ab_previous ab < length (node_infos ?st a)" using ch(1) by (simp add: chain_upto_def)
  have eq: "total_work (node_infos st' (hd leaves)) = total_work (node_infos ?st ?m)" using main by (simp add: same_flat_def)
  have "\<exists>y < length ?st. total_work (node_infos st' x) \<le> total_work (node_infos ?st y)" if "x < length st'" for x
    using w(2,3) work_inside [OF t(1,2) i(1) d b inside] that by (cases "x = new") auto
  then have "heaviest st' (hd leaves)" using t(3) unfolding heaviest_def eq by (meson order.trans)
  then show "core_inv (ve_currency env) core'" using st(1,2) w(1) core' by (simp add: core_inv_def)
  show "same_flat (main_chain core) (main_chain core')" using main core' by simp
qed

lemma add_fork_inv:
  assumes inv: "core_inv (ve_currency env) core" and ins: "insertable env ab h a core"
    and top: "getTopBlockIndex (sn_cache (chainsStorage core ! a)) = ab_previous ab" and kids: "sn_children (chainsStorage core ! a) \<noteq> []"
    and add: "add_fork env ab a core = Inr (ret, core')"
  shows "core_inv (ve_currency env) core'" "same_flat (main_chain core) (main_chain core')"
    "core_pool core' = core_pool core" "mainChainStorage core' = mainChainStorage core" "ret = ADDED_TO_ALTERNATIVE"
proof -
  let ?st = "chainsStorage core" and ?l = "chainsLeaves core"
  have t: "tree_ok ?st" "leaves_ok ?st ?l" using inv by (simp_all add: core_inv_def)
  have i: "a < length ?st" "block_accepted env (segment_chain ?st a) ab" using ins by (simp_all add: insertable_def)
  note idx = accepted_index [OF i(2) t(1) i(1)]
  have len: "length (node_infos ?st a) = ab_previous ab + 1" using top idx by (simp add: getTopBlockIndex_def)
  note up = upto_top [OF tree_path(2) [OF t(1) i(1)] len]
  have fits: "fits_on ab h (empty_segment (ab_previous ab + 1) # segment_chain ?st a)"
    by (rule insertable_fits [OF ins inv upto_empty [OF up]]) simp
  obtain st' where st': "push_node ab (length ?st) (fork_node (ab_previous ab + 1) a ?st) = Some st'" "tree_ok st'"
    "leaves_ok st' (?l @ [length ?st])" "length st' = Suc (length ?st)"
    "\<And>x. x < length ?st \<Longrightarrow> segment_chain st' x = segment_chain ?st x"
    "\<exists>ch. chain_upto (ab_previous ab) (segment_chain ?st a) ch \<and> pushed_on ab h ch (segment_chain st' (length ?st))"
    by (rule fork_effect [OF t i(1) kids up fits]) metis
  have c': "core' = updateBlockMedianSize env (updateMainChainSet (core \<lparr> chainsStorage := st', chainsLeaves := ?l @ [length ?st] \<rparr>))" "ret = ADDED_TO_ALTERNATIVE"
    using add st'(1) by (simp_all add: add_fork_def the_or_undefined_def Let_def)
  have x: "chainsStorage core' = st'" "chainsLeaves core' = ?l @ [length ?st]" "core_pool core' = core_pool core" "mainChainStorage core' = mainChainStorage core"
    by (simp_all add: c'(1) updateBlockMedianSize_def updateMainChainSet_def Let_def)
  have "inserted ab h a (length ?st) ?st st'"
    unfolding inserted_def
  proof (intro conjI allI impI)
    fix x assume "x < length st'"
    then show "x = length ?st \<or> (\<exists>y<length ?st. same_flat (segment_chain ?st y) (segment_chain st' x)) \<or>
        chain_upto (ab_previous ab) (segment_chain ?st a) (segment_chain st' x)"
      using st'(4) st'(5) [of x] by (cases "x = length ?st") (auto intro!: exI [of _ x])
  qed (use st'(4,6) in simp_all)
  moreover have "same_flat (main_chain core) (segment_chain st' (hd (?l @ [length ?st])))"
    using st'(5) [OF main_leaf_facts(2) [OF inv]] t(2) by (simp add: leaves_ok_def)
  ultimately have "core_inv (ve_currency env) core' \<and> same_flat (main_chain core) (main_chain core')"
    using beside_inv [OF inv ins st'(2,3) _ _ _ x(1,2)] kids by blast
  then show "core_inv (ve_currency env) core'" "same_flat (main_chain core) (main_chain core')" by simp_all
qed (use add in \<open>auto simp: add_fork_def bindE_eq_Inr Let_def updateBlockMedianSize_def updateMainChainSet_def\<close>)

lemma add_inside_inv:
  assumes inv: "core_inv (ve_currency env) core" and ins: "insertable env ab h a core"
    and top: "getTopBlockIndex (sn_cache (chainsStorage core ! a)) \<noteq> ab_previous ab"
    and add: "add_inside env ab a core = Inr (ret, core')"
  shows "core_inv (ve_currency env) core'" "same_flat (main_chain core) (main_chain core')"
    "core_pool core' = core_pool core" "mainChainStorage core' = mainChainStorage core" "ret = ADDED_TO_ALTERNATIVE"
proof -
  let ?st = "chainsStorage core" and ?l = "chainsLeaves core"
  have t: "tree_ok ?st" "leaves_ok ?st ?l" using inv by (simp_all add: core_inv_def)
  have i: "a < length ?st" "block_accepted env (segment_chain ?st a) ab" using ins by (simp_all add: insertable_def)
  note idx = accepted_index [OF i(2) t(1) i(1)]
  have b: "ab_previous ab + 1 < bc_startIndex (sn_cache (?st ! a)) + length (bc_blockInfos (sn_cache (?st ! a)))"
    using top idx(1,2) by (simp add: getTopBlockIndex_def)
  have fits: "\<And>ch. chain_upto (ab_previous ab) (segment_chain ?st a) ch \<Longrightarrow> hd ch = empty_segment (ab_previous ab + 1) \<Longrightarrow> fits_on ab h ch"
    by (rule insertable_fits [OF ins inv]) simp_all
  obtain st' where st': "push_node ab (Suc (length ?st)) (fork_node (ab_previous ab + 1) a (split_node (ab_previous ab + 1) a ?st)) = Some st'" "tree_ok st'"
    "leaves_ok st' (split_leaves ?st a ?l @ [Suc (length ?st)])" "inserted ab h a (Suc (length ?st)) ?st st'"
    "same_flat (main_chain core) (segment_chain st' (hd (split_leaves ?st a ?l)))"
    by (rule inside_effect [OF t i(1) idx(1) b fits]) blast
  obtain up low where sp: "split_segment (ab_previous ab + 1) (sn_cache (?st ! a)) = (up, low)"
    by (cases "split_segment (ab_previous ab + 1) (sn_cache (?st ! a))")
  have "sn_children (split_node (ab_previous ab + 1) a ?st ! length ?st) = sn_children (?st ! a)"
    using split_nodes [OF t(1) i(1) sp] by simp
  then have c': "core' = updateMainChainSet (core \<lparr> chainsStorage := st', chainsLeaves := split_leaves ?st a ?l @ [Suc (length ?st)] \<rparr>)"
    using add st'(1) by (simp add: add_inside_def the_or_undefined_def split_leaves_def Let_def)
  have x: "chainsStorage core' = st'" "chainsLeaves core' = split_leaves ?st a ?l @ [Suc (length ?st)]"
    by (simp_all add: c' updateMainChainSet_def)
  have "split_leaves ?st a ?l \<noteq> []" using t(2) by (simp add: leaves_ok_def split_leaves_def)
  then have "same_flat (main_chain core) (segment_chain st' (hd (split_leaves ?st a ?l @ [Suc (length ?st)])))" using st'(5) by simp
  moreover have "ab_previous ab + 1 < length (node_infos ?st a)" using b idx(3) by simp
  ultimately show "core_inv (ve_currency env) core'" "same_flat (main_chain core) (main_chain core')"
    using beside_inv [OF inv ins st'(2,3,4) _ _ x] by blast+
qed (use add in \<open>auto simp: add_inside_def bindE_eq_Inr Let_def updateMainChainSet_def\<close>)

section \<open>The pool beside the main chain\<close>

abbreviation core_pending :: "Core \<Rightarrow> PendingTransactionInfo list" where
  "core_pending core \<equiv> pool_transactions (transactionPool (core_pool core))"

definition unspent_on :: "chain \<Rightarrow> PendingTransactionInfo \<Rightarrow> bool" where
  "unspent_on ch p \<longleftrightarrow> (\<forall>ki \<in> set (pending_images p). flat_spent ki ch = None)"

abbreviation distinct_pool :: "Core \<Rightarrow> bool" where
  "distinct_pool core \<equiv> distinct (map pending_hash (core_pending core))"

text \<open>The hashes of the pool are distinct, and it spends nothing that the main chain has spent.\<close>

definition pool_clear :: "Core \<Rightarrow> bool" where
  "pool_clear core \<longleftrightarrow> distinct_pool core \<and> list_all (unspent_on (main_chain core)) (core_pending core)"

lemma remove_pending:
  assumes "distinct (map pending_hash (pool_transactions (transactionPool w)))"
  shows "pool_transactions (transactionPool (snd (clean_removeTransaction h w))) =
    filter (\<lambda>p. pending_hash p \<noteq> h) (pool_transactions (transactionPool w))"
  using remove_transactions [OF assms, of h] by (simp add: clean_removeTransaction_def split_beta)



lemma clean_push_pending:
  assumes "clean_pushTransaction now ct st w = Inr (r, w')" "distinct (map pending_hash (pool_transactions (transactionPool w)))"
  shows "distinct (map pending_hash (pool_transactions (transactionPool w')))"
    "p \<in> set (pool_transactions (transactionPool w')) \<Longrightarrow> p \<in> set (pool_transactions (transactionPool w)) \<or> cachedTransaction p = ct"
proof -
  obtain h where h: "fst (getTransactionHash ct) = Inr h" using assms(1) by (auto simp: clean_pushTransaction_def bindE_eq_Inr)
  let ?q = "\<lparr> receiveTime = now, cachedTransaction = ct, paymentId = getPaymentIdFromTxExtra (extra (ct_transaction ct)) \<rparr>"
  consider "w' = w" | "transactionPool w' = transactionPool w" | "find_pending (transactionPool w) h = None"
      "pool_transactions (transactionPool w') = insert_by_cost ?q (pool_transactions (transactionPool w))"
    using assms(1) h by (auto simp: clean_pushTransaction_def pushTransaction_def bindE_eq_Inr Let_def split: if_splits)
  note c = this
  have q: "pending_hash ?q = h" using h by (simp add: pending_hash_def)
  show "distinct (map pending_hash (pool_transactions (transactionPool w')))"
    using c
  proof cases
    case 3
    have "mset (map pending_hash (insert_by_cost ?q (pool_transactions (transactionPool w)))) =
        mset (map pending_hash (?q # pool_transactions (transactionPool w)))" by (simp add: mset_insert_by_cost)
    moreover have "distinct (map pending_hash (?q # pool_transactions (transactionPool w)))"
      using assms(2) 3(1) q by (simp add: find_pending_None)
    ultimately show ?thesis unfolding 3(2) by (rule mset_eq_imp_distinct_iff [THEN iffD2])
  qed (use assms(2) in simp_all)
  show "p \<in> set (pool_transactions (transactionPool w')) \<Longrightarrow> p \<in> set (pool_transactions (transactionPool w)) \<or> cachedTransaction p = ct"
    using c by cases (auto simp: set_insert_by_cost)
qed

text \<open>The top of the main chain is above the checkpoints.\<close>

definition above_checkpoints :: "validation_env \<Rightarrow> Core \<Rightarrow> bool" where
  "above_checkpoints env core \<longleftrightarrow>
     chain_ok (main_chain core) \<and> main_chain core \<noteq> [] \<and>
     \<not> isInCheckpointZone (ve_checkpoints env) (of_nat (getTopBlockIndex (hd (main_chain core)) + 1))"

lemma above_same: "same_chains core core' \<Longrightarrow> above_checkpoints env core' = above_checkpoints env core"
  by (simp add: above_checkpoints_def same_chains_def)

lemma main_same: "same_chains core core' \<Longrightarrow> main_chain core' = main_chain core"
  by (simp add: same_chains_def)

lemma valid_for_pool_unspent:
  assumes valid: "isTransactionValidForPool env ct core = Inr (Some st)" and above: "above_checkpoints env core"
    and p: "cachedTransaction p = ct"
  shows "unspent_on (main_chain core) p"
proof -
  let ?ch = "main_chain core" and ?ins = "inputs (ct_transaction ct)"
  let ?b = "getTopBlockIndex (hd ?ch)"
  obtain s ps where ch: "?ch = s # ps" "chain_ok (s # ps)" using above by (cases "?ch") (auto simp: above_checkpoints_def)
  have L: "length (flat_infos ?ch) = ?b + 1" using ch by (auto simp: getTopBlockIndex_def segment_ok_def Suc_diff_1)
  obtain fee where v: "validateTransaction env ct \<lparr> spentKeyImages = {} \<rparr> ?ch ?b = Inr (fee, st)"
    using valid by (auto simp: isTransactionValidForPool_def bindE_eq_Inr Let_def split: if_splits sum.splits error_code.splits)
  have "\<not> checkIfSpent_at (keyImage (?ins ! i)) ?b ?ch" if "i < length ?ins" for i
    using validateTransaction_result(4) [OF v _ that] above by (simp add: above_checkpoints_def input_authorized_def Let_def)
  note un = this
  have "flat_spent ki ?ch = None" if "ki \<in> set (key_images ?ins)" for ki
  proof (rule ccontr)
    assume "flat_spent ki ?ch \<noteq> None"
    then obtain b where b: "flat_spent ki ?ch = Some b" by blast
    have ok: "chain_ok ?ch" using ch by simp
    have "b \<le> ?b" using flat_spent_bound [OF ok b] L by simp
    then have "checkIfSpent_at ki ?b ?ch" using checkIfSpent_at_flat [OF ok] b by blast
    then show False using key_images_unspent [of ?ins "\<lambda>ki. checkIfSpent_at ki ?b ?ch" ki] un that by blast
  qed
  then show ?thesis by (simp add: unspent_on_def p)
qed

lemma addTransactionToPool_pending:
  assumes add: "addTransactionToPool env ct core = Inr (r, core')" and above: "above_checkpoints env core" and d: "distinct_pool core"
  shows "distinct_pool core'" "p \<in> set (core_pending core') \<Longrightarrow> p \<in> set (core_pending core) \<or> unspent_on (main_chain core) p"
proof -
  consider "core' = core"
    | st w where "isTransactionValidForPool env ct core = Inr (Some st)" "clean_pushTransaction (ve_now env) ct st (core_pool core) = Inr (r, w)"
        "core' = core \<lparr> core_pool := w \<rparr>"
    using add by (auto simp: addTransactionToPool_def bindE_eq_Inr split: if_splits option.splits)
  note c = this
  show "distinct_pool core'" using c by cases (use clean_push_pending(1) d in auto)
  show "p \<in> set (core_pending core') \<Longrightarrow> p \<in> set (core_pending core) \<or> unspent_on (main_chain core) p"
    using c
  proof cases
    case (2 st w)
    then show "p \<in> set (core_pending core') \<Longrightarrow> ?thesis"
      using clean_push_pending(2) [OF 2(2) d, of p] valid_for_pool_unspent [OF 2(1) above, of p] by auto
  qed simp
qed

lemma addTransactionToPool_blob_pending:
  assumes "addTransactionToPool_blob env ba core = Inr (r, core')" "above_checkpoints env core" "distinct_pool core"
  shows "distinct_pool core'" "p \<in> set (core_pending core') \<Longrightarrow> p \<in> set (core_pending core) \<or> unspent_on (main_chain core) p"
  using assms addTransactionToPool_pending [OF _ assms(2,3)] by (auto simp: addTransactionToPool_blob_def split: sum.splits)

lemma removed_above: "above_checkpoints env (core \<lparr> core_pool := w \<rparr>) = above_checkpoints env core"
  by (rule above_same) simp

lemma actualize_loop_pending:
  assumes "actualize_loop env hs core = Inr core'" "above_checkpoints env core" "distinct_pool core"
  shows "distinct_pool core' \<and>
    (\<forall>p \<in> set (core_pending core'). unspent_on (main_chain core) p \<or> p \<in> set (core_pending core) \<and> pending_hash p \<notin> set hs)"
  using assms
proof (induction hs arbitrary: core)
  case (Cons h hs)
  let ?core1 = "core \<lparr> core_pool := snd (clean_removeTransaction h (core_pool core)) \<rparr>"
  obtain tx r core2 where 1: "addTransactionToPool env tx ?core1 = Inr (r, core2)" and 2: "actualize_loop env hs core2 = Inr core'"
    using Cons.prems(1) by (auto simp: bindE_eq_Inr)
  have p1: "core_pending ?core1 = filter (\<lambda>p. pending_hash p \<noteq> h) (core_pending core)" using remove_pending [OF Cons.prems(3)] by simp
  have d1: "distinct_pool ?core1" using Cons.prems(3) unfolding p1 by (rule distinct_map_filter)
  have a1: "above_checkpoints env ?core1" using Cons.prems(2) by (simp only: removed_above)
  have s: "same_chains core core2" using same_chains_trans [OF same_chains_pool addTransactionToPool_same [OF 1]] .
  note pend = addTransactionToPool_pending [OF 1 a1 d1]
  have IH: "distinct_pool core' \<and>
    (\<forall>p \<in> set (core_pending core'). unspent_on (main_chain core) p \<or> p \<in> set (core_pending core2) \<and> pending_hash p \<notin> set hs)"
    using Cons.IH [OF 2 _ pend(1)] Cons.prems(2) above_same [OF s] main_same [OF s] by simp
  moreover have "unspent_on (main_chain core) p \<or> p \<in> set (core_pending core) \<and> pending_hash p \<noteq> h" if "p \<in> set (core_pending core2)" for p
    using pend(2) [OF that] unfolding p1 by auto
  ultimately show ?case by (metis set_ConsD)
qed simp

lemma add_raw_loop_pending:
  assumes "add_raw_loop env raws core = Inr core'" "above_checkpoints env core" "distinct_pool core"
  shows "distinct_pool core' \<and> (\<forall>p \<in> set (core_pending core'). p \<in> set (core_pending core) \<or> unspent_on (main_chain core) p)"
  using assms
proof (induction raws arbitrary: core)
  case (Cons raw raws)
  then obtain ba r core1 where 1: "addTransactionToPool_blob env ba core = Inr (r, core1)" and 2: "add_raw_loop env raws core1 = Inr core'"
    by (auto simp: bindE_eq_Inr)
  note s = addTransactionToPool_blob_same [OF 1]
  note pend = addTransactionToPool_blob_pending [OF 1 Cons.prems(2,3)]
  have "distinct_pool core' \<and> (\<forall>p \<in> set (core_pending core'). p \<in> set (core_pending core1) \<or> unspent_on (main_chain core) p)"
    using Cons.IH [OF 2 _ pend(1)] Cons.prems(2) above_same [OF s] main_same [OF s] by simp
  then show ?case using pend(2) by blast
qed simp

lemma copy_loop_pending:
  assumes "copy_loop env as core = Inr core'" "above_checkpoints env core" "distinct_pool core"
  shows "distinct_pool core' \<and> (\<forall>p \<in> set (core_pending core'). p \<in> set (core_pending core) \<or> unspent_on (main_chain core) p)"
  using assms
proof (induction as arbitrary: core)
  case (Cons a as)
  show ?case
  proof (cases "a \<in> mainChainSet core")
    case False
    then obtain core1 where 1: "add_raw_loop env (raw_transactions (sn_cache (chainsStorage core ! a))) core = Inr core1"
      and 2: "copy_loop env as core1 = Inr core'" using Cons.prems(1) by (auto simp: bindE_eq_Inr)
    note s = add_raw_loop_same [OF 1] and pend = add_raw_loop_pending [OF 1 Cons.prems(2,3)]
    have "distinct_pool core' \<and> (\<forall>p \<in> set (core_pending core'). p \<in> set (core_pending core1) \<or> unspent_on (main_chain core) p)"
      using Cons.IH [OF 2] pend Cons.prems(2) above_same [OF s] main_same [OF s] by simp
    then show ?thesis using pend by blast
  qed (use Cons.prems in simp)
qed simp

lemma actualize_lite_loop_pending:
  assumes "actualize_lite_loop env st hs core = Inr core'" "distinct_pool core"
  shows "distinct_pool core' \<and>
    (\<forall>p \<in> set (core_pending core'). p \<in> set (core_pending core) \<and>
       (pending_hash p \<in> set hs \<longrightarrow> set (pending_images p) \<inter> spentKeyImages st = {}))"
  using assms
proof (induction hs arbitrary: core)
  case (Cons h hs)
  obtain q b where q: "find_pending (transactionPool (core_pool core)) h = Some q"
    and stale: "(if hasIntersections st (extractSpentOutputs (cachedTransaction q)) then Inr True
            else bindE (liftE (fst (getTransactionBinaryArray (cachedTransaction q)))) (\<lambda>ba.
                 Inr (of_nat (length ba) > getMaximumTransactionAllowedSize (blockMedianSize core) (ve_currency env)))) = Inr b"
    and loop: "actualize_lite_loop env st hs
      (if b then core \<lparr> core_pool := snd (clean_removeTransaction h (core_pool core)) \<rparr> else core) = Inr core'"
    using Cons.prems(1) unfolding actualize_lite_loop.simps bindE_eq_Inr [of "the_or_undefined _"] pool_getTransaction_def
    by (auto elim!: bindE_InrE simp del: bindE_simps)
  have b: "hasIntersections st (extractSpentOutputs (cachedTransaction q)) \<Longrightarrow> b" using stale by (auto split: if_splits)
  let ?core1 = "if b then core \<lparr> core_pool := snd (clean_removeTransaction h (core_pool core)) \<rparr> else core"
  note q' = find_pending_Some [OF q]
  have p1: "core_pending ?core1 = filter (\<lambda>p. b \<longrightarrow> pending_hash p \<noteq> h) (core_pending core)"
    using remove_pending [OF Cons.prems(2), of h] by simp
  have "distinct_pool ?core1" using Cons.prems(2) unfolding p1 by (rule distinct_map_filter)
  note IH = Cons.IH [OF loop this]
  have "set (pending_images p) \<inter> spentKeyImages st = {}" if "p \<in> set (core_pending ?core1)" "pending_hash p = h" for p
  proof -
    have nb: "\<not> b" "p \<in> set (core_pending core)" using that p1 by auto
    then have "p = q" using distinct_map_unique [OF Cons.prems(2)] q' that(2) by blast
    then show ?thesis using b nb(1) by (auto simp: hasIntersections_def extractSpentOutputs_def)
  qed
  then show ?case using IH p1 by auto
qed simp

lemma remove_fold_pending:
  "distinct (map pending_hash (pool_transactions (transactionPool w))) \<Longrightarrow>
    distinct (map pending_hash (pool_transactions (transactionPool (fold (\<lambda>tx w. snd (clean_removeTransaction (g tx) w)) txs w)))) \<and>
    set (pool_transactions (transactionPool (fold (\<lambda>tx w. snd (clean_removeTransaction (g tx) w)) txs w))) \<subseteq>
      set (pool_transactions (transactionPool w))"
proof (induction txs arbitrary: w)
  case (Cons tx txs)
  have "distinct (map pending_hash (pool_transactions (transactionPool (snd (clean_removeTransaction (g tx) w)))))"
    unfolding remove_pending [OF Cons.prems] using Cons.prems by (rule distinct_map_filter)
  from Cons.IH [OF this] show ?case using remove_pending [OF Cons.prems, of "g tx"] by auto
qed simp

lemma remove_included_pending:
  assumes "remove_included txs core = Inr core'" "distinct_pool core"
  shows "distinct_pool core' \<and> set (core_pending core') \<subseteq> set (core_pending core)"
  using assms(1) remove_fold_pending [OF assms(2), of "\<lambda>tx. projr (fst (getTransactionHash tx))" txs]
  by (auto simp: remove_included_def split: if_splits)

section \<open>Adding a block\<close>

lemma zone_above: "\<not> isInCheckpointZone points (of_nat i) \<Longrightarrow> i \<le> j \<Longrightarrow> j < 2 ^ 32 \<Longrightarrow> \<not> isInCheckpointZone points (of_nat j)"
  by (auto simp: isInCheckpointZone_def word_le_nat_alt unat_of_nat)

lemma top_index: "chain_ok ch \<Longrightarrow> ch \<noteq> [] \<Longrightarrow> getTopBlockIndex (hd ch) + 1 = length (flat_infos ch)"
  by (cases ch) (auto simp: getTopBlockIndex_def segment_ok_def)

lemma core_inv_chain: "core_inv c core \<Longrightarrow> chain_ok (main_chain core) \<and> main_chain core \<noteq> []"
  using tree_path(2,4) [of "chainsStorage core" "main_leaf core"] main_leaf_facts(2) [of c core] by (auto simp: core_inv_def)

lemma above_new_block:
  assumes inv: "core_inv (ve_currency env) core'" and p: "pushed_on ab h ch (main_chain core')"
    and len: "length (flat_infos ch) = ab_previous ab + 1" and lim: "within_limits env ab ch0"
  shows "above_checkpoints env core'"
proof -
  have "length (flat_infos (main_chain core')) = ab_previous ab + 2" using p len by (simp add: pushed_def Let_def)
  then have "getTopBlockIndex (hd (main_chain core')) + 1 = ab_previous ab + 2" using top_index core_inv_chain [OF inv] by metis
  then show ?thesis
    using core_inv_chain [OF inv] lim zone_above [of "ve_checkpoints env" "ab_previous ab + 1" "ab_previous ab + 2"]
    unfolding above_checkpoints_def within_limits_def by simp
qed

lemma top_length:
  assumes "insertable env ab h a core" "core_inv c core" "getTopBlockIndex (sn_cache (chainsStorage core ! a)) = ab_previous ab"
  shows "length (node_infos (chainsStorage core) a) = ab_previous ab + 1"
  using assms accepted_index [of env "chainsStorage core" a ab] by (simp add: insertable_def core_inv_def getTopBlockIndex_def)

lemma add_to_main_pool:
  assumes inv: "core_inv (ve_currency env) core" and ins: "insertable env ab h (main_leaf core) core"
    and top: "getTopBlockIndex (sn_cache (chainsStorage core ! main_leaf core)) = ab_previous ab"
    and add: "add_to_main env ab core = Inr (ret, core')" and clear: "pool_clear core"
  shows "pool_clear core'"
proof -
  note main = add_to_main_inv [OF inv ins top add]
  obtain st core1 where st: "remove_included (ab_transactions ab)
      (updateBlockMedianSize env (core \<lparr> chainsStorage := st, mainChainStorage := mainChainStorage core @ [ab_raw ab] \<rparr>)) = Inr core1"
    "actualizePoolTransactionsLite env (ab_state ab) core1 = Inr core'"
    using add by (auto simp: add_to_main_def Let_def bindE_eq_Inr)
  let ?core0 = "updateBlockMedianSize env (core \<lparr> chainsStorage := st, mainChainStorage := mainChainStorage core @ [ab_raw ab] \<rparr>)"
  have p0: "core_pending ?core0 = core_pending core" by (simp add: updateBlockMedianSize_def Let_def)
  have d: "distinct_pool ?core0" using clear unfolding p0 by (simp add: pool_clear_def)
  note r = remove_included_pending [OF st(1) d]
  note l = actualize_lite_loop_pending [OF st(2) [unfolded actualizePoolTransactionsLite_def] conjunct1 [OF r]]
  have "unspent_on (main_chain core') p" if p: "p \<in> set (core_pending core')" for p
  proof -
    have p1: "p \<in> set (core_pending core1)" "set (pending_images p) \<inter> spentKeyImages (ab_state ab) = {}"
      using l p by (auto simp: getTransactionHashes_def)
    then have "p \<in> set (core_pending core)" using r p0 by auto
    then have "unspent_on (main_chain core) p" using clear by (simp add: pool_clear_def list_all_iff)
    then show ?thesis using p1(2) main(2) by (auto simp: unspent_on_def pushed_def Let_def)
  qed
  then show ?thesis using l by (simp add: pool_clear_def list_all_iff)
qed

lemma add_to_leaf_cases:
  assumes "add_to_leaf env ab a core = Inr (ret, core')"
  obtains (stay) st where "push_node ab a (chainsStorage core) = Some st" "core' = core \<lparr> chainsStorage := st \<rparr>" "ret = ADDED_TO_ALTERNATIVE"
  | (switch) st core0 core1 core2 core3 storage where "push_node ab a (chainsStorage core) = Some st"
      "core0 = updateBlockMedianSize env (updateMainChainSet (core \<lparr> chainsStorage := st, chainsLeaves := swap_leaf a (chainsLeaves core) \<rparr>))"
      "remove_included (ab_transactions ab) core0 = Inr core1" "actualizePoolTransactions env core1 = Inr core2"
      "copyTransactionsToPool env (main_leaf core) core2 = Inr core3"
      "switchMainChainStorage (bc_startIndex (sn_cache (st ! a))) (main_chain core3) (mainChainStorage core3) = Some storage"
      "core' = core3 \<lparr> mainChainStorage := storage \<rparr>" "ret = ADDED_TO_ALTERNATIVE_AND_SWITCHED"
proof -
  obtain st where st: "push_node ab a (chainsStorage core) = Some st" using assms by (auto simp: add_to_leaf_def)
  let ?D = "\<lambda>l. cbi_cumulativeDifficulty (last (bc_blockInfos (sn_cache (st ! l))))"
  let ?core0 = "updateBlockMedianSize env (updateMainChainSet (core \<lparr> chainsStorage := st, chainsLeaves := swap_leaf a (chainsLeaves core) \<rparr>))"
  show ?thesis
  proof (cases "?D a > ?D (main_leaf core)")
    case False
    then have "core' = core \<lparr> chainsStorage := st \<rparr>" "ret = ADDED_TO_ALTERNATIVE"
      using assms by (simp_all add: add_to_leaf_def Let_def st the_or_undefined_def)
    then show ?thesis by (rule stay [OF st])
  next
    case True
    have "add_to_leaf env ab a core =
       bindE (remove_included (ab_transactions ab) ?core0) (\<lambda>core1.
       bindE (actualizePoolTransactions env core1) (\<lambda>core2.
       bindE (copyTransactionsToPool env (main_leaf core) core2) (\<lambda>core3.
       bindE (the_or_undefined (switchMainChainStorage (bc_startIndex (sn_cache (st ! a))) (main_chain core3) (mainChainStorage core3))) (\<lambda>storage.
       Inr (ADDED_TO_ALTERNATIVE_AND_SWITCHED, core3 \<lparr> mainChainStorage := storage \<rparr>)))))"
      using True by (simp add: add_to_leaf_def st the_or_undefined_def)
    from assms [unfolded this] show ?thesis
      unfolding bindE_eq_Inr the_or_undefined_eq_Inr sum.inject prod.inject
      by (elim exE conjE) (rule switch [OF st refl], assumption+, (rule sym, assumption)+)
  qed
qed

text \<open>After a switch the pool is checked again on the new main chain.\<close>

lemma add_to_leaf_pool:
  assumes inv: "core_inv (ve_currency env) core" and ins: "insertable env ab h a core" and a: "a \<in> set (chainsLeaves core)" "a \<noteq> main_leaf core"
    and top: "getTopBlockIndex (sn_cache (chainsStorage core ! a)) = ab_previous ab"
    and add: "add_to_leaf env ab a core = Inr (ret, core')" and clear: "pool_clear core"
  shows "pool_clear core'"
  using add
proof (cases rule: add_to_leaf_cases)
  case (stay st)
  have "main_chain core' = main_chain core" using add_to_leaf_inv(2) [OF inv ins a top add] stay(3) by auto
  then show ?thesis using clear stay(2) by (simp add: pool_clear_def)
next
  case (switch st core0 core1 core2 core3 storage)
  note eff = add_to_leaf_inv [OF inv ins a top add]
  have s1: "same_chains core0 core1" by (rule remove_included_same [OF switch(3)])
  have s2: "same_chains core1 core2" by (rule actualizePoolTransactions_same [OF switch(4)])
  have s3: "same_chains core2 core3" by (rule copyTransactionsToPool_same [OF switch(5)])
  have main: "main_chain core3 = main_chain core'" using switch(7) by simp
  have new: "pushed_on ab h (segment_chain (chainsStorage core) a) (main_chain core')" using eff(2) switch(8) by simp
  have "within_limits env ab (segment_chain (chainsStorage core) a)" using ins by (simp add: insertable_def)
  note above = above_new_block [OF eff(1) new top_length [OF ins inv top] this]
  have a3: "above_checkpoints env core3" using above main by (simp add: above_checkpoints_def)
  have a2: "above_checkpoints env core2" and a1: "above_checkpoints env core1" using a3 above_same s2 s3 by metis+
  have "core_pending core0 = core_pending core" using switch(2) by (simp add: updateBlockMedianSize_def updateMainChainSet_def Let_def)
  then have "distinct_pool core0" using clear by (simp add: pool_clear_def)
  note r = remove_included_pending [OF switch(3) this]
  note l = actualize_loop_pending [OF switch(4) [unfolded actualizePoolTransactions_def] a1 conjunct1 [OF r]]
  note c = copy_loop_pending [OF switch(5) [unfolded copyTransactionsToPool_def] a2 conjunct1 [OF l]]
  have m: "main_chain core1 = main_chain core'" "main_chain core2 = main_chain core'" using main main_same s2 s3 by metis+
  have "unspent_on (main_chain core') p" if "p \<in> set (core_pending core2)" for p
    using l that m(1) by (auto simp: getTransactionHashes_def)
  then have "list_all (unspent_on (main_chain core')) (core_pending core3)" using c m(2) by (auto simp: list_all_iff)
  moreover have "distinct_pool core3" by (rule conjunct1 [OF c])
  ultimately show ?thesis using switch(7) by (simp add: pool_clear_def)
qed

section \<open>The storage of the main chain\<close>

lemma flat_blocks_length: "chain_ok ch \<Longrightarrow> length (flat_blocks ch) = length (flat_infos ch)"
  by (induction ch) (auto simp: segment_ok_def)

lemma cache_getBlockByIndex_flat:
  assumes "chain_ok ch"
  shows "cache_getBlockByIndex i ch = (if i < length (flat_blocks ch) then Some (flat_blocks ch ! i) else None)"
  using assms
proof (induction ch)
  case (Cons s ps)
  then have "bc_startIndex s = length (flat_blocks ps)" "length (bc_storage s) = length (bc_blockInfos s)"
    by (simp_all add: segment_ok_def flat_blocks_length)
  then show ?case using Cons by (auto simp: nth_append)
qed simp

lemma those_map_Some: "those (map (\<lambda>x. Some (f x)) xs) = Some (map f xs)"
  by (induction xs) simp_all

lemma switch_storage:
  assumes "chain_ok ch" "ch \<noteq> []" "k \<le> length storage"
  shows "switchMainChainStorage k ch storage = Some (take k storage @ drop k (flat_blocks ch))"
proof -
  have top: "getTopBlockIndex (hd ch) + 1 = length (flat_blocks ch)" using top_index [OF assms(1,2)] flat_blocks_length [OF assms(1)] by simp
  have "map (\<lambda>i. cache_getBlockByIndex i ch) [k..<length (flat_blocks ch)] = map (\<lambda>i. Some (flat_blocks ch ! i)) [k..<length (flat_blocks ch)]"
    by (simp add: cache_getBlockByIndex_flat [OF assms(1)])
  from arg_cong [OF this, of those] have "those (map (\<lambda>i. cache_getBlockByIndex i ch) [k..<length (flat_blocks ch)]) = Some (drop k (flat_blocks ch))"
    unfolding those_map_Some by (simp add: those_map_Some list_eq_iff_nth_eq)
  then show ?thesis using assms(3) by (simp add: switchMainChainStorage_def top [simplified])
qed

lemma switched_equal: "start \<le> length xs \<Longrightarrow> take start xs @ drop start ys = ys \<longleftrightarrow> take start xs = take start ys"
  by (metis append_eq_conv_conj append_take_drop_id length_take min.absorb2 take_append take_all_iff append_same_eq)

section \<open>A new block\<close>

text \<open>What a block did to the core: it extends the main chain, or stands beside it, or is on top of a chain that
  becomes the main chain. \<open>start\<close> is where the storage is cut before the blocks of the new chain are copied.\<close>

definition block_outcome :: "accepted_block \<Rightarrow> hash \<Rightarrow> chain \<Rightarrow> Core \<Rightarrow> AddBlockErrorCode \<Rightarrow> Core \<Rightarrow> bool" where
  "block_outcome ab h ch core ret core' \<longleftrightarrow>
     ret = ADDED_TO_MAIN \<and> pushed_on ab h (main_chain core) (main_chain core') \<and>
       mainChainStorage core' = mainChainStorage core @ [ab_raw ab] \<or>
     ret = ADDED_TO_ALTERNATIVE \<and> same_flat (main_chain core) (main_chain core') \<and>
       core_pool core' = core_pool core \<and> mainChainStorage core' = mainChainStorage core \<or>
     ret = ADDED_TO_ALTERNATIVE_AND_SWITCHED \<and> pushed_on ab h ch (main_chain core') \<and>
       total_work (flat_infos (main_chain core)) < total_work (flat_infos (main_chain core')) \<and>
       (let start = bc_startIndex (hd (main_chain core')) in start \<le> length (mainChainStorage core) \<and>
          mainChainStorage core' = take start (mainChainStorage core) @ drop start (flat_blocks (main_chain core')))"

lemma add_to_main_ret: "add_to_main env ab core = Inr (ret, core') \<Longrightarrow> ret = ADDED_TO_MAIN"
  by (auto simp: add_to_main_def bindE_eq_Inr Let_def)

lemma switched_storage:
  assumes inv: "core_inv (ve_currency env) core" and ins: "insertable env ab h a core" and a: "a \<in> set (chainsLeaves core)" "a \<noteq> main_leaf core"
    and top: "getTopBlockIndex (sn_cache (chainsStorage core ! a)) = ab_previous ab"
    and add: "add_to_leaf env ab a core = Inr (ADDED_TO_ALTERNATIVE_AND_SWITCHED, core')"
  shows "let start = bc_startIndex (hd (main_chain core')) in start \<le> length (mainChainStorage core) \<and>
    mainChainStorage core' = take start (mainChainStorage core) @ drop start (flat_blocks (main_chain core'))"
  using add
proof (cases rule: add_to_leaf_cases)
  case (switch st core0 core1 core2 core3 storage)
  note eff = add_to_leaf_inv(1) [OF inv ins a top add]
  have s: "same_chains core0 core3"
    using same_chains_trans [OF remove_included_same [OF switch(3)]
        same_chains_trans [OF actualizePoolTransactions_same [OF switch(4)] copyTransactionsToPool_same [OF switch(5)]]] .
  have c3: "chainsStorage core3 = st" "main_leaf core3 = a" "mainChainStorage core3 = mainChainStorage core"
    using s swap_leaf_result(1) [OF a(1)] inv unfolding switch(2)
    by (simp_all add: same_chains_def updateBlockMedianSize_def updateMainChainSet_def Let_def core_inv_def leaves_ok_def)
  have c': "chainsStorage core' = st" "main_leaf core' = a" using c3 switch(7) by simp_all
  have "a < length st" using main_leaf_facts(2) [OF eff] c' by simp
  moreover have "tree_ok st" using eff c' by (simp add: core_inv_def)
  ultimately have hd: "hd (main_chain core') = sn_cache (st ! a)" using tree_path(4) [of st a] c' by auto
  have ok: "chain_ok (main_chain core')" "main_chain core' \<noteq> []" using core_inv_chain [OF eff] by simp_all
  have sw: "switchMainChainStorage (bc_startIndex (hd (main_chain core'))) (main_chain core') (mainChainStorage core) = Some (mainChainStorage core')"
    using switch(6,7) c3 c' hd by simp
  then have k: "bc_startIndex (hd (main_chain core')) \<le> length (mainChainStorage core)" by (auto simp: switchMainChainStorage_def split: if_splits)
  show ?thesis using switch_storage [OF ok k] sw k by (simp add: Let_def)
qed simp

lemma insert_block_result:
  assumes inv: "core_inv (ve_currency env) core" and ins: "insertable env ab h a core" and add: "insert_block env ab a core = Inr (ret, core')"
  shows "core_inv (ve_currency env) core'" "block_outcome ab h (segment_chain (chainsStorage core) a) core ret core'"
    "pool_clear core \<Longrightarrow> pool_clear core'"
proof -
  have leaf: "a \<in> set (chainsLeaves core) \<longleftrightarrow> sn_children (chainsStorage core ! a) = []"
    using inv ins by (simp add: core_inv_def leaves_ok_def insertable_def)
  have beside: "pool_clear core \<Longrightarrow> pool_clear core'" if "same_flat (main_chain core) (main_chain core')" "core_pool core' = core_pool core"
    using that by (simp add: pool_clear_def list_all_iff unspent_on_def same_flat_def)
  have "core_inv (ve_currency env) core' \<and> block_outcome ab h (segment_chain (chainsStorage core) a) core ret core' \<and>
      (pool_clear core \<longrightarrow> pool_clear core')"
  proof (cases "getTopBlockIndex (sn_cache (chainsStorage core ! a)) = ab_previous ab")
    case False
    then have "add_inside env ab a core = Inr (ret, core')" using add by (simp add: insert_block_def)
    note r = add_inside_inv [OF inv ins False this]
    show ?thesis using r beside by (simp add: block_outcome_def)
  next
    case top: True
    show ?thesis
    proof (cases "sn_children (chainsStorage core ! a) = []")
      case False
      then have "add_fork env ab a core = Inr (ret, core')" using add top by (simp add: insert_block_def)
      note r = add_fork_inv [OF inv ins top False this]
      show ?thesis using r beside by (simp add: block_outcome_def)
    next
      case kids: True
      show ?thesis
      proof (cases "a = main_leaf core")
        case main: True
        then have m: "add_to_main env ab core = Inr (ret, core')" using add top kids by (simp add: insert_block_def)
        note r = add_to_main_inv [OF inv ins [unfolded main] top [unfolded main] m] add_to_main_ret [OF m]
        show ?thesis using r add_to_main_pool [OF inv ins [unfolded main] top [unfolded main] m] by (simp add: block_outcome_def)
      next
        case other: False
        then have l: "add_to_leaf env ab a core = Inr (ret, core')" using add top kids by (simp add: insert_block_def)
        have al: "a \<in> set (chainsLeaves core)" using leaf kids by simp
        note r = add_to_leaf_inv [OF inv ins al other top l] and p = add_to_leaf_pool [OF inv ins al other top l]
        show ?thesis
          using r p switched_storage [OF inv ins al other top, of core'] l unfolding block_outcome_def by auto
      qed
    qed
  qed
  then show "core_inv (ve_currency env) core'" "block_outcome ab h (segment_chain (chainsStorage core) a) core ret core'"
    "pool_clear core \<Longrightarrow> pool_clear core'" by blast+
qed

text \<open>The checks of \<open>addBlock\<close>: the segment of the previous block and what was accepted.\<close>

definition accept_block :: "validation_env \<Rightarrow> CachedBlock \<Rightarrow> RawBlock \<Rightarrow> Core \<Rightarrow> error_code + nat \<times> accepted_block" where
  "accept_block env cachedBlock rawBlock core =
     bindE (liftE (fst (getBlockIndex cachedBlock))) (\<lambda>blockIndex'.
     bindE (liftE (fst (getBlockHash cachedBlock))) (\<lambda>blockHash.
     bindE (guardE (findSegmentContainingBlock core blockHash = None) (AddBlockError ALREADY_EXISTS)) (\<lambda>_.
     case findSegmentContainingBlock core (previousBlockHash (cb_block cachedBlock)) of
       None \<Rightarrow> Inl (AddBlockError REJECTED_AS_ORPHANED)
     | Some a \<Rightarrow>
         bindE (check_new_block env cachedBlock rawBlock blockIndex' blockHash (segment_chain (chainsStorage core) a)) (\<lambda>ab.
         Inr (a, ab)))))"

lemma bindE_assoc: "bindE (bindE r f) g = bindE r (\<lambda>x. bindE (f x) g)"
  by (cases r) simp_all

lemma addBlock_accept:
  "addBlock env cb raw core = bindE (accept_block env cb raw core) (\<lambda>(a, ab). insert_block env ab a core)"
  unfolding addBlock_def accept_block_def
  by (auto simp: bindE_assoc intro!: arg_cong [where f = "bindE _"] ext split: option.split)

lemma found_valid:
  assumes "core_inv c core" "findSegmentContainingBlock core h = Some a"
  shows "a < length (chainsStorage core)"
proof -
  have ok: "tree_ok (chainsStorage core)" and l: "\<And>l. l \<in> set (chainsLeaves core) \<Longrightarrow> l < length (chainsStorage core)" "chainsLeaves core \<noteq> []"
    using assms(1) by (auto simp: core_inv_def leaves_ok_def)
  have found: "x < length (chainsStorage core)" if "findIndexInChain (chainsStorage core) l h = Some x" "l \<in> set (chainsLeaves core)" for l x
  proof -
    have "x \<in> set (segment_path (chainsStorage core) l)" using that(1) unfolding findIndexInChain_def find_Some_iff by auto
    then show ?thesis using is_path_valid [OF tree_path(1) [OF ok l(1) [OF that(2)]]] by auto
  qed
  have first: "\<exists>l \<in> set ls. f l = Some a" if "first_found f ls = Some a" for f and ls :: "nat list"
    using that by (induction ls) (auto split: option.splits)
  have "\<exists>l \<in> set (chainsLeaves core). findIndexInChain (chainsStorage core) l h = Some a"
  proof (cases "findIndexInChain (chainsStorage core) (main_leaf core) h")
    case None
    then have "first_found (\<lambda>l. findIndexInChain (chainsStorage core) l h) (tl (chainsLeaves core)) = Some a"
      using assms(2) by (simp add: findSegmentContainingBlock_def findMainChainSegmentContainingBlock_def findAlternativeSegmentContainingBlock_def)
    from first [OF this] show ?thesis using list.set_sel(2) [OF l(2)] by blast
  next
    case (Some x)
    then have "x = a" using assms(2) by (simp add: findSegmentContainingBlock_def findMainChainSegmentContainingBlock_def)
    then show ?thesis using Some list.set_sel(1) [OF l(2)] by blast
  qed
  then show ?thesis using found by blast
qed

definition block_limits :: "validation_env \<Rightarrow> CachedBlock \<Rightarrow> RawBlock \<Rightarrow> Core \<Rightarrow> bool" where
  "block_limits env cb raw core \<longleftrightarrow>
     (\<forall>a ab. accept_block env cb raw core = Inr (a, ab) \<longrightarrow> within_limits env ab (segment_chain (chainsStorage core) a))"

lemma accept_blockE:
  assumes "accept_block env cb raw core = Inr (a, ab)"
  shows "\<exists>i h. fst (getBlockIndex cb) = Inr i \<and> fst (getBlockHash cb) = Inr h \<and> findSegmentContainingBlock core h = None \<and>
    findSegmentContainingBlock core (previousBlockHash (cb_block cb)) = Some a \<and>
    check_new_block env cb raw i h (segment_chain (chainsStorage core) a) = Inr ab"
proof -
  obtain i h where i: "fst (getBlockIndex cb) = Inr i" "fst (getBlockHash cb) = Inr h" "findSegmentContainingBlock core h = None"
    and c: "(case findSegmentContainingBlock core (previousBlockHash (cb_block cb)) of
       None \<Rightarrow> Inl (AddBlockError REJECTED_AS_ORPHANED)
     | Some a \<Rightarrow> bindE (check_new_block env cb raw i h (segment_chain (chainsStorage core) a)) (\<lambda>ab. Inr (a, ab))) = Inr (a, ab)"
    using assms unfolding accept_block_def by (elim bindE_InrE) (auto simp: guardE_def split: if_splits)
  from c have "findSegmentContainingBlock core (previousBlockHash (cb_block cb)) = Some a \<and>
      check_new_block env cb raw i h (segment_chain (chainsStorage core) a) = Inr ab"
    by (cases "findSegmentContainingBlock core (previousBlockHash (cb_block cb))") auto
  then show ?thesis using i by blast
qed

lemma accepted_insertable:
  assumes inv: "core_inv (ve_currency env) core" and acc: "accept_block env (CachedBlock_init block) raw core = Inr (a, ab)"
    and lim: "block_limits env (CachedBlock_init block) raw core"
  shows "\<exists>h. insertable env ab h a core \<and> block_hash_spec block = Inr h"
proof -
  let ?cb = "CachedBlock_init block"
  have cb: "cb_block ?cb = block" by (simp add: CachedBlock_init_def)
  obtain i h where i: "fst (getBlockIndex ?cb) = Inr i" and h: "fst (getBlockHash ?cb) = Inr h" "findSegmentContainingBlock core h = None"
    and a: "findSegmentContainingBlock core (previousBlockHash block) = Some a"
    and ck: "check_new_block env ?cb raw i h (segment_chain (chainsStorage core) a) = Inr ab"
    using accept_blockE [OF acc] unfolding cb by blast
  have spec: "fst (getBlockIndex ?cb) = block_index_spec (cb_block ?cb)" "block_hash_spec block = Inr h"
    using block_index_memo.get_spec [OF block_cache_ok_init [of id id id block]] h(1)
      block_hash_memo.get_spec [OF block_cache_ok_init [of id id id block]] by (simp_all add: cb)
  note c = check_new_block_accepted [OF ck i spec(1)]
  have "insertable env ab h a core"
    using c i h found_valid [OF inv a] lim acc unfolding insertable_def block_limits_def by auto
  then show ?thesis using spec(2) by blast
qed

lemma addBlock_result:
  assumes inv: "core_inv (ve_currency env) core" and add: "addBlock env (CachedBlock_init block) raw core = Inr (ret, core')"
    and lim: "block_limits env (CachedBlock_init block) raw core"
  obtains a ab h where "accept_block env (CachedBlock_init block) raw core = Inr (a, ab)" "block_hash_spec block = Inr h"
    "core_inv (ve_currency env) core'" "block_outcome ab h (segment_chain (chainsStorage core) a) core ret core'"
    "pool_clear core \<Longrightarrow> pool_clear core'"
proof -
  obtain a ab where acc: "accept_block env (CachedBlock_init block) raw core = Inr (a, ab)" "insert_block env ab a core = Inr (ret, core')"
    using add unfolding addBlock_accept by auto
  obtain h where h: "insertable env ab h a core" "block_hash_spec block = Inr h" using accepted_insertable [OF inv acc(1) lim] by blast
  show ?thesis using that [OF acc(1) h(2)] insert_block_result [OF inv h(1) acc(2)] by blast
qed

section \<open>Reachable cores\<close>

text \<open>A node starts from the genesis block with an empty pool; blocks, transactions and rounds of cleaning come in
  any order and at any time \<open>t\<close>.\<close>

inductive core_reachable :: "validation_env \<Rightarrow> Core \<Rightarrow> bool" for env where
  init: "core_reachable env core"
    if "initRootSegment env w = Some core" "pool_transactions (transactionPool w) = []"
      "block_fits (CachedBlock_init (genesisBlockTemplate (ve_currency env))) [] \<lparr> spentKeyImages = {} \<rparr> h [empty_segment 0]"
| block: "core_reachable env core'"
    if "core_reachable env core" "addBlock (env \<lparr> ve_now := t \<rparr>) (CachedBlock_init block) raw core = Inr (ret, core')"
      "block_limits (env \<lparr> ve_now := t \<rparr>) (CachedBlock_init block) raw core"
| transaction: "core_reachable env core'"
    if "core_reachable env core" "addTransactionToPool_blob (env \<lparr> ve_now := t \<rparr>) ba core = Inr (r, core')"
      "\<not> isInCheckpointZone (ve_checkpoints env) (of_nat (getTopBlockIndex (hd (main_chain core)) + 1))"
| cleaning: "core_reachable env core'"
    if "core_reachable env core" "clean_pool_step (json_parse :: bytes \<Rightarrow> bytes option) json_t t core = Some (core', deleted)"

lemma init_core:
  assumes "initRootSegment env w = Some core"
    "block_fits (CachedBlock_init (genesisBlockTemplate (ve_currency env))) [] \<lparr> spentKeyImages = {} \<rparr> h [empty_segment 0]"
  shows "core_inv (ve_currency env) core" "core_pool core = w" "mainChainStorage core = flat_blocks (main_chain core)"
    "\<exists>s. root_chain (ve_currency env) = Some [s] \<and> main_chain core = [s] \<and> chainsLeaves core = [0] \<and>
       chainsStorage core = [\<lparr> sn_cache = s, sn_parent = None, sn_children = [] \<rparr>] \<and> length (flat_infos [s]) = 1"
proof -
  obtain s where s: "root_chain (ve_currency env) = Some [s]" "core = updateBlockMedianSize env
      \<lparr> chainsStorage = [\<lparr> sn_cache = s, sn_parent = None, sn_children = [] \<rparr>], chainsLeaves = [0], mainChainSet = {0},
        core_pool = w, mainChainStorage = bc_storage s, blockMedianSize = 0 \<rparr>"
    using assms(1) by (auto simp: initRootSegment_def split: option.splits list.splits)
  let ?st = "[\<lparr> sn_cache = s, sn_parent = None, sn_children = [] \<rparr>]"
  have c: "chainsStorage core = ?st" "chainsLeaves core = [0]" "core_pool core = w" "mainChainStorage core = bc_storage s"
    using s(2) by (simp_all add: updateBlockMedianSize_def Let_def)
  have ok: "chain_ok [s]" using root_chain_push [OF s(1) assms(2)] by simp
  have path: "is_path ?st 0 [0]" by (rule is_path.root) simp_all
  have ch: "segment_chain ?st 0 = [s]" using segment_chain_eq [OF path] by simp
  obtain sz reward raw where p: "doPushBlock (CachedBlock_init (genesisBlockTemplate (ve_currency env))) [] \<lparr> spentKeyImages = {} \<rparr> sz reward 1 raw
      [empty_segment 0] = Some [s]" using s(1) by (auto simp: root_chain_def Let_def split: sum.splits)
  have one: "length (flat_infos [s]) = 1"
    using doPushBlock_result [OF empty_segment_ok _ assms(2), of sz reward 1 raw] p by (auto simp: pushed_def empty_segment_def Let_def)
  have "tree_ok ?st" by (rule tree_okI [where p = "\<lambda>_. [0]"]) (use path ok in auto)
  moreover have "leaves_ok ?st [0]" by (auto simp: leaves_ok_def)
  moreover have "tree_work_ok (ve_currency env) ?st" using ch one by (auto simp: tree_work_ok_def work_ok_def)
  moreover have "heaviest ?st 0" by (simp add: heaviest_def)
  ultimately show "core_inv (ve_currency env) core" using c by (simp add: core_inv_def)
  show "core_pool core = w" "mainChainStorage core = flat_blocks (main_chain core)" using c ch by simp_all
  show "\<exists>s. root_chain (ve_currency env) = Some [s] \<and> main_chain core = [s] \<and> chainsLeaves core = [0] \<and> chainsStorage core = [\<lparr> sn_cache = s, sn_parent = None, sn_children = [] \<rparr>] \<and> length (flat_infos [s]) = 1"
    using s(1) c ch one by (intro exI [of _ s]) (simp del: flat_Cons)
qed

lemma clean_loop_sub:
  "clean_loop jp jt now height hs w deleted = Some (w', deleted') \<Longrightarrow> distinct (map pending_hash (pool_transactions (transactionPool w))) \<Longrightarrow>
    distinct (map pending_hash (pool_transactions (transactionPool w'))) \<and>
    set (pool_transactions (transactionPool w')) \<subseteq> set (pool_transactions (transactionPool w))"
proof (induction hs arbitrary: w deleted)
  case (Cons h hs)
  let ?w1 = "w \<lparr> recentlyDeletedTransactions := map_emplace h now (recentlyDeletedTransactions w),
      transactionPool := snd (removeTransaction h (transactionPool w)) \<rparr>"
  consider d where "clean_loop jp jt now height hs ?w1 d = Some (w', deleted')"
    | "clean_loop jp jt now height hs w deleted = Some (w', deleted')"
    using Cons.prems(1) by (auto split: option.splits if_splits)
  then show ?case
  proof cases
    case (1 d)
    have f: "pool_transactions (transactionPool ?w1) = filter (\<lambda>p. pending_hash p \<noteq> h) (pool_transactions (transactionPool w))"
      using remove_transactions [OF Cons.prems(2)] by simp
    have "distinct (map pending_hash (pool_transactions (transactionPool ?w1)))" unfolding f by (rule distinct_map_filter [OF Cons.prems(2)])
    from Cons.IH [OF 1 this] show ?thesis unfolding f by auto
  next
    case 2
    then show ?thesis using Cons.IH Cons.prems(2) by blast
  qed
qed simp

lemma clean_pool_step_clear:
  assumes "clean_pool_step jp jt t core = Some (core', deleted)" "pool_clear core"
  shows "pool_clear core'" "same_chains core core'"
proof -
  obtain w1 w where w: "clean_loop jp jt t (of_nat (getTopBlockIndex (hd (main_chain core)))) (getTransactionHashes (transactionPool (core_pool core)))
      (core_pool core) [] = Some (w1, deleted)" "core' = core \<lparr> core_pool := w \<rparr>" "transactionPool w = transactionPool w1"
    using assms(1) by (auto simp: clean_pool_step_def clean_def cleanRecentlyDeletedTransactions_def bind_eq_Some_conv)
  have d: "distinct_pool core" using assms(2) by (simp add: pool_clear_def)
  show "pool_clear core'" using clean_loop_sub [OF w(1) d] assms(2) unfolding w(2) by (auto simp: pool_clear_def list_all_iff w(3))
  show "same_chains core core'" unfolding w(2) by simp
qed

lemma core_reachable_inv: "core_reachable env core \<Longrightarrow> core_inv (ve_currency env) core \<and> pool_clear core"
proof (induction rule: core_reachable.induct)
  case (init w core h)
  then show ?case using init_core [OF init(1,3)] by (simp add: pool_clear_def)
next
  case (block core t block raw ret core')
  let ?env = "env \<lparr> ve_now := t \<rparr>"
  have "core_inv (ve_currency ?env) core" using block.IH by simp
  from addBlock_result [OF this block.hyps(2,3)] have "core_inv (ve_currency ?env) core' \<and> pool_clear core'" using block.IH by metis
  then show ?case by simp
next
  case (transaction core t ba r core')
  let ?env = "env \<lparr> ve_now := t \<rparr>"
  have above: "above_checkpoints ?env core"
    using transaction.IH transaction.hyps(3) core_inv_chain [of "ve_currency env" core] by (simp add: above_checkpoints_def)
  have d: "distinct_pool core" using transaction.IH by (simp add: pool_clear_def)
  note s = addTransactionToPool_blob_same [OF transaction.hyps(2)]
  have "pool_clear core'"
    using addTransactionToPool_blob_pending [OF transaction.hyps(2) above d] transaction.IH main_same [OF s]
    by (auto simp: pool_clear_def list_all_iff)
  then show ?case using transaction.IH core_inv_same [OF s] by blast
next
  case (cleaning core jp jt t core' deleted)
  then show ?case using clean_pool_step_clear [OF cleaning.hyps(2)] core_inv_same by blast
qed

section \<open>Properties\<close>

text \<open>A node that has just started, and the first block for it.\<close>

definition empty_pool :: CleanWrapper where
  "empty_pool = \<lparr> transactionPool = TransactionPool_init, recentlyDeletedTransactions = Map.empty, timeout = 86400 \<rparr>"

definition sample_core :: Core where
  "sample_core = the (initRootSegment sample_env empty_pool)"

definition first_raw :: RawBlock where
  "first_raw = \<lparr> rb_block = [], rb_transactions = [] \<rparr>"

lemma sample_core_reachable:
  "core_reachable sample_env sample_core" "mainChainStorage sample_core = flat_blocks (main_chain sample_core)"
  "\<exists>s. main_chain sample_core = [s] \<and> root_chain sample_currency = Some [s] \<and> chainsStorage sample_core = [\<lparr> sn_cache = s, sn_parent = None, sn_children = [] \<rparr>]"
proof -
  have c: "ve_currency sample_env = sample_currency" by (simp add: sample_env_def)
  have g: "genesisBlockTemplate sample_currency = genesis_block False" by (simp add: sample_currency_def)
  obtain s where s: "root_chain sample_currency = Some [s]" using genesis_root by blast
  have i: "initRootSegment sample_env empty_pool = Some sample_core" by (simp add: sample_core_def initRootSegment_def c s)
  obtain h where f: "block_fits (CachedBlock_init (genesis_block False)) [] \<lparr> spentKeyImages = {} \<rparr> h [empty_segment 0]"
    using genesis_fits [OF g] g by auto
  have f': "block_fits (CachedBlock_init (genesisBlockTemplate (ve_currency sample_env))) [] \<lparr> spentKeyImages = {} \<rparr> h [empty_segment 0]"
    using f by (simp add: c g)
  show "core_reachable sample_env sample_core"
    by (rule core_reachable.init [OF i _ f']) (simp add: empty_pool_def TransactionPool_init_def)
  show "mainChainStorage sample_core = flat_blocks (main_chain sample_core)" by (rule init_core(3) [OF i f'])
  show "\<exists>s. main_chain sample_core = [s] \<and> root_chain sample_currency = Some [s] \<and> chainsStorage sample_core = [\<lparr> sn_cache = s, sn_parent = None, sn_children = [] \<rparr>]"
    using init_core(4) [OF i f'] by (auto simp: c)
qed

lemma same_time: "sample_env \<lparr> ve_now := ve_now sample_env \<rparr> = sample_env"
  by simp

lemma first_block_limits: "block_limits (sample_env \<lparr> ve_now := ve_now sample_env \<rparr>) (CachedBlock_init first_block) first_raw sample_core"
proof -
  obtain s h n where s: "root_chain sample_currency = Some [s]" "block_hash_spec (genesis_block False) = Inr h" "bc_startIndex s = 0"
    "bc_blockInfos s = [\<lparr> cbi_blockHash = h, cbi_timestamp = 0, cbi_cumulativeDifficulty = 1, cbi_alreadyGeneratedCoins = 2980232,
       cbi_alreadyGeneratedTransactions = 1, cbi_blockSize = n \<rparr>]" "\<And>a. length (flat_outs a [s]) \<le> 1"
    using genesis_root by blast
  have st: "chainsStorage sample_core = [\<lparr> sn_cache = s, sn_parent = None, sn_children = [] \<rparr>]" "main_chain sample_core = [s]"
    using sample_core_reachable(3) s(1) by auto
  have inv: "core_inv (ve_currency sample_env) sample_core" using core_reachable_inv [OF sample_core_reachable(1)] by simp
  have i: "fst (getBlockIndex (CachedBlock_init first_block)) = Inr 1" by (simp add: getBlockIndex_def CachedBlock_init_def first_fields)
  have wr: "\<exists>ba. write_Transaction first_transaction = Inr ba" using write_Transaction_wf [OF first_transaction_wf] by blast
  have outs: "total_outputs (block_cts (CachedBlock_init first_block) []) = 1"
    by (simp add: total_outputs_def CachedBlock_init_def CachedTransaction_init_def first_fields)
  have lim: "within_limits sample_env (first_accepted first_raw) [s]"
    unfolding within_limits_def
  proof (intro conjI allI)
    fix a
    show "length (flat_outs a [s]) + total_outputs (block_cts (ab_block (first_accepted first_raw)) (ab_transactions (first_accepted first_raw))) < 2 ^ 32"
      using s(5) [of a] outs by (simp add: first_accepted_def del: flat_Cons)
  qed (use wr s(4) in \<open>simp_all add: first_accepted_def sample_env_def isInCheckpointZone_def first_fields CachedBlock_init_def\<close>)
  show ?thesis
    unfolding block_limits_def
  proof (intro allI impI)
    fix a ab assume acc: "accept_block (sample_env \<lparr> ve_now := ve_now sample_env \<rparr>) (CachedBlock_init first_block) first_raw sample_core = Inr (a, ab)"
    obtain j h' where j: "fst (getBlockIndex (CachedBlock_init first_block)) = Inr j"
      "findSegmentContainingBlock sample_core (previousBlockHash (cb_block (CachedBlock_init first_block))) = Some a"
      "check_new_block sample_env (CachedBlock_init first_block) first_raw j h' (segment_chain (chainsStorage sample_core) a) = Inr ab"
      using accept_blockE [OF acc] by auto
    have "a = 0" using found_valid [OF inv j(2)] st(1) by simp
    moreover have "main_leaf sample_core = 0" using main_leaf_facts(2) [OF inv] st(1) by simp
    ultimately have ch: "segment_chain (chainsStorage sample_core) a = [s]" using st(2) by simp
    have "check_new_block sample_env (CachedBlock_init first_block) first_raw 1 h' [s] = Inr (first_accepted first_raw)"
      by (rule first_block_checks [OF s(3,4)]) (simp_all add: s(2) first_raw_def)
    then have "ab = first_accepted first_raw" using j i ch by simp
    then show "within_limits (sample_env \<lparr> ve_now := ve_now sample_env \<rparr>) ab (segment_chain (chainsStorage sample_core) a)"
      using lim ch by simp
  qed
qed

text \<open>C0. In every core that blocks, transactions and rounds of cleaning can produce, within the limits of the
  numbers: each segment stands for a well formed chain, on which no key image is spent twice and each
  block adds the difficulty that the blocks before it demand; the leaves are the segments without
  children; and no chain of the tree has more cumulative difficulty than the main chain, also right
  after a block that forks or splits a segment, where the code does not compare.\<close>

theorem main_chain_is_heaviest:
  assumes "core_reachable env core"
  shows "main_leaf core \<in> set (chainsLeaves core) \<and>
    set (chainsLeaves core) = {a. a < length (chainsStorage core) \<and> sn_children (chainsStorage core ! a) = []} \<and>
    (\<forall>a. a < length (chainsStorage core) \<longrightarrow>
       chain_ok (segment_chain (chainsStorage core) a) \<and> work_ok (ve_currency env) (node_infos (chainsStorage core) a) \<and>
       total_work (node_infos (chainsStorage core) a) \<le> total_work (flat_infos (main_chain core)))"
proof -
  have inv: "core_inv (ve_currency env) core" using core_reachable_inv [OF assms] by simp
  then show ?thesis
    using main_leaf_facts(1) [OF inv] tree_path(2)
    by (simp add: core_inv_def leaves_ok_def tree_work_ok_def heaviest_def)
qed

theorem main_chain_is_heaviest_witness:
  "core_reachable sample_env sample_core \<and> 0 < length (chainsStorage sample_core) \<and>
   chain_ok (segment_chain (chainsStorage sample_core) 0) \<and>
   total_work (node_infos (chainsStorage sample_core) 0) \<le> total_work (flat_infos (main_chain sample_core))"
  using main_chain_is_heaviest [OF sample_core_reachable(1)] sample_core_reachable(1,3) by auto

text \<open>C0. In every core that blocks, transactions and rounds of cleaning can produce, no transaction of the pool
  spends a key image that the main chain has spent, whichever chain is the main one, and no hash is
  listed twice.\<close>

theorem pool_spends_nothing_spent:
  assumes "core_reachable env core"
  shows "distinct (getTransactionHashes (transactionPool (core_pool core))) \<and>
    (\<forall>p ki. p \<in> set (core_pending core) \<longrightarrow> ki \<in> set (pending_images p) \<longrightarrow> \<not> checkIfSpent ki (main_chain core))"
proof -
  have inv: "core_inv (ve_currency env) core" "pool_clear core" using core_reachable_inv [OF assms] by simp_all
  then show ?thesis
    using checkIfSpent_flat [of _ "main_chain core"] core_inv_chain [OF inv(1)]
    by (auto simp: pool_clear_def getTransactionHashes_def list_all_iff unspent_on_def)
qed

theorem pool_spends_nothing_spent_witness:
  "core_reachable sample_env sample_core \<and> distinct (getTransactionHashes (transactionPool (core_pool sample_core)))"
  using pool_spends_nothing_spent [OF sample_core_reachable(1)] sample_core_reachable(1) by simp

text \<open>C0. What a new block does to such a core. It is refused, or its checks accepted it for the chain of its
  previous block and it has one of three effects: it extends the main chain by itself, its transactions,
  outputs and key images and is appended to the storage; or it stands beside the main chain, which keeps
  its blocks as do the pool and the storage; or it is on top of another chain that becomes the main
  chain, and then that chain has more cumulative difficulty than the main chain had.\<close>

theorem added_block_outcome:
  assumes "core_reachable env core" "block_limits (env \<lparr> ve_now := t \<rparr>) (CachedBlock_init block) raw core"
  shows "case addBlock (env \<lparr> ve_now := t \<rparr>) (CachedBlock_init block) raw core of
      Inl _ \<Rightarrow> True
    | Inr (ret, core') \<Rightarrow>
        \<exists>a ab h. accept_block (env \<lparr> ve_now := t \<rparr>) (CachedBlock_init block) raw core = Inr (a, ab) \<and> block_hash_spec block = Inr h \<and>
          block_outcome ab h (segment_chain (chainsStorage core) a) core ret core'"
proof -
  have inv: "core_inv (ve_currency (env \<lparr> ve_now := t \<rparr>)) core" using core_reachable_inv [OF assms(1)] by simp
  show ?thesis
  proof (cases "addBlock (env \<lparr> ve_now := t \<rparr>) (CachedBlock_init block) raw core")
    case (Inr r)
    obtain ret core' where r: "r = (ret, core')" by (cases r)
    from addBlock_result [OF inv Inr [unfolded r] assms(2)] show ?thesis unfolding Inr r by simp metis
  qed simp
qed

theorem added_block_outcome_witness:
  "core_reachable sample_env sample_core \<and> block_limits sample_env (CachedBlock_init first_block) first_raw sample_core \<and>
   (case addBlock sample_env (CachedBlock_init first_block) first_raw sample_core of
      Inl _ \<Rightarrow> True
    | Inr (ret, core') \<Rightarrow>
        \<exists>a ab h. accept_block sample_env (CachedBlock_init first_block) first_raw sample_core = Inr (a, ab) \<and>
          block_hash_spec first_block = Inr h \<and> block_outcome ab h (segment_chain (chainsStorage sample_core) a) sample_core ret core')"
  using added_block_outcome [OF sample_core_reachable(1) first_block_limits] sample_core_reachable(1) first_block_limits
  unfolding same_time by blast

text \<open>C0. The storage of the main chain. Where it holds the blocks of the main chain, it still does after a new
  block that extends the main chain or stands beside it. After a switch it does exactly if the old and
  the new main chain have the same blocks below the last segment of the new one: the code removes only
  the blocks from the start of that segment on, so those of segments below it that are not on the old
  main chain are not copied.\<close>

theorem storage_follows_main_chain:
  assumes "core_reachable env core" "block_limits (env \<lparr> ve_now := t \<rparr>) (CachedBlock_init block) raw core"
    "mainChainStorage core = flat_blocks (main_chain core)"
  shows "case addBlock (env \<lparr> ve_now := t \<rparr>) (CachedBlock_init block) raw core of
      Inl _ \<Rightarrow> True
    | Inr (ret, core') \<Rightarrow>
        (mainChainStorage core' = flat_blocks (main_chain core')) =
        (if ret = ADDED_TO_ALTERNATIVE_AND_SWITCHED
         then let start = bc_startIndex (hd (main_chain core')) in
              take start (flat_blocks (main_chain core)) = take start (flat_blocks (main_chain core'))
         else True)"
proof -
  have inv: "core_inv (ve_currency (env \<lparr> ve_now := t \<rparr>)) core" using core_reachable_inv [OF assms(1)] by simp
  show ?thesis
  proof (cases "addBlock (env \<lparr> ve_now := t \<rparr>) (CachedBlock_init block) raw core")
    case (Inr r)
    obtain ret core' where r: "r = (ret, core')" by (cases r)
    obtain ab h ch where o: "block_outcome ab h ch core ret core'" using addBlock_result [OF inv Inr [unfolded r] assms(2)] by metis
    have "(mainChainStorage core' = flat_blocks (main_chain core')) =
        (if ret = ADDED_TO_ALTERNATIVE_AND_SWITCHED
         then let start = bc_startIndex (hd (main_chain core')) in
              take start (flat_blocks (main_chain core)) = take start (flat_blocks (main_chain core'))
         else True)"
      using o [unfolded block_outcome_def]
    proof (elim disjE conjE)
      assume "ret = ADDED_TO_MAIN" "pushed_on ab h (main_chain core) (main_chain core')" "mainChainStorage core' = mainChainStorage core @ [ab_raw ab]"
      then show ?thesis using assms(3) by (simp add: pushed_def Let_def)
    next
      assume "ret = ADDED_TO_ALTERNATIVE" "same_flat (main_chain core) (main_chain core')" "mainChainStorage core' = mainChainStorage core"
      then show ?thesis using assms(3) by (simp add: same_flat_def)
    next
      assume "ret = ADDED_TO_ALTERNATIVE_AND_SWITCHED" "let start = bc_startIndex (hd (main_chain core')) in
          start \<le> length (mainChainStorage core) \<and>
          mainChainStorage core' = take start (mainChainStorage core) @ drop start (flat_blocks (main_chain core'))"
      then show ?thesis using assms(3) by (simp add: Let_def switched_equal)
    qed
    then show ?thesis unfolding Inr r by simp
  qed simp
qed

theorem storage_follows_main_chain_witness:
  "core_reachable sample_env sample_core \<and> block_limits sample_env (CachedBlock_init first_block) first_raw sample_core \<and>
   mainChainStorage sample_core = flat_blocks (main_chain sample_core) \<and>
   (case addBlock sample_env (CachedBlock_init first_block) first_raw sample_core of
      Inl _ \<Rightarrow> True
    | Inr (ret, core') \<Rightarrow>
        (mainChainStorage core' = flat_blocks (main_chain core')) =
        (if ret = ADDED_TO_ALTERNATIVE_AND_SWITCHED
         then let start = bc_startIndex (hd (main_chain core')) in
              take start (flat_blocks (main_chain sample_core)) = take start (flat_blocks (main_chain core'))
         else True))"
  using storage_follows_main_chain [OF sample_core_reachable(1) first_block_limits sample_core_reachable(2)]
    sample_core_reachable(1,2) first_block_limits
  unfolding same_time by blast

end
