(* ===== verification/Spec2Isabelle.thy ===== *)
theory Spec2Isabelle
  imports Prelude IntUtil Streams Varint Keccak Base58 CoreTypes BinarySerializer TxSerialization TreeHash StringTools TransactionExtra BlockSerialization CachedObjects Config FormatUtils Difficulty Currency ProofOfWork TxPool ChainCache Validation ChainCore
begin

text \<open>
  This library verifies the consensus core of kryptokrona, a CryptoNote currency written in C and
  C++ (the sources are under \<open>src/src\<close> and \<open>src/include\<close>). Definitions are translations of the code into
  HOL functions that compute; theorems are proved about them.

  \<^bold>\<open>The program.\<close> Transactions and blocks (\<open>include/cryptonote.h\<close>) are written to and read from bytes by
  serializers (\<open>src/serialization\<close>, \<open>cryptonote_core/cryptonote_serialization.cpp\<close>) over byte streams and
  variable-length integers (\<open>src/common\<close>). Their identities are Keccak hashes of these bytes
  (\<open>src/crypto\<close>), kept in caches (\<open>cached_block.cpp\<close>, \<open>cached_transaction.cpp\<close>); a block binds its
  transactions by a Merkle tree (\<open>tree-hash.c\<close>). The rules of the currency (\<open>currency.cpp\<close>) fix rewards,
  fees, the next difficulty and the proof of work. Transactions that wait for a block are in the pool
  (\<open>transaction_pool.cpp\<close>), which a cleaner empties of stale ones. Addresses are Base58 text.

  \<^bold>\<open>Model.\<close> A byte is an \<open>8 word\<close>, \<open>uint32_t\<close> and \<open>uint64_t\<close> are words of their width, so that arithmetic wraps as
  in the code; a signed 64-bit value is a word read with \<open>sint\<close>. Byte arrays and strings are lists of
  bytes, structures are records, variants are datatypes. A function that throws returns \<open>Inl\<close> of an
  error; one that returns false and an output parameter returns an option or a pair; a result the
  language leaves undefined (division by zero, index out of range, signed overflow) is \<open>None\<close>. Assertions
  are hypotheses. Loops are structural recursions or functions with a termination proof; no definition
  needs fuel except \<open>read_varint_loop\<close>-like loops whose count is the number of bytes left.

  \<^bold>\<open>Theories.\<close>
  \<^item> \<open>Prelude\<close>: types, results with errors (\<open>bindE\<close>, \<open>guardE\<close>), generic lemmas, named collections.
  \<^item> \<open>IntUtil\<close> (\<open>common/int_util.h\<close>): 128-bit products and quotients, rotations, byte order.
  \<^item> \<open>Streams\<close>, \<open>Varint\<close> (\<open>common/*_stream.cpp\<close>, \<open>stream_tools.cpp\<close>, \<open>varint.h\<close>): the locale \<open>input_stream\<close> is the
    contract of a stream; variable-length integers read back and have one encoding.
  \<^item> \<open>Keccak\<close> (\<open>crypto/keccak.c\<close>, \<open>hash.c\<close>): the permutation and the sponge equal a reference definition.
  \<^item> \<open>Base58\<close>, \<open>StringTools\<close>: text encodings, inverse to each other and canonical.
  \<^item> \<open>CoreTypes\<close>, \<open>BinarySerializer\<close>, \<open>TxSerialization\<close>, \<open>BlockSerialization\<close>: the locale \<open>codec\<close> states that
    reading inverts writing and accepts only what was written; it is interpreted for every type that
    has the law, and the block template, which has not, gets the weaker statements that hold.
  \<^item> \<open>TreeHash\<close>: the in-place tree hash is the Merkle root; branches prove membership and bind the leaf.
  \<^item> \<open>TransactionExtra\<close>: parser and writer of the extra field.
  \<^item> \<open>CachedObjects\<close>: the locale \<open>memo\<close> is the contract of a caching getter, interpreted for each.
  \<^item> \<open>Config\<close>, \<open>FormatUtils\<close>, \<open>Difficulty\<close>, \<open>Currency\<close>, \<open>ProofOfWork\<close>: parameters, amounts, ring sizes,
    difficulty adjustment, rewards, miner and fusion transactions, genesis block, proof of work.
  \<^item> \<open>TxPool\<close>: the pool as a list in the order of its cost index; the locale \<open>pool_contract\<close> is interpreted on
    the pool and on its cleaning wrapper; reachable pools are an inductive predicate.

  \<^bold>\<open>Parameters.\<close> The slow hash functions of the proof of work, the operations on curve points, the JSON
  parser and the clock are arguments of the definitions that use them; where a theorem relies on one of
  them its hypothesis says on what (for example that a hash has 32 bytes).

  \<^bold>\<open>Not modelled.\<close> The arithmetic of the curve (\<open>crypto-ops.c\<close>) and the slow hashes (\<open>slow-hash.c\<close> and the
  hash functions it mixes) are large numeric kernels whose correctness is a theory of its own; the
  wallets, the peer-to-peer and RPC servers, the miner, the logging and the storage engine are
  concurrent input and output around the parts above.
\<close>

end
